(* ===== verification/Sync_Prelude.thy ===== *)
theory Sync_Prelude
  imports Main "HOL-Library.Word" "HOL-Library.Multiset" "HOL-Library.Monad_Syntax"
begin

text \<open>
  What every component of the development shares: C's 32-bit signed arithmetic with its
  undefined cases, array cells read and written by index, and the circular buffer that
  the two channels and the thread pool each keep in four integer fields
  (\<open>capacity\<close>, \<open>head\<close>, \<open>tail\<close>, \<open>count\<close>) beside an array of cells.

  An operation of the C code that may stop the process is modelled as a function into
  \<open>option\<close>: \<open>None\<close> is a call of \<open>abort()\<close> or a step whose behaviour C leaves undefined
  (a signed overflow, an index outside the array, a dereference of freed memory).
\<close>

named_theorems c_defs \<open>unfoldings of the C primitives\<close>
named_theorems ring_simps \<open>rewrites of the circular buffer\<close>

section \<open>Signed 32-bit arithmetic\<close>

definition INT32_MAX :: int where
  "INT32_MAX = 2147483647"

definition INT32_MIN :: int where
  "INT32_MIN = - 2147483648"

definition i32 :: "int \<Rightarrow> bool" where
  "i32 x \<longleftrightarrow> INT32_MIN \<le> x \<and> x \<le> INT32_MAX"

text \<open>Signed addition and subtraction: undefined when the exact result does not fit.\<close>

definition i32_add :: "int \<Rightarrow> int \<Rightarrow> int option" where
  "i32_add x y = (if i32 (x + y) then Some (x + y) else None)"

definition i32_sub :: "int \<Rightarrow> int \<Rightarrow> int option" where
  "i32_sub x y = (if i32 (x - y) then Some (x - y) else None)"

definition i64 :: "int \<Rightarrow> bool" where
  "i64 x \<longleftrightarrow> - (2 ^ 63) \<le> x \<and> x < 2 ^ 63"

definition i64_add :: "int \<Rightarrow> int \<Rightarrow> int option" where
  "i64_add x y = (if i64 (x + y) then Some (x + y) else None)"

text \<open>The remainder truncates towards zero; a zero divisor is undefined.\<close>

definition c_rem :: "int \<Rightarrow> int \<Rightarrow> int" where
  "c_rem x y = sgn x * (\<bar>x\<bar> mod \<bar>y\<bar>)"

definition i32_rem :: "int \<Rightarrow> int \<Rightarrow> int option" where
  "i32_rem x y = (if y = 0 \<or> (x = INT32_MIN \<and> y = - 1) then None else Some (c_rem x y))"

section \<open>Array cells\<close>

definition cell_get :: "'a list \<Rightarrow> int \<Rightarrow> 'a option" where
  "cell_get xs i = (if 0 \<le> i \<and> i < int (length xs) then Some (xs ! nat i) else None)"

definition cell_set :: "'a list \<Rightarrow> int \<Rightarrow> 'a \<Rightarrow> 'a list option" where
  "cell_set xs i v = (if 0 \<le> i \<and> i < int (length xs) then Some (xs[nat i := v]) else None)"

section \<open>The circular buffer\<close>

text \<open>
  \<open>ring_at\<close> is the cell \<open>j\<close> places after the head, \<open>ring_list\<close> the queue the buffer stands
  for, oldest element first, and \<open>ring_ok\<close> the invariant that ties the fields together: the
  occupied cells are exactly the \<open>count\<close> cells that start at \<open>head\<close>.
\<close>

definition ring_at :: "'a option list \<Rightarrow> int \<Rightarrow> nat \<Rightarrow> 'a option" where
  "ring_at cs h j = cs ! ((nat h + j) mod length cs)"

definition ring_list :: "'a option list \<Rightarrow> int \<Rightarrow> int \<Rightarrow> 'a list" where
  "ring_list cs h n = map (\<lambda>j. the (ring_at cs h j)) [0..<nat n]"

definition ring_ok :: "'a option list \<Rightarrow> int \<Rightarrow> int \<Rightarrow> int \<Rightarrow> int \<Rightarrow> bool" where
  "ring_ok cs cap h t n \<longleftrightarrow>
     0 < cap \<and> i32 cap \<and> length cs = nat cap \<and> 0 \<le> h \<and> h < cap \<and> 0 \<le> n \<and> n \<le> cap \<and>
     t = (h + n) mod cap \<and>
     list_all (\<lambda>j. (ring_at cs h j \<noteq> None) = (int j < n)) [0..<nat cap]"

text \<open>The contents of all cells that are not \<open>NULL\<close>, in array order.\<close>

definition occupied :: "'a option list \<Rightarrow> 'a list" where
  "occupied cs = map the (filter (\<lambda>x. x \<noteq> None) cs)"

subsection \<open>Arithmetic in range\<close>

lemma i32_add_in_range: "i32 (x + y) \<Longrightarrow> i32_add x y = Some (x + y)"
  by (simp add: i32_add_def)

lemma i32_sub_in_range: "i32 (x - y) \<Longrightarrow> i32_sub x y = Some (x - y)"
  by (simp add: i32_sub_def)

lemma i64_add_i32: "i32 x \<Longrightarrow> i32 y \<Longrightarrow> i64_add x y = Some (x + y)"
  by (simp add: i64_add_def i64_def i32_def INT32_MIN_def INT32_MAX_def)

lemma i32_rem_nonneg: "0 \<le> x \<Longrightarrow> 0 < y \<Longrightarrow> i32_rem x y = Some (x mod y)"
  by (auto simp: i32_rem_def c_rem_def sgn_if)

lemma i32_between: "i32 y \<Longrightarrow> 0 \<le> x \<Longrightarrow> x \<le> y \<Longrightarrow> i32 x"
  by (simp add: i32_def INT32_MIN_def)

lemma i32_sub_one: "i32 x \<Longrightarrow> 0 < x \<Longrightarrow> i32_sub x 1 = Some (x - 1)"
  by (simp add: i32_sub_def i32_def INT32_MIN_def)

lemma mod_shift_cancel_le:
  fixes h j n L :: nat
  assumes "j \<le> n" "n < L" "(h + j) mod L = (h + n) mod L"
  shows "j = n"
proof -
  have "L dvd (h + n) - (h + j)"
    using assms(1,3) by (metis add_le_cancel_left mod_eq_dvd_iff_nat)
  then have "L dvd n - j" by simp
  with assms(1,2) show ?thesis by (metis dvd_imp_le le_antisym less_imp_diff_less not_le diff_is_0_eq neq0_conv)
qed

lemma mod_shift_cancel:
  fixes h j n L :: nat
  assumes "j < L" "n < L"
  shows "(h + j) mod L = (h + n) mod L \<longleftrightarrow> j = n"
  using assms mod_shift_cancel_le [of j n L h] mod_shift_cancel_le [of n j L h] by (metis nle_le)

subsection \<open>The buffer under push and pop\<close>

lemma ring_okD:
  assumes "ring_ok cs cap h t n"
  shows "0 < cap" "i32 cap" "length cs = nat cap" "0 \<le> h" "h < cap" "0 \<le> n" "n \<le> cap"
    "0 \<le> t" "t < cap" "t = (h + n) mod cap"
    "nat t = (nat h + nat n) mod length cs"
    "\<And>j. j < length cs \<Longrightarrow> (ring_at cs h j \<noteq> None) = (int j < n)"
  using assms
  by (auto simp: ring_ok_def list_all_iff nat_mod_distrib nat_add_distrib)

lemma ring_list_length [ring_simps]: "length (ring_list cs h n) = nat n"
  by (simp add: ring_list_def)

lemma ring_list_empty [ring_simps]: "n \<le> 0 \<Longrightarrow> ring_list cs h n = []"
  by (simp add: ring_list_def)

lemma ring_at_update:
  assumes "j < length cs" "k < length cs"
  shows "ring_at (cs[(nat h + k) mod length cs := v]) h j = (if j = k then v else ring_at cs h j)"
proof -
  have "(nat h + k) mod length cs < length cs"
    using assms(2) by (intro mod_less_divisor) linarith
  with assms show ?thesis
    using mod_shift_cancel [of k "length cs" j "nat h"]
    by (auto simp: ring_at_def nth_list_update)
qed

lemma ring_ok_initial:
  assumes "0 < cap" "i32 cap"
  shows "ring_ok (replicate (nat cap) None) cap 0 0 0"
  using assms by (simp add: ring_ok_def ring_at_def list_all_iff)

lemma ring_push_list:
  assumes ok: "ring_ok cs cap h t n" and room: "n < cap"
  shows "ring_list (cs[nat t := Some v]) h (n + 1) = ring_list cs h n @ [v]"
proof -
  note D = ring_okD [OF ok]
  have k: "nat n < length cs" using D room by simp
  have tl: "nat t = (nat h + nat n) mod length cs" by (rule D(11))
  have at: "j < length cs \<Longrightarrow>
      ring_at (cs[nat t := Some v]) h j = (if j = nat n then Some v else ring_at cs h j)" for j
    unfolding tl using ring_at_update [of j cs "nat n" h "Some v"] k by simp
  have "nat (n + 1) = Suc (nat n)" using D(6) by simp
  then show ?thesis
    using at k by (simp add: ring_list_def)
qed

lemma ring_push_ok:
  assumes ok: "ring_ok cs cap h t n" and room: "n < cap"
  shows "ring_ok (cs[nat t := Some v]) cap h ((t + 1) mod cap) (n + 1)"
proof -
  note D = ring_okD [OF ok]
  have k: "nat n < length cs" using D room by simp
  have tl: "nat t = (nat h + nat n) mod length cs" by (rule D(11))
  have "(ring_at (cs[nat t := Some v]) h j \<noteq> None) = (int j < n + 1)" if j: "j < length cs" for j
    unfolding tl using ring_at_update [OF j k, of h "Some v"] D(12) [OF j] D(6) by auto
  moreover have "(t + 1) mod cap = (h + (n + 1)) mod cap"
    using D(10) by (simp add: mod_add_left_eq add.assoc)
  ultimately show ?thesis
    using D(1-7) room by (simp add: ring_ok_def list_all_iff)
qed

lemma ring_at_Suc:
  assumes ok: "ring_ok cs cap h t n"
  shows "ring_at cs ((h + 1) mod cap) j = ring_at cs h (Suc j)"
proof -
  note D = ring_okD [OF ok]
  have "nat ((h + 1) mod cap) = Suc (nat h) mod length cs"
    using D by (simp add: nat_mod_distrib nat_add_distrib)
  then show ?thesis by (simp add: ring_at_def mod_add_left_eq)
qed

lemma ring_pop_head:
  assumes ok: "ring_ok cs cap h t n" and some: "0 < n"
  obtains v where "cs ! nat h = Some v" "ring_list cs h n = v # ring_list cs ((h + 1) mod cap) (n - 1)"
proof -
  note D = ring_okD [OF ok]
  have "ring_at cs h 0 \<noteq> None" using D(12) [of 0] D some by simp
  moreover have "ring_at cs h 0 = cs ! nat h" using D by (simp add: ring_at_def)
  ultimately obtain v where v: "cs ! nat h = Some v" "ring_at cs h 0 = Some v" by auto
  have n: "nat n = Suc (nat (n - 1))" using some by simp
  have "ring_list cs h n = v # map (\<lambda>j. the (ring_at cs h (Suc j))) [0..<nat (n - 1)]"
    unfolding ring_list_def n by (simp add: v(2) upt_conv_Cons map_Suc_upt [symmetric] comp_def del: upt_Suc)
  then show ?thesis using that v(1) by (simp add: ring_list_def ring_at_Suc [OF ok])
qed

lemma ring_pop_ok:
  assumes ok: "ring_ok cs cap h t n" and some: "0 < n"
  shows "ring_ok (cs[nat h := None]) cap ((h + 1) mod cap) t (n - 1)"
proof -
  note D = ring_okD [OF ok]
  let ?cs = "cs[nat h := None]"
  have h0: "nat h = (nat h + 0) mod length cs" using D by simp
  have upd: "j < length cs \<Longrightarrow> ring_at ?cs h j = (if j = 0 then None else ring_at cs h j)" for j
    using ring_at_update [of j cs 0 h None] h0 by (cases "cs = []") auto
  have shift: "ring_at ?cs ((h + 1) mod cap) j = ring_at ?cs h (Suc j)" for j
    using ring_at_Suc [OF ok, of j] D
    by (simp add: ring_at_def nat_mod_distrib nat_add_distrib mod_add_left_eq)
  have "(ring_at ?cs ((h + 1) mod cap) j \<noteq> None) = (int j < n - 1)" if j: "j < length cs" for j
  proof (cases "Suc j < length cs")
    case True
    then show ?thesis using shift upd [of "Suc j"] D(12) [of "Suc j"] by auto
  next
    case False
    then have e: "Suc j = length cs" using j by simp
    have "ring_at ?cs h (Suc j) = ring_at ?cs h 0" unfolding e by (simp add: ring_at_def)
    then have "ring_at ?cs ((h + 1) mod cap) j = None" using shift upd [of 0] j by force
    moreover have "\<not> int j < n - 1" using e D(3,7) by simp
    ultimately show ?thesis by simp
  qed
  moreover have "t = ((h + 1) mod cap + (n - 1)) mod cap"
    using D(10) by (simp add: mod_add_left_eq)
  ultimately show ?thesis
    using D some by (simp add: ring_ok_def list_all_iff)
qed

lemma ring_list_clear:
  assumes ok: "ring_ok cs cap h t n" and some: "0 < n"
  shows "ring_list (cs[nat h := None]) ((h + 1) mod cap) (n - 1) = ring_list cs ((h + 1) mod cap) (n - 1)"
proof -
  note D = ring_okD [OF ok]
  have upd: "Suc j < length cs \<Longrightarrow> ring_at (cs[nat h := None]) h (Suc j) = ring_at cs h (Suc j)" for j
    using ring_at_update [of "Suc j" cs 0 h None] D by simp
  have shift: "ring_at (cs[nat h := None]) ((h + 1) mod cap) j = ring_at (cs[nat h := None]) h (Suc j)" for j
    using ring_at_Suc [OF ok, of j] D
    by (simp add: ring_at_def nat_mod_distrib nat_add_distrib mod_add_left_eq)
  show ?thesis
    using D by (auto simp: ring_list_def shift upd ring_at_Suc [OF ok])
qed

subsection \<open>The statements that push and pop\<close>

text \<open>Under the invariant every index, addition and remainder of the C statements is defined.\<close>

lemma ring_push_code:
  assumes ok: "ring_ok cs cap h t n" and room: "n \<noteq> cap"
  shows "cell_set cs t v = Some (cs[nat t := v])" "i32_add t 1 = Some (t + 1)"
    "i32_rem (t + 1) cap = Some ((t + 1) mod cap)" "i32_add n 1 = Some (n + 1)"
proof -
  note D = ring_okD [OF ok]
  show "cell_set cs t v = Some (cs[nat t := v])" using D(3,8,9) by (simp add: cell_set_def)
  show "i32_add t 1 = Some (t + 1)" "i32_add n 1 = Some (n + 1)"
    using D(6-9) room by (auto intro!: i32_add_in_range i32_between [OF D(2)])
  show "i32_rem (t + 1) cap = Some ((t + 1) mod cap)" using D(1,8) by (intro i32_rem_nonneg) auto
qed

lemma ring_pop_code:
  assumes ok: "ring_ok cs cap h t n" and some: "n \<noteq> 0"
  shows "cell_get cs h = Some (cs ! nat h)" "cell_set cs h v = Some (cs[nat h := v])"
    "i32_add h 1 = Some (h + 1)" "i32_rem (h + 1) cap = Some ((h + 1) mod cap)" "i32_sub n 1 = Some (n - 1)"
proof -
  note D = ring_okD [OF ok]
  show "cell_get cs h = Some (cs ! nat h)" "cell_set cs h v = Some (cs[nat h := v])"
    using D(3-5) by (simp_all add: cell_get_def cell_set_def)
  show "i32_add h 1 = Some (h + 1)" using D(4,5) by (intro i32_add_in_range i32_between [OF D(2)]) auto
  show "i32_rem (h + 1) cap = Some ((h + 1) mod cap)" using D(1,4) by (intro i32_rem_nonneg) auto
  show "i32_sub n 1 = Some (n - 1)" using D(6,7) some by (intro i32_sub_in_range i32_between [OF D(2)]) auto
qed

subsection \<open>All the occupied cells\<close>

lemma occupied_simps [simp]:
  "occupied [] = []" "occupied (None # cs) = occupied cs" "occupied (Some v # cs) = v # occupied cs"
  by (simp_all add: occupied_def)

lemma mset_rotated: "mset (rotate n xs) = mset xs"
  by (metis append_take_drop_id mset_append rotate_drop_take union_commute)

lemma mset_occupied:
  assumes ok: "ring_ok cs cap h t n"
  shows "mset (occupied cs) = mset (ring_list cs h n)"
proof -
  note D = ring_okD [OF ok]
  let ?r = "map (ring_at cs h) [0..<length cs]"
  have "?r = rotate (nat h) cs"
    using D by (intro nth_equalityI) (auto simp: ring_at_def nth_rotate)
  then have "mset cs = mset ?r" by (simp add: mset_rotated)
  then have "mset (occupied cs) = mset (occupied ?r)"
    by (simp only: occupied_def mset_map mset_filter)
  also have "[0..<length cs] = [0..<nat n] @ [nat n..<length cs]"
    using D(3,7) by (metis le_nat_iff upt_add_eq_append le_add_diff_inverse nat_mono zero_le)
  also have "occupied (map (ring_at cs h) \<dots>) = ring_list cs h n"
  proof -
    have "filter (\<lambda>j. ring_at cs h j \<noteq> None) [0..<nat n] = [0..<nat n]"
      using D by (intro filter_True) auto
    moreover have "filter (\<lambda>j. ring_at cs h j \<noteq> None) [nat n..<length cs] = []"
      using D(12) by (intro filter_False) fastforce
    ultimately show ?thesis
      by (simp add: occupied_def filter_map comp_def ring_list_def)
  qed
  finally show ?thesis .
qed

section \<open>Reference counts\<close>

text \<open>A counter of fewer than \<open>2 ^ 32\<close> references reads zero exactly when there is none.\<close>

lemma refs_zero_iff: "n < 2 ^ 32 \<Longrightarrow> of_nat n = (0 :: 32 word) \<longleftrightarrow> n = 0"
  by (auto simp: word_of_nat_eq_0_iff dest: dvd_imp_le)

end
