(* ===== verification/Sync_Native.thy ===== *)
theory Sync_Native
  imports Sync_Prelude
begin

text \<open>
  The shared native layer: \<^verbatim>\<open>src/src/internal/native_internal.h\<close> (atomic reference
  counts, the fault-injection cells, allocation) and \<^verbatim>\<open>src/src/internal/native_sync.h\<close>
  (mutex, read-write lock and condition variable wrappers).

  The operating system, the C allocator's choice to fail and the MoonBit runtime are not
  part of the repository. They are the parameter \<open>os\<close> of every definition: a record that
  answers each call, and may take the whole history of calls into account. What a call
  does is recorded in the field \<open>calls\<close> of the state, in order, with the status it
  returned; the theorems read that log to say which locks, wake-ups, reference-count
  updates and deallocations an operation makes.
\<close>

section \<open>Calls that leave the library\<close>

type_synonym addr = nat

datatype cond = Readable | Writable | NotEmpty | NotFull | Stopped | Cond

datatype block = CoreBlock | SlotsBlock | MessageBlock | DataBlock

text \<open>
  Mutexes, locks and condition variables are fields of a component's core, so a call names
  the core's address (and the field, for condition variables). \<open>'v\<close> is the type of the
  MoonBit objects whose reference counts the code updates.
\<close>

datatype 'v call =
    MutexInit addr | MutexDestroy addr | MutexLock addr | MutexUnlock addr
  | RwInit addr | RwDestroy addr
  | ReadLock addr | ReadUnlock addr | WriteLock addr | WriteUnlock addr
  | CondInit addr cond | CondDestroy addr cond
  | CondSleep addr cond | CondWait addr cond | CondSignal addr cond | CondBroadcast addr cond
  | Calloc block | Free block
  | Incref 'v | Decref 'v
  | ThreadCreate addr | ThreadJoin addr | ThreadDetach addr
  | RunClosure 'v

type_synonym 'v history = "('v call \<times> int) list"

record 'v os =
  win32 :: bool
  ret :: "'v history \<Rightarrow> 'v call \<Rightarrow> int"
  calloc_null :: "'v history \<Rightarrow> block \<Rightarrow> bool"
  size_max :: nat
  pointer_size :: nat

record 'v base =
  calls :: "'v history"

text \<open>
  The state of a component: the log, the heap of its cores and the next unused address.
  An address that maps to \<open>None\<close> is not allocated (never, or no longer).
\<close>

record ('v, 'c) world = "'v base" +
  mem :: "addr \<rightharpoonup> 'c"
  fresh :: addr

definition log_call :: "'v call \<Rightarrow> int \<Rightarrow> ('v, 'z) base_scheme \<Rightarrow> ('v, 'z) base_scheme" where
  "log_call k st w = w\<lparr>calls := calls w @ [(k, st)]\<rparr>"

text \<open>
  \<open>os_call\<close> reports the status the system returned; \<open>posix_call\<close> is a wrapper that returns 0
  unconditionally on Windows (its \<open>#if defined(_WIN32)\<close> branch) and the system's status
  elsewhere.
\<close>

definition os_call :: "'v os \<Rightarrow> 'v call \<Rightarrow> ('v, 'z) base_scheme \<Rightarrow> int \<times> ('v, 'z) base_scheme" where
  "os_call os k w = (let st = ret os (calls w) k in (st, log_call k st w))"

definition posix_status :: "'v os \<Rightarrow> 'v call \<Rightarrow> 'v history \<Rightarrow> int" where
  "posix_status os k h = (if win32 os then 0 else ret os h k)"

definition posix_call :: "'v os \<Rightarrow> 'v call \<Rightarrow> ('v, 'z) base_scheme \<Rightarrow> int \<times> ('v, 'z) base_scheme" where
  "posix_call os k w = (let st = posix_status os k (calls w) in (st, log_call k st w))"

text \<open>The operating system and the allocator never fail.\<close>

definition os_ok :: "'v os \<Rightarrow> bool" where
  "os_ok os \<longleftrightarrow> (\<forall>h k. ret os h k = 0) \<and> (\<forall>h b. \<not> calloc_null os h b)"

text \<open>One such system, for concrete runs.\<close>

definition quiet_os :: "'v os" where
  "quiet_os = \<lparr>win32 = False, ret = (\<lambda>_ _. 0), calloc_null = (\<lambda>_ _. False),
    size_max = 18446744073709551615, pointer_size = 8\<rparr>"

section \<open>native\_internal.h\<close>

type_synonym sync_arc_t = "32 word"

definition sync_arc_inc :: "sync_arc_t \<Rightarrow> sync_arc_t" where
  "sync_arc_inc value = value + 1"

definition sync_arc_dec :: "sync_arc_t \<Rightarrow> sync_arc_t" where
  "sync_arc_dec value = value - 1"

text \<open>Each atomic cell operation returns what it read (if anything) and the new contents.\<close>

definition sync_test_atomic_load :: "int \<Rightarrow> int \<times> int" where
  "sync_test_atomic_load value = (value, value)"

definition sync_test_atomic_store :: "int \<Rightarrow> int \<Rightarrow> int" where
  "sync_test_atomic_store value next = next"

definition sync_test_atomic_take :: "int \<Rightarrow> int \<times> int" where
  "sync_test_atomic_take value = (value, 0)"

text \<open>
  Compare and exchange: the result, the new contents and the new value of \<open>*expected\<close>.
\<close>

definition sync_test_atomic_compare_exchange :: "int \<Rightarrow> int \<Rightarrow> int \<Rightarrow> int \<times> int \<times> int" where
  "sync_test_atomic_compare_exchange value expected desired =
     (if value = expected then (1, desired, expected) else (0, value, value))"

definition sync_try_alloc :: "'v os \<Rightarrow> block \<Rightarrow> ('v, 'z) base_scheme \<Rightarrow> bool \<times> ('v, 'z) base_scheme" where
  "sync_try_alloc os b w =
     (if calloc_null os (calls w) b then (False, w) else (True, log_call (Calloc b) 0 w))"

definition sync_alloc :: "'v os \<Rightarrow> block \<Rightarrow> ('v, 'z) base_scheme \<Rightarrow> ('v, 'z) base_scheme option" where
  "sync_alloc os b w = (let (ok, w) = sync_try_alloc os b w in if \<not> ok then None else Some w)"

definition c_free :: "block \<Rightarrow> ('v, 'z) base_scheme \<Rightarrow> ('v, 'z) base_scheme" where
  "c_free b w = log_call (Free b) 0 w"

definition moonbit_decref :: "'v \<Rightarrow> ('v, 'z) base_scheme \<Rightarrow> ('v, 'z) base_scheme" where
  "moonbit_decref v w = log_call (Decref v) 0 w"

definition moonbit_incref :: "'v \<Rightarrow> ('v, 'z) base_scheme \<Rightarrow> ('v, 'z) base_scheme" where
  "moonbit_incref v w = log_call (Incref v) 0 w"

text \<open>
  Writing a core back to its address, and freeing it: the address is unallocated from then
  on, so any later access to it is undefined.
\<close>

definition store :: "addr \<Rightarrow> 'c \<Rightarrow> ('v, 'c, 'z) world_scheme \<Rightarrow> ('v, 'c, 'z) world_scheme" where
  "store a c w = w\<lparr>mem := (mem w)(a \<mapsto> c)\<rparr>"

definition free_core :: "addr \<Rightarrow> ('v, 'c, 'z) world_scheme \<Rightarrow> ('v, 'c, 'z) world_scheme" where
  "free_core a w = (c_free CoreBlock w)\<lparr>mem := (mem w)(a := None)\<rparr>"

text \<open>The size of an array in bytes, for a given \<open>SIZE_MAX\<close>.\<close>

definition sync_array_size_or_abort :: "nat \<Rightarrow> int \<Rightarrow> nat \<Rightarrow> nat option" where
  "sync_array_size_or_abort smax len element_size =
     (if len \<le> 0 \<or> nat len > smax div element_size then None
      else Some (nat len * element_size))"

text \<open>\<open>abort_if_failed\<close>, of which every C file has its own copy.\<close>

definition abort_if_failed :: "int \<times> 'w \<Rightarrow> 'w option" where
  "abort_if_failed = (\<lambda>(status, w). if status \<noteq> 0 then None else Some w)"

text \<open>\<open>record_error\<close>, likewise: the first failure of an operation is the one it reports.\<close>

definition record_error :: "int \<Rightarrow> int \<Rightarrow> int" where
  "record_error error status = (if error = 0 \<and> status \<noteq> 0 then status else error)"

section \<open>native\_sync.h\<close>

definition sync_os_mutex_init :: "'v os \<Rightarrow> addr \<Rightarrow> ('v, 'z) base_scheme \<Rightarrow> int \<times> ('v, 'z) base_scheme" where
  "sync_os_mutex_init os a = posix_call os (MutexInit a)"

definition sync_os_mutex_destroy :: "'v os \<Rightarrow> addr \<Rightarrow> ('v, 'z) base_scheme \<Rightarrow> int \<times> ('v, 'z) base_scheme" where
  "sync_os_mutex_destroy os a = posix_call os (MutexDestroy a)"

definition sync_os_mutex_lock :: "'v os \<Rightarrow> addr \<Rightarrow> ('v, 'z) base_scheme \<Rightarrow> int \<times> ('v, 'z) base_scheme" where
  "sync_os_mutex_lock os a = posix_call os (MutexLock a)"

definition sync_os_mutex_unlock :: "'v os \<Rightarrow> addr \<Rightarrow> ('v, 'z) base_scheme \<Rightarrow> int \<times> ('v, 'z) base_scheme" where
  "sync_os_mutex_unlock os a = posix_call os (MutexUnlock a)"

definition sync_os_rwlock_init :: "'v os \<Rightarrow> addr \<Rightarrow> ('v, 'z) base_scheme \<Rightarrow> int \<times> ('v, 'z) base_scheme" where
  "sync_os_rwlock_init os a = posix_call os (RwInit a)"

definition sync_os_rwlock_destroy :: "'v os \<Rightarrow> addr \<Rightarrow> ('v, 'z) base_scheme \<Rightarrow> int \<times> ('v, 'z) base_scheme" where
  "sync_os_rwlock_destroy os a = posix_call os (RwDestroy a)"

definition sync_os_rwlock_read_lock :: "'v os \<Rightarrow> addr \<Rightarrow> ('v, 'z) base_scheme \<Rightarrow> int \<times> ('v, 'z) base_scheme" where
  "sync_os_rwlock_read_lock os a = posix_call os (ReadLock a)"

definition sync_os_rwlock_read_unlock :: "'v os \<Rightarrow> addr \<Rightarrow> ('v, 'z) base_scheme \<Rightarrow> int \<times> ('v, 'z) base_scheme" where
  "sync_os_rwlock_read_unlock os a = posix_call os (ReadUnlock a)"

definition sync_os_rwlock_write_lock :: "'v os \<Rightarrow> addr \<Rightarrow> ('v, 'z) base_scheme \<Rightarrow> int \<times> ('v, 'z) base_scheme" where
  "sync_os_rwlock_write_lock os a = posix_call os (WriteLock a)"

definition sync_os_rwlock_write_unlock :: "'v os \<Rightarrow> addr \<Rightarrow> ('v, 'z) base_scheme \<Rightarrow> int \<times> ('v, 'z) base_scheme" where
  "sync_os_rwlock_write_unlock os a = posix_call os (WriteUnlock a)"

definition sync_os_cond_init :: "'v os \<Rightarrow> addr \<Rightarrow> cond \<Rightarrow> ('v, 'z) base_scheme \<Rightarrow> int \<times> ('v, 'z) base_scheme" where
  "sync_os_cond_init os a cv = posix_call os (CondInit a cv)"

definition sync_os_cond_destroy :: "'v os \<Rightarrow> addr \<Rightarrow> cond \<Rightarrow> ('v, 'z) base_scheme \<Rightarrow> int \<times> ('v, 'z) base_scheme" where
  "sync_os_cond_destroy os a cv = posix_call os (CondDestroy a cv)"

text \<open>
  A wait has two ends, since the mutex is free and other threads run in between.
  \<open>cond_sleep\<close> is the first: the thread gives the mutex up and blocks. The second is
  the part that runs once the thread holds the mutex again: the status the operating
  system reports. Windows may report a failure here too.
\<close>

definition cond_sleep :: "addr \<Rightarrow> cond \<Rightarrow> ('v, 'z) base_scheme \<Rightarrow> ('v, 'z) base_scheme" where
  "cond_sleep a cv w = log_call (CondSleep a cv) 0 w"

definition sync_os_cond_wait :: "'v os \<Rightarrow> addr \<Rightarrow> cond \<Rightarrow> ('v, 'z) base_scheme \<Rightarrow> int \<times> ('v, 'z) base_scheme" where
  "sync_os_cond_wait os a cv = os_call os (CondWait a cv)"

definition sync_os_cond_signal :: "'v os \<Rightarrow> addr \<Rightarrow> cond \<Rightarrow> ('v, 'z) base_scheme \<Rightarrow> int \<times> ('v, 'z) base_scheme" where
  "sync_os_cond_signal os a cv = posix_call os (CondSignal a cv)"

definition sync_os_cond_broadcast :: "'v os \<Rightarrow> addr \<Rightarrow> cond \<Rightarrow> ('v, 'z) base_scheme \<Rightarrow> int \<times> ('v, 'z) base_scheme" where
  "sync_os_cond_broadcast os a cv = posix_call os (CondBroadcast a cv)"

text \<open>The identifier of the calling thread, \<open>self\<close>: the bytes of a \<open>pthread_t\<close>, or a Windows identifier.\<close>

definition sync_os_current_thread_id :: "64 word \<Rightarrow> 64 word" where
  "sync_os_current_thread_id self = self"

section \<open>Mutex discipline\<close>

text \<open>
  \<open>mutex_step\<close> follows one core's mutex through the log: \<open>Some True\<close> while a thread holds it,
  \<open>Some False\<close> while it is free, \<open>None\<close> once a call broke the rules of the operating system's
  interface (taking a mutex that is held, unlocking, waiting or being woken without the right state,
  destroying a held mutex). Sleeping on a condition variable releases the mutex and
  waking takes it again.
\<close>

fun mutex_step :: "addr \<Rightarrow> 'v call \<times> int \<Rightarrow> bool \<Rightarrow> bool option" where
  "mutex_step a (MutexLock b, st) held =
     (if b \<noteq> a then Some held else if held \<and> st = 0 then None else Some (held \<or> st = 0))"
| "mutex_step a (MutexUnlock b, st) held =
     (if b \<noteq> a then Some held else if held then Some False else None)"
| "mutex_step a (CondSleep b cv, st) held =
     (if b \<noteq> a then Some held else if held then Some False else None)"
| "mutex_step a (CondWait b cv, st) held =
     (if b \<noteq> a then Some held else if held then None else Some True)"
| "mutex_step a (MutexDestroy b, st) held =
     (if b \<noteq> a then Some held else if held then None else Some False)"
| "mutex_step a (k, st) held = Some held"

fun mutex_run :: "addr \<Rightarrow> bool \<Rightarrow> 'v history \<Rightarrow> bool option" where
  "mutex_run a held [] = Some held"
| "mutex_run a held (x # xs) = Option.bind (mutex_step a x held) (\<lambda>held. mutex_run a held xs)"

definition mutex_state :: "addr \<Rightarrow> ('v, 'z) base_scheme \<Rightarrow> bool option" where
  "mutex_state a w = mutex_run a False (calls w)"

section \<open>Accounts of the log\<close>

text \<open>
  What the log says about resources: \<open>balance r ks\<close> is how many times \<open>r\<close> was acquired
  (a successful initialisation or allocation) minus how many times it was released, and
  \<open>decrefs\<close> lists the objects whose reference counts were decremented, in order.
\<close>

datatype resource = MutexRes addr | RwRes addr | CondRes addr cond | BlockRes block

fun acquired :: "'v call \<times> int \<Rightarrow> resource \<Rightarrow> int" where
  "acquired (MutexInit a, st) r = (if r = MutexRes a \<and> st = 0 then 1 else 0)"
| "acquired (MutexDestroy a, st) r = (if r = MutexRes a then - 1 else 0)"
| "acquired (RwInit a, st) r = (if r = RwRes a \<and> st = 0 then 1 else 0)"
| "acquired (RwDestroy a, st) r = (if r = RwRes a then - 1 else 0)"
| "acquired (CondInit a cv, st) r = (if r = CondRes a cv \<and> st = 0 then 1 else 0)"
| "acquired (CondDestroy a cv, st) r = (if r = CondRes a cv then - 1 else 0)"
| "acquired (Calloc b, st) r = (if r = BlockRes b then 1 else 0)"
| "acquired (Free b, st) r = (if r = BlockRes b then - 1 else 0)"
| "acquired (k, st) r = 0"

definition balance :: "resource \<Rightarrow> 'v history \<Rightarrow> int" where
  "balance r ks = sum_list (map (\<lambda>x. acquired x r) ks)"

definition decrefs :: "'v history \<Rightarrow> 'v list" where
  "decrefs ks = concat (map (\<lambda>(k, st). case k of Decref v \<Rightarrow> [v] | _ \<Rightarrow> []) ks)"

text \<open>The resources in \<open>rs\<close>, each held once.\<close>

definition owning :: "resource list \<Rightarrow> resource \<Rightarrow> int" where
  "owning rs r = int (length (filter ((=) r) rs))"

section \<open>Reading the log\<close>

lemma mutex_run_append:
  "mutex_run a held (xs @ ys) = Option.bind (mutex_run a held xs) (\<lambda>held. mutex_run a held ys)"
  by (induction xs arbitrary: held) (auto split: Option.bind_splits)

lemma mutex_state_calls [c_defs]:
  "mutex_state a (w\<lparr>calls := calls w @ xs\<rparr>) = Option.bind (mutex_state a w) (\<lambda>held. mutex_run a held xs)"
  by (simp add: mutex_state_def mutex_run_append)

lemma balance_simps [simp]:
  "balance r [] = 0" "balance r (xs @ ys) = balance r xs + balance r ys"
  "balance r (x # xs) = acquired x r + balance r xs"
  by (simp_all add: balance_def)

lemma owning_simps [simp]:
  "owning [] r = 0" "owning (x # xs) r = (if r = x then 1 else 0) + owning xs r"
  by (simp_all add: owning_def)

lemma decrefs_simps [simp]:
  "decrefs [] = []" "decrefs (xs @ ys) = decrefs xs @ decrefs ys"
  "decrefs ((k, st) # ks) = (case k of Decref v \<Rightarrow> v # decrefs ks | _ \<Rightarrow> decrefs ks)"
  by (auto simp: decrefs_def split: call.splits)

lemma decref_log [simp]:
  "decrefs (map (\<lambda>v. (Decref v, 0)) xs) = xs" "balance r (map (\<lambda>v. (Decref v, 0)) xs) = 0"
  "mutex_run a held (map (\<lambda>v. (Decref v, 0)) xs) = Some held"
  by (induction xs) auto

section \<open>Unfolding the native layer\<close>

lemma record_error_zero [simp]: "record_error 0 st = st"
  by (simp add: record_error_def)

lemma record_error_ok [simp]: "record_error e 0 = e"
  by (simp add: record_error_def)

lemma record_error_eq_0_iff: "record_error e st = 0 \<longleftrightarrow> e = 0 \<and> st = 0"
  by (auto simp: record_error_def)

text \<open>Updates of the log come before updates of the heap.\<close>

lemma calls_mem_commute: "w\<lparr>mem := m, calls := ks\<rparr> = w\<lparr>calls := ks, mem := m\<rparr>"
  by simp

lemmas os_defs = calls_mem_commute sync_os_mutex_init_def sync_os_mutex_destroy_def sync_os_mutex_lock_def
  sync_os_mutex_unlock_def sync_os_rwlock_init_def sync_os_rwlock_destroy_def
  sync_os_rwlock_read_lock_def sync_os_rwlock_read_unlock_def
  sync_os_rwlock_write_lock_def sync_os_rwlock_write_unlock_def
  sync_os_cond_init_def sync_os_cond_destroy_def sync_os_cond_wait_def
  sync_os_cond_signal_def sync_os_cond_broadcast_def cond_sleep_def
  posix_call_def os_call_def log_call_def Let_def
  store_def free_core_def c_free_def moonbit_decref_def moonbit_incref_def
  sync_alloc_def sync_try_alloc_def sync_test_atomic_take_def sync_test_atomic_store_def
  sync_arc_inc_def sync_arc_dec_def

text \<open>
  A call returns some status and appends itself, with that status, to the log; nothing
  else of the state changes. With a working operating system the status is 0.
\<close>

lemma posix_status_ok [simp]: "os_ok os \<Longrightarrow> posix_status os k h = 0"
  by (simp add: posix_status_def os_ok_def)

lemma ret_ok [simp]: "os_ok os \<Longrightarrow> ret os h k = 0"
  by (simp add: os_ok_def)

lemma calloc_ok [simp]: "os_ok os \<Longrightarrow> \<not> calloc_null os h b"
  by (simp add: os_ok_def)

lemma abort_if_failed_eq_Some [simp]: "abort_if_failed (st, w) = Some w' \<longleftrightarrow> st = 0 \<and> w' = w"
  by (auto simp: abort_if_failed_def)

lemma bind_abort_if_failed [simp]:
  "Option.bind (abort_if_failed (st, w)) f = Some x \<longleftrightarrow> st = 0 \<and> f w = Some x"
  by (auto simp: abort_if_failed_def)

lemma abort_if_failed_ok [simp]: "abort_if_failed (0, w) = Some w"
  by simp

lemma quiet_os_ok [simp]: "os_ok quiet_os"
  by (simp add: quiet_os_def os_ok_def)

end
