(* ===== verification/Sync_Monitor.thy ===== *)
theory Sync_Monitor
  imports Sync_Native
begin

text \<open>
  Threads that share one core. Every operation that touches a core's fields does so with
  the core's mutex held, so a run of the program is an interleaving of the pieces of code
  between two points where the calling thread does not hold it: from \<open>lock\<close> to the next
  \<open>unlock\<close> or \<open>cond_wait\<close>, or from the return of a \<open>cond_wait\<close> to the next such point.

  A \<open>monitor\<close> is a component cut into these pieces. Its agents are the live handles: the
  library's contract gives every thread a handle of its own (\<open>share\<close>), so an agent runs one
  operation at a time. An agent is between operations (\<open>Ready\<close>), blocked on a condition
  variable (\<open>Asleep\<close>) or about to take the mutex again (\<open>Runnable\<close>). A signal wakes one
  sleeper if there is one, a broadcast wakes all, and a sleeper may also wake for no
  reason, as the operating systems allow.
\<close>

section \<open>Pieces of operations\<close>

datatype ('r, 'k) outcome = Return 'r | Wait cond 'k | Again 'k

datatype 'k mode = Ready | Asleep cond 'k | Runnable 'k

record ('v, 'z, 'op, 'h, 'k, 'r) monitor =
  site :: addr
  may :: "'op \<Rightarrow> 'h \<Rightarrow> bool"
  enter :: "'v os \<Rightarrow> 'op \<Rightarrow> 'h \<Rightarrow> ('v, 'z) base_scheme \<Rightarrow> (('r, 'k) outcome \<times> ('v, 'z) base_scheme) option"
  resume :: "'v os \<Rightarrow> 'k \<Rightarrow> 'h \<Rightarrow> ('v, 'z) base_scheme \<Rightarrow> (('r, 'k) outcome \<times> ('v, 'z) base_scheme) option"
  pending :: "'k \<Rightarrow> 'op"
  drops :: "'op \<Rightarrow> bool"
  born :: "'r \<Rightarrow> 'h option"

record ('v, 'z, 'op, 'h, 'k, 'r) config =
  wrld :: "('v, 'z) base_scheme"
  agents :: "('h \<times> 'k mode) multiset"
  past :: "('op \<times> 'r) list"

fun returned :: "('r, 'k) outcome \<Rightarrow> 'r option" where
  "returned (Return r) = Some r"
| "returned _ = None"

section \<open>Wake-ups\<close>

definition rouse :: "cond \<Rightarrow> 'h \<times> 'k mode \<Rightarrow> 'h \<times> 'k mode" where
  "rouse cv = (\<lambda>(h, m). (h, case m of Asleep cv' k \<Rightarrow> if cv' = cv then Runnable k else m | _ \<Rightarrow> m))"

definition asleep_on :: "cond \<Rightarrow> 'h \<times> 'k mode \<Rightarrow> bool" where
  "asleep_on cv x = (case snd x of Asleep cv' k \<Rightarrow> cv' = cv | _ \<Rightarrow> False)"

definition runnable_in :: "('k \<Rightarrow> bool) \<Rightarrow> 'h \<times> 'k mode \<Rightarrow> bool" where
  "runnable_in P x = (case snd x of Runnable k \<Rightarrow> P k | _ \<Rightarrow> False)"

text \<open>\<open>wakes a ks A B\<close>: the calls \<open>ks\<close> on core \<open>a\<close> turn the agents \<open>A\<close> into \<open>B\<close>.\<close>

definition wake_call :: "addr \<Rightarrow> 'v call \<times> int \<Rightarrow> bool" where
  "wake_call a x = (case x of (CondSignal b cv, st) \<Rightarrow> b = a \<and> st = 0
     | (CondBroadcast b cv, st) \<Rightarrow> b = a \<and> st = 0 | _ \<Rightarrow> False)"

inductive wakes :: "addr \<Rightarrow> 'v history \<Rightarrow> ('h \<times> 'k mode) multiset \<Rightarrow> ('h \<times> 'k mode) multiset \<Rightarrow> bool" where
  wakes_nil: "wakes a [] A A"
| wakes_other: "\<not> wake_call a x \<Longrightarrow> wakes a xs A B \<Longrightarrow> wakes a (x # xs) A B"
| wakes_none: "filter_mset (asleep_on cv) A = {#} \<Longrightarrow> wakes a xs A B \<Longrightarrow>
     wakes a ((CondSignal a cv, 0) # xs) A B"
| wakes_one: "wakes a xs (add_mset (h, Runnable k) A) B \<Longrightarrow>
     wakes a ((CondSignal a cv, 0) # xs) (add_mset (h, Asleep cv k) A) B"
| wakes_all: "wakes a xs (image_mset (rouse cv) A) B \<Longrightarrow>
     wakes a ((CondBroadcast a cv, 0) # xs) A B"

text \<open>What an agent still has to do, whether it is asleep or not.\<close>

fun tag :: "'h \<times> 'k mode \<Rightarrow> 'h \<times> 'k option" where
  "tag (h, Ready) = (h, None)"
| "tag (h, Asleep cv k) = (h, Some k)"
| "tag (h, Runnable k) = (h, Some k)"

section \<open>Steps of the whole system\<close>

definition new_calls :: "('v, 'z) base_scheme \<Rightarrow> ('v, 'z) base_scheme \<Rightarrow> 'v history" where
  "new_calls w w' = drop (length (calls w)) (calls w')"

text \<open>What the calling agent becomes, and the agent a returned handle adds.\<close>

definition settle ::
  "('v, 'z, 'op, 'h, 'k, 'r) monitor \<Rightarrow> 'op \<Rightarrow> 'h \<Rightarrow> ('r, 'k) outcome \<Rightarrow> ('h \<times> 'k mode) multiset" where
  "settle M op h out = (case out of
     Return r \<Rightarrow> (if drops M op then {#} else {#(h, Ready)#}) +
       (case born M r of None \<Rightarrow> {#} | Some h' \<Rightarrow> {#(h', Ready)#})
   | Wait cv k \<Rightarrow> {#(h, Asleep cv k)#}
   | Again k \<Rightarrow> {#(h, Runnable k)#})"

definition record_past :: "'op \<Rightarrow> ('r, 'k) outcome \<Rightarrow> ('op \<times> 'r) list \<Rightarrow> ('op \<times> 'r) list" where
  "record_past op out ps = (case out of Return r \<Rightarrow> ps @ [(op, r)] | _ \<Rightarrow> ps)"

text \<open>\<open>P\<close> restricts the behaviour of the operating system, e.g. to one that never fails.\<close>

inductive step ::
  "('v os \<Rightarrow> bool) \<Rightarrow> ('v, 'z, 'op, 'h, 'k, 'r) monitor \<Rightarrow>
   ('v, 'z, 'op, 'h, 'k, 'r) config \<Rightarrow> ('v, 'z, 'op, 'h, 'k, 'r) config \<Rightarrow> bool"
  for P :: "'v os \<Rightarrow> bool" and M :: "('v, 'z, 'op, 'h, 'k, 'r) monitor" where
  step_call: "P os \<Longrightarrow> may M op h \<Longrightarrow> enter M os op h w = Some (out, w') \<Longrightarrow>
     wakes (site M) (new_calls w w') A A' \<Longrightarrow>
     step P M \<lparr>wrld = w, agents = add_mset (h, Ready) A, past = ps\<rparr>
       \<lparr>wrld = w', agents = A' + settle M op h out, past = record_past op out ps\<rparr>"
| step_resume: "P os \<Longrightarrow> resume M os k h w = Some (out, w') \<Longrightarrow>
     wakes (site M) (new_calls w w') A A' \<Longrightarrow>
     step P M \<lparr>wrld = w, agents = add_mset (h, Runnable k) A, past = ps\<rparr>
       \<lparr>wrld = w', agents = A' + settle M (pending M k) h out,
        past = record_past (pending M k) out ps\<rparr>"
| step_spurious:
     "step P M \<lparr>wrld = w, agents = add_mset (h, Asleep cv k) A, past = ps\<rparr>
       \<lparr>wrld = w, agents = add_mset (h, Runnable k) A, past = ps\<rparr>"

inductive reach ::
  "('v os \<Rightarrow> bool) \<Rightarrow> ('v, 'z, 'op, 'h, 'k, 'r) monitor \<Rightarrow>
   ('v, 'z, 'op, 'h, 'k, 'r) config \<Rightarrow> ('v, 'z, 'op, 'h, 'k, 'r) config \<Rightarrow> bool"
  for P :: "'v os \<Rightarrow> bool" and M :: "('v, 'z, 'op, 'h, 'k, 'r) monitor"
    and s0 :: "('v, 'z, 'op, 'h, 'k, 'r) config" where
  reach_refl: "reach P M s0 s0"
| reach_step: "reach P M s0 s \<Longrightarrow> step P M s t \<Longrightarrow> reach P M s0 t"

text \<open>
  One agent alone: an operation run to its end, where the n-th entry of \<open>env\<close> is what the
  other threads make of the state while this one does not hold the mutex for the n-th
  time. \<open>Some (None, w)\<close>: the operation has not returned when \<open>env\<close> is used up.
\<close>

fun finish ::
  "('v os \<Rightarrow> 'k \<Rightarrow> 'w \<Rightarrow> (('r, 'k) outcome \<times> 'w) option) \<Rightarrow> 'v os \<Rightarrow> ('w \<Rightarrow> 'w) list \<Rightarrow>
   ('r, 'k) outcome \<times> 'w \<Rightarrow> ('r option \<times> 'w) option" where
  "finish f os env (Return r, w) = Some (Some r, w)"
| "finish f os [] (out, w) = Some (None, w)"
| "finish f os (e # env) (Wait cv k, w) = Option.bind (f os k (e w)) (finish f os env)"
| "finish f os (e # env) (Again k, w) = Option.bind (f os k (e w)) (finish f os env)"

text \<open>
  Handles that are shared without a lock are counted in 32 bits without a check; facts about
  them are stated for runs with fewer than \<open>2 ^ 32 - 1\<close> completed operations.
\<close>

definition short_run :: "'a list \<Rightarrow> bool" where
  "short_run ps \<longleftrightarrow> length ps + 1 < 2 ^ 32"

section \<open>A scheduler\<close>

text \<open>
  An executable schedule of the same steps, with the agents in a list: \<open>Call op i\<close> lets the
  i-th agent start an operation, \<open>Resume i\<close> lets it go on, \<open>Rouse i\<close> wakes it without a reason.
  A signal wakes the first sleeper of the list.
\<close>

datatype 'op choice = Call 'op nat | Resume nat | Rouse nat

fun rouse_first :: "cond \<Rightarrow> ('h \<times> 'k mode) list \<Rightarrow> ('h \<times> 'k mode) list" where
  "rouse_first cv [] = []"
| "rouse_first cv (x # xs) = (if asleep_on cv x then rouse cv x # xs else x # rouse_first cv xs)"

definition wake_one :: "addr \<Rightarrow> 'v call \<times> int \<Rightarrow> ('h \<times> 'k mode) list \<Rightarrow> ('h \<times> 'k mode) list" where
  "wake_one a x A = (case x of
     (CondSignal b cv, st) \<Rightarrow> if b = a \<and> st = 0 then rouse_first cv A else A
   | (CondBroadcast b cv, st) \<Rightarrow> if b = a \<and> st = 0 then map (rouse cv) A else A
   | _ \<Rightarrow> A)"

fun wake_list :: "addr \<Rightarrow> 'v history \<Rightarrow> ('h \<times> 'k mode) list \<Rightarrow> ('h \<times> 'k mode) list" where
  "wake_list a [] A = A"
| "wake_list a (x # ks) A = wake_list a ks (wake_one a x A)"

definition settle_list ::
  "('v, 'z, 'op, 'h, 'k, 'r) monitor \<Rightarrow> 'op \<Rightarrow> 'h \<Rightarrow> ('r, 'k) outcome \<Rightarrow> ('h \<times> 'k mode) list" where
  "settle_list M op h out = (case out of
     Return r \<Rightarrow> (if drops M op then [] else [(h, Ready)]) @
       (case born M r of None \<Rightarrow> [] | Some h' \<Rightarrow> [(h', Ready)])
   | Wait cv k \<Rightarrow> [(h, Asleep cv k)]
   | Again k \<Rightarrow> [(h, Runnable k)])"

definition others :: "nat \<Rightarrow> 'a list \<Rightarrow> 'a list" where
  "others i xs = take i xs @ drop (Suc i) xs"

definition exec_step ::
  "('v, 'z, 'op, 'h, 'k, 'r) monitor \<Rightarrow> 'v os \<Rightarrow> 'op choice \<Rightarrow>
   ('v, 'z) base_scheme \<times> ('h \<times> 'k mode) list \<times> ('op \<times> 'r) list \<Rightarrow>
   (('v, 'z) base_scheme \<times> ('h \<times> 'k mode) list \<times> ('op \<times> 'r) list) option" where
  "exec_step M os x = (\<lambda>(w, A, ps). case x of
     Call op i \<Rightarrow> (if i < length A \<and> snd (A ! i) = Ready \<and> may M op (fst (A ! i)) then
         map_option (\<lambda>(out, w'). (w', wake_list (site M) (new_calls w w') (others i A) @
             settle_list M op (fst (A ! i)) out, record_past op out ps))
           (enter M os op (fst (A ! i)) w)
       else None)
   | Resume i \<Rightarrow> (if i < length A then
         (case A ! i of (h, Runnable k) \<Rightarrow>
            map_option (\<lambda>(out, w'). (w', wake_list (site M) (new_calls w w') (others i A) @
                settle_list M (pending M k) h out, record_past (pending M k) out ps))
              (resume M os k h w)
          | _ \<Rightarrow> None)
       else None)
   | Rouse i \<Rightarrow> (if i < length A then
         (case A ! i of (h, Asleep cv k) \<Rightarrow> Some (w, (h, Runnable k) # others i A, ps) | _ \<Rightarrow> None)
       else None))"

fun exec ::
  "('v, 'z, 'op, 'h, 'k, 'r) monitor \<Rightarrow> 'v os \<Rightarrow> 'op choice list \<Rightarrow>
   ('v, 'z) base_scheme \<times> ('h \<times> 'k mode) list \<times> ('op \<times> 'r) list \<Rightarrow>
   (('v, 'z) base_scheme \<times> ('h \<times> 'k mode) list \<times> ('op \<times> 'r) list) option" where
  "exec M os [] s = Some s"
| "exec M os (x # xs) s = Option.bind (exec_step M os x s) (exec M os xs)"

fun config_of ::
  "('v, 'z) base_scheme \<times> ('h \<times> 'k mode) list \<times> ('op \<times> 'r) list \<Rightarrow> ('v, 'z, 'op, 'h, 'k, 'r) config" where
  "config_of (w, A, ps) = \<lparr>wrld = w, agents = mset A, past = ps\<rparr>"

section \<open>Facts about wake-ups\<close>

lemma map_outcome_eq [simp]:
  "map_outcome f g out = Return r \<longleftrightarrow> (\<exists>x. out = Return x \<and> r = f x)"
  "map_outcome f g out = Wait cv k \<longleftrightarrow> (\<exists>x. out = Wait cv x \<and> k = g x)"
  "map_outcome f g out = Again k \<longleftrightarrow> (\<exists>x. out = Again x \<and> k = g x)"
  by (cases out; auto)+

lemma returned_map [simp]: "returned (map_outcome f g out) = map_option f (returned out)"
  by (cases out) auto

lemma short_run_snoc [dest]: "short_run (ps @ [x]) \<Longrightarrow> short_run ps"
  by (simp add: short_run_def)

lemma short_run_record: "\<not> short_run ps \<Longrightarrow> \<not> short_run (record_past op out ps)"
  by (cases out) (auto simp: short_run_def record_past_def)

lemma short_run_refs: "short_run ps \<Longrightarrow> n \<le> length ps + 1 \<Longrightarrow> of_nat n = (0 :: 32 word) \<longleftrightarrow> n = 0"
  using refs_zero_iff [of n] by (simp add: short_run_def)

lemma rouse_simps [simp]:
  "fst (rouse cv x) = fst x"
  "rouse cv (h, Ready) = (h, Ready)"
  "rouse cv (h, Runnable k) = (h, Runnable k)"
  "rouse cv (h, Asleep cv' k) = (h, if cv' = cv then Runnable k else Asleep cv' k)"
  by (auto simp: rouse_def split: prod.splits)

lemma tag_rouse [simp]: "tag (rouse cv x) = tag x"
  by (cases x; cases "snd x") auto

lemma fst_tag [simp]: "fst (tag x) = fst x"
  by (cases x; cases "snd x") auto

lemma fst_tags [simp]: "image_mset fst (image_mset tag A) = image_mset fst A"
  by (simp add: image_mset.compositionality comp_def)

lemma wakes_tags: "wakes a ks A B \<Longrightarrow> image_mset tag B = image_mset tag A"
proof (induction rule: wakes.induct)
  case (wakes_all a xs cv A B)
  then show ?case by (simp add: image_mset.compositionality comp_def)
qed auto

text \<open>A predicate on what the waiting agents still have to do.\<close>

definition all_pending :: "('h \<Rightarrow> 'k \<Rightarrow> bool) \<Rightarrow> ('h \<times> 'k mode) multiset \<Rightarrow> bool" where
  "all_pending Q A \<longleftrightarrow>
     (\<forall>x \<in># A. case snd x of Ready \<Rightarrow> True | Asleep cv k \<Rightarrow> Q (fst x) k | Runnable k \<Rightarrow> Q (fst x) k)"

lemma all_pending_simps [simp]:
  "all_pending Q {#}"
  "all_pending Q (add_mset (h, Ready) A) \<longleftrightarrow> all_pending Q A"
  "all_pending Q (add_mset (h, Asleep cv k) A) \<longleftrightarrow> Q h k \<and> all_pending Q A"
  "all_pending Q (add_mset (h, Runnable k) A) \<longleftrightarrow> Q h k \<and> all_pending Q A"
  "all_pending Q (A + B) \<longleftrightarrow> all_pending Q A \<and> all_pending Q B"
  by (auto simp: all_pending_def)

lemma mode_induct [case_names empty Ready Asleep Runnable]:
  assumes "Q {#}" "\<And>h A. Q A \<Longrightarrow> Q (add_mset (h, Ready) A)"
    "\<And>h cv k A. Q A \<Longrightarrow> Q (add_mset (h, Asleep cv k) A)"
    "\<And>h k A. Q A \<Longrightarrow> Q (add_mset (h, Runnable k) A)"
  shows "Q (A :: ('h \<times> 'k mode) multiset)"
proof (induction A)
  case (add x A)
  obtain h m where "x = (h, m)" by (cases x)
  with add assms(2-4) show ?case by (cases m) auto
qed (rule assms(1))

section \<open>Every schedule is an interleaving\<close>

lemma mset_others: "i < length xs \<Longrightarrow> mset xs = add_mset (xs ! i) (mset (others i xs))"
  by (metis others_def append_take_drop_id Cons_nth_drop_Suc mset.simps(2) mset_append union_mset_add_mset_right)

lemma rouse_first_none: "filter_mset (asleep_on cv) (mset A) = {#} \<Longrightarrow> rouse_first cv A = A"
  by (induction A) (auto split: if_splits)

lemma rouse_first_some:
  "filter_mset (asleep_on cv) (mset A) \<noteq> {#} \<Longrightarrow>
   \<exists>h k B. mset A = add_mset (h, Asleep cv k) B \<and> mset (rouse_first cv A) = add_mset (h, Runnable k) B"
proof (induction A)
  case (Cons x xs)
  show ?case
  proof (cases "asleep_on cv x")
    case True
    then show ?thesis by (cases x) (auto simp: asleep_on_def split: mode.splits)
  next
    case False
    then obtain h k B where "mset xs = add_mset (h, Asleep cv k) B" "mset (rouse_first cv xs) = add_mset (h, Runnable k) B"
      using Cons by auto
    with False show ?thesis by (intro exI [of _ h] exI [of _ k] exI [of _ "add_mset x B"]) simp
  qed
qed simp

lemma wakes_wake_one:
  assumes "wakes a ks (mset (wake_one a x A)) B"
  shows "wakes a (x # ks) (mset A) B"
proof (cases "wake_call a x")
  case False
  then have "wake_one a x A = A" by (cases x; cases "fst x") (auto simp: wake_one_def wake_call_def)
  with assms False show ?thesis by (simp add: wakes_other)
next
  case True
  then consider cv where "x = (CondSignal a cv, 0)" | cv where "x = (CondBroadcast a cv, 0)"
    by (auto simp: wake_call_def split: prod.splits call.splits)
  then show ?thesis
  proof cases
    case (1 cv)
    then have w: "wakes a ks (mset (rouse_first cv A)) B" using assms by (simp add: wake_one_def)
    show ?thesis
    proof (cases "filter_mset (asleep_on cv) (mset A) = {#}")
      case True
      with w 1 show ?thesis by (simp add: rouse_first_none wakes_none)
    next
      case False
      with w 1 show ?thesis using rouse_first_some [OF False] by (auto intro: wakes_one)
    qed
  next
    case (2 cv)
    then show ?thesis using assms by (auto simp: wake_one_def intro: wakes_all)
  qed
qed

lemma wakes_wake_list: "wakes a ks (mset A) (mset (wake_list a ks A))"
  by (induction ks arbitrary: A) (auto intro: wakes_nil wakes_wake_one)

lemma mset_settle_list: "mset (settle_list M op h out) = settle M op h out"
  by (cases out) (auto simp: settle_list_def settle_def split: option.splits)

lemma exec_step_step:
  assumes P: "P os" and run: "exec_step M os x (w, A, ps) = Some t"
  shows "step P M (config_of (w, A, ps)) (config_of t)"
proof (cases x)
  case (Call op i)
  then obtain h out w' where *: "i < length A" "A ! i = (h, Ready)" "may M op h" "enter M os op h w = Some (out, w')"
      "t = (w', wake_list (site M) (new_calls w w') (others i A) @ settle_list M op h out, record_past op out ps)"
    using run by (cases "A ! i") (auto simp: exec_step_def split: if_splits)
  show ?thesis
    using step_call [of P os, OF P *(3,4) wakes_wake_list, of "others i A" ps]
    by (simp add: * mset_others [OF *(1)] mset_settle_list)
next
  case (Resume i)
  then obtain h k out w' where *: "i < length A" "A ! i = (h, Runnable k)" "resume M os k h w = Some (out, w')"
      "t = (w', wake_list (site M) (new_calls w w') (others i A) @ settle_list M (pending M k) h out,
        record_past (pending M k) out ps)"
    using run by (cases "A ! i") (auto simp: exec_step_def split: if_splits mode.splits)
  show ?thesis
    using step_resume [of P os, OF P *(3) wakes_wake_list, of "others i A" ps]
    by (simp add: * mset_others [OF *(1)] mset_settle_list)
next
  case (Rouse i)
  then obtain h cv k where "i < length A" "A ! i = (h, Asleep cv k)" "t = (w, (h, Runnable k) # others i A, ps)"
    using run by (cases "A ! i") (auto simp: exec_step_def split: if_splits mode.splits)
  then show ?thesis by (simp add: mset_others step_spurious)
qed

lemma reach_trans: "reach P M t u \<Longrightarrow> reach P M s t \<Longrightarrow> reach P M s u"
  by (induction rule: reach.induct) (auto intro: reach_step)

lemma exec_reach:
  "exec M os xs s = Some t \<Longrightarrow> P os \<Longrightarrow> reach P M (config_of s) (config_of t)"
proof (induction xs arbitrary: s)
  case (Cons x xs)
  then obtain u where u: "exec_step M os x s = Some u" "exec M os xs u = Some t" by (auto simp: bind_eq_Some_conv)
  have "step P M (config_of s) (config_of u)"
    using exec_step_step [of P os M x "fst s" "fst (snd s)" "snd (snd s)" u] Cons.prems(2) u(1) by simp
  then show ?case using Cons.IH [OF u(2)] Cons.prems(2) by (blast intro: reach_trans reach_step reach_refl)
qed (auto intro: reach_refl)

section \<open>Invariants of all interleavings\<close>

text \<open>
  The contract of a component: an invariant of the state, the agents and the results so
  far, which every piece of code keeps. It may look at what a waiting agent still has to
  do, not at whether it is asleep. It then holds in every reachable configuration,
  whatever the schedule.
\<close>

locale monitor_keeps =
  fixes P :: "'v os \<Rightarrow> bool"
    and M :: "('v, 'z, 'op, 'h, 'k, 'r) monitor"
    and keeps :: "('v, 'z) base_scheme \<Rightarrow> ('h \<times> 'k option) multiset \<Rightarrow> ('op \<times> 'r) list \<Rightarrow> bool"
  assumes enter_keeps: "P os \<Longrightarrow> may M op h \<Longrightarrow> keeps w (add_mset (h, None) A) ps \<Longrightarrow>
        enter M os op h w = Some (out, w') \<Longrightarrow>
        keeps w' (A + image_mset tag (settle M op h out)) (record_past op out ps)"
    and resume_keeps: "P os \<Longrightarrow> keeps w (add_mset (h, Some k) A) ps \<Longrightarrow>
        resume M os k h w = Some (out, w') \<Longrightarrow>
        keeps w' (A + image_mset tag (settle M (pending M k) h out)) (record_past (pending M k) out ps)"
begin

definition good :: "('v, 'z, 'op, 'h, 'k, 'r) config \<Rightarrow> bool" where
  "good s \<longleftrightarrow> keeps (wrld s) (image_mset tag (agents s)) (past s)"

lemma step_good: "step P M s t \<Longrightarrow> good s \<Longrightarrow> good t"
proof (induction rule: step.induct)
  case (step_call os op h w out w' A A' ps)
  then show ?case
    using enter_keeps [OF step_call(1,2) _ step_call(3)] by (simp add: good_def wakes_tags [OF step_call(4)])
next
  case (step_resume os k h w out w' A A' ps)
  then show ?case
    using resume_keeps [OF step_resume(1) _ step_resume(2)] by (simp add: good_def wakes_tags [OF step_resume(3)])
qed (auto simp: good_def)

lemma reach_good: "reach P M s0 s \<Longrightarrow> good s0 \<Longrightarrow> good s"
  by (induction rule: reach.induct) (auto intro: step_good)

end

text \<open>
  A simpler contract, enough for many components: the invariant looks at the live handles
  only, and what a waiting agent has to do satisfies a predicate of its own.
\<close>

definition handles_only ::
  "(('v, 'z) base_scheme \<Rightarrow> 'h multiset \<Rightarrow> ('op \<times> 'r) list \<Rightarrow> bool) \<Rightarrow> ('h \<Rightarrow> 'k \<Rightarrow> bool) \<Rightarrow>
   ('v, 'z) base_scheme \<Rightarrow> ('h \<times> 'k option) multiset \<Rightarrow> ('op \<times> 'r) list \<Rightarrow> bool" where
  "handles_only hinv kok w A ps \<longleftrightarrow> hinv w (image_mset fst A) ps \<and>
     (\<forall>x \<in># A. case snd x of None \<Rightarrow> True | Some k \<Rightarrow> kok (fst x) k)"

lemma handles_onlyD:
  "handles_only hinv kok w (add_mset (h, None) A) ps \<Longrightarrow> hinv w (add_mset h (image_mset fst A)) ps"
  "handles_only hinv kok w (add_mset (h, Some k) A) ps \<Longrightarrow> hinv w (add_mset h (image_mset fst A)) ps"
  "handles_only hinv kok w (add_mset (h, Some k) A) ps \<Longrightarrow> kok h k"
  by (simp_all add: handles_only_def)

locale monitor_inv =
  fixes P :: "'v os \<Rightarrow> bool"
    and M :: "('v, 'z, 'op, 'h, 'k, 'r) monitor"
    and inv :: "('v, 'z) base_scheme \<Rightarrow> 'h multiset \<Rightarrow> ('op \<times> 'r) list \<Rightarrow> bool"
    and kok :: "'h \<Rightarrow> 'k \<Rightarrow> bool"
  assumes enter_inv: "P os \<Longrightarrow> may M op h \<Longrightarrow> inv w (add_mset h H) ps \<Longrightarrow>
        enter M os op h w = Some (out, w') \<Longrightarrow>
        inv w' (H + image_mset fst (settle M op h out)) (record_past op out ps)"
    and enter_kok: "P os \<Longrightarrow> may M op h \<Longrightarrow> inv w (add_mset h H) ps \<Longrightarrow>
        enter M os op h w = Some (out, w') \<Longrightarrow> all_pending kok (settle M op h out)"
    and resume_inv: "P os \<Longrightarrow> kok h k \<Longrightarrow> inv w (add_mset h H) ps \<Longrightarrow>
        resume M os k h w = Some (out, w') \<Longrightarrow>
        inv w' (H + image_mset fst (settle M (pending M k) h out)) (record_past (pending M k) out ps)"
    and resume_kok: "P os \<Longrightarrow> kok h k \<Longrightarrow> inv w (add_mset h H) ps \<Longrightarrow>
        resume M os k h w = Some (out, w') \<Longrightarrow> all_pending kok (settle M (pending M k) h out)"

lemma all_pending_tags:
  "all_pending Q A \<longleftrightarrow> (\<forall>x \<in># image_mset tag A. case snd x of None \<Rightarrow> True | Some k \<Rightarrow> Q (fst x) k)"
  by (induction A rule: mode_induct) auto

sublocale monitor_inv < monitor_keeps P M "handles_only inv kok"
proof (unfold_locales, goal_cases)
  case (1 os op h w A ps out w')
  then show ?case
    using enter_inv [OF 1(1,2) handles_onlyD(1) [OF 1(3)] 1(4)]
      enter_kok [OF 1(1,2) handles_onlyD(1) [OF 1(3)] 1(4)]
    by (simp add: handles_only_def all_pending_tags ball_Un)
next
  case (2 os w h k A ps out w')
  then show ?case
    using resume_inv [OF 2(1) handles_onlyD(3,2) [OF 2(2)] 2(3)]
      resume_kok [OF 2(1) handles_onlyD(3,2) [OF 2(2)] 2(3)]
    by (simp add: handles_only_def all_pending_tags ball_Un)
qed

context monitor_inv
begin

lemma good_iff: "good s \<longleftrightarrow> inv (wrld s) (image_mset fst (agents s)) (past s) \<and> all_pending kok (agents s)"
  by (simp add: good_def handles_only_def all_pending_tags)

lemma reach_inv: "reach P M s0 s \<Longrightarrow> good s0 \<Longrightarrow> inv (wrld s) (image_mset fst (agents s)) (past s)"
  using reach_good good_iff by blast

end

section \<open>No lost wake-up: condition variables that are signalled\<close>

definition signals :: "addr \<Rightarrow> cond \<Rightarrow> 'v history \<Rightarrow> nat" where
  "signals a cv ks = length (filter (\<lambda>x. x = (CondSignal a cv, 0)) ks)"

definition broadcasts :: "addr \<Rightarrow> cond \<Rightarrow> 'v history \<Rightarrow> bool" where
  "broadcasts a cv ks \<longleftrightarrow> (CondBroadcast a cv, 0) \<in> set ks"

definition sleepers :: "cond \<Rightarrow> ('h \<times> 'k mode) multiset \<Rightarrow> nat" where
  "sleepers cv A = size (filter_mset (asleep_on cv) A)"

definition roused :: "('k \<Rightarrow> bool) \<Rightarrow> ('h \<times> 'k mode) multiset \<Rightarrow> nat" where
  "roused K A = size (filter_mset (runnable_in K) A)"

definition sleepers_in :: "cond \<Rightarrow> ('k \<Rightarrow> bool) \<Rightarrow> ('h \<times> 'k mode) multiset \<Rightarrow> bool" where
  "sleepers_in cv K A \<longleftrightarrow> (\<forall>x \<in># A. case snd x of Asleep cv' k \<Rightarrow> cv' = cv \<longrightarrow> K k | _ \<Rightarrow> True)"

lemma sleepers_simps [simp]:
  "sleepers cv {#} = 0"
  "sleepers cv (add_mset (h, Ready) A) = sleepers cv A"
  "sleepers cv (add_mset (h, Runnable k) A) = sleepers cv A"
  "sleepers cv (add_mset (h, Asleep cv' k) A) = (if cv' = cv then 1 else 0) + sleepers cv A"
  "sleepers cv (A + B) = sleepers cv A + sleepers cv B"
  by (simp_all add: sleepers_def asleep_on_def)

lemma roused_simps [simp]:
  "roused K {#} = 0"
  "roused K (add_mset (h, Ready) A) = roused K A"
  "roused K (add_mset (h, Asleep cv k) A) = roused K A"
  "roused K (add_mset (h, Runnable k) A) = (if K k then 1 else 0) + roused K A"
  "roused K (A + B) = roused K A + roused K B"
  by (simp_all add: roused_def runnable_in_def)

lemma sleepers_in_simps [simp]:
  "sleepers_in cv K {#}"
  "sleepers_in cv K (add_mset (h, Ready) A) \<longleftrightarrow> sleepers_in cv K A"
  "sleepers_in cv K (add_mset (h, Runnable k) A) \<longleftrightarrow> sleepers_in cv K A"
  "sleepers_in cv K (add_mset (h, Asleep cv' k) A) \<longleftrightarrow> (cv' = cv \<longrightarrow> K k) \<and> sleepers_in cv K A"
  "sleepers_in cv K (A + B) \<longleftrightarrow> sleepers_in cv K A \<and> sleepers_in cv K B"
  by (auto simp: sleepers_in_def)

lemma new_calls_append [simp]: "new_calls w (w\<lparr>calls := calls w @ ks\<rparr>) = ks"
  by (simp add: new_calls_def)

lemma rouse_counts:
  "sleepers cv (image_mset (rouse cv') A) = (if cv' = cv then 0 else sleepers cv A)"
  "roused K A \<le> roused K (image_mset (rouse cv') A)"
  "sleepers_in cv K A \<Longrightarrow> sleepers_in cv K (image_mset (rouse cv') A)"
  by (induction A rule: mode_induct) auto

lemma wakes_sleepers_le: "wakes a ks A B \<Longrightarrow> sleepers cv B \<le> sleepers cv A"
  by (induction rule: wakes.induct) (auto simp: rouse_counts split: if_splits)

lemma wakes_sleepers_in: "wakes a ks A B \<Longrightarrow> sleepers_in cv K A \<Longrightarrow> sleepers_in cv K B"
  by (induction rule: wakes.induct) (auto simp: rouse_counts)

lemma signals_Cons:
  "signals a cv (x # ks) = (if x = (CondSignal a cv, 0) then 1 else 0) + signals a cv ks"
  by (simp add: signals_def)

text \<open>If somebody still sleeps after the calls, every signal woke somebody.\<close>

lemma wakes_roused:
  assumes "wakes a ks A B" "0 < sleepers cv B" "sleepers_in cv K A"
  shows "\<not> broadcasts a cv ks \<and> roused K A + signals a cv ks \<le> roused K B"
  using assms
proof (induction rule: wakes.induct)
  case (wakes_nil a A)
  then show ?case by (simp add: broadcasts_def signals_def)
next
  case (wakes_other a x xs A B)
  then show ?case by (auto simp: broadcasts_def signals_Cons wake_call_def)
next
  case (wakes_none cv' A a xs B)
  have "cv' = cv \<Longrightarrow> sleepers cv A = 0" using wakes_none(1) unfolding sleepers_def by simp
  then have "cv' \<noteq> cv"
    using wakes_none(4) wakes_sleepers_le [OF wakes_none(2), of cv] by auto
  with wakes_none show ?case by (auto simp: broadcasts_def signals_Cons)
next
  case (wakes_one a xs h k A B cv')
  then show ?case by (auto simp: broadcasts_def signals_Cons split: if_splits)
next
  case (wakes_all a xs cv' A B)
  have "cv' \<noteq> cv"
    using wakes_all wakes_sleepers_le [OF wakes_all(1), of cv] by (auto simp: rouse_counts)
  moreover have "sleepers_in cv K (image_mset (rouse cv') A)" using wakes_all by (simp add: rouse_counts)
  moreover have "roused K A \<le> roused K (image_mset (rouse cv') A)" by (rule rouse_counts)
  ultimately show ?case using wakes_all by (fastforce simp: broadcasts_def signals_Cons)
qed

text \<open>
  \<open>need w\<close> is the number of threads that could make progress if they were awake. The
  contract: a piece of code that raises it signals as often, unless it broadcasts; a
  thread only goes to sleep when it is 0; and an awake waiter that returns used one up.
  Then, while anybody sleeps, there are at least \<open>need w\<close> waiters awake.
\<close>

locale signalled = monitor_keeps P M keeps
  for P :: "'v os \<Rightarrow> bool" and M :: "('v, 'z, 'op, 'h, 'k, 'r) monitor"
    and keeps :: "('v, 'z) base_scheme \<Rightarrow> ('h \<times> 'k option) multiset \<Rightarrow> ('op \<times> 'r) list \<Rightarrow> bool" +
  fixes cv :: cond and need :: "('v, 'z) base_scheme \<Rightarrow> nat" and K :: "'k \<Rightarrow> bool"
  assumes enter_need: "P os \<Longrightarrow> may M op h \<Longrightarrow> keeps w (add_mset (h, None) A) ps \<Longrightarrow>
        enter M os op h w = Some (out, w') \<Longrightarrow>
        need w' \<le> need w + signals (site M) cv (new_calls w w') \<or> need w' = 0 \<or>
        broadcasts (site M) cv (new_calls w w')"
    and enter_sleep: "P os \<Longrightarrow> may M op h \<Longrightarrow> keeps w (add_mset (h, None) A) ps \<Longrightarrow>
        enter M os op h w = Some (Wait cv k', w') \<Longrightarrow> need w' = 0 \<and> K k'"
    and resume_need: "P os \<Longrightarrow> keeps w (add_mset (h, Some k) A) ps \<Longrightarrow>
        resume M os k h w = Some (out, w') \<Longrightarrow>
        need w' + (if K k then 1 else 0) \<le> need w + signals (site M) cv (new_calls w w') +
          (case out of Again k' \<Rightarrow> if K k' then 1 else 0 | _ \<Rightarrow> 0) \<or> need w' = 0 \<or>
        broadcasts (site M) cv (new_calls w w')"
    and resume_sleep: "P os \<Longrightarrow> keeps w (add_mset (h, Some k) A) ps \<Longrightarrow>
        resume M os k h w = Some (Wait cv k', w') \<Longrightarrow> need w' = 0 \<and> K k'"
begin

definition awake_enough :: "('v, 'z, 'op, 'h, 'k, 'r) config \<Rightarrow> bool" where
  "awake_enough s \<longleftrightarrow> sleepers_in cv K (agents s) \<and>
     (0 < sleepers cv (agents s) \<longrightarrow> need (wrld s) \<le> roused K (agents s))"

lemma settle_counts:
  "sleepers cv (settle M op h out) = (case out of Wait cv' k \<Rightarrow> if cv' = cv then 1 else 0 | _ \<Rightarrow> 0)"
  "roused K (settle M op h out) = (case out of Again k \<Rightarrow> if K k then 1 else 0 | _ \<Rightarrow> 0)"
  "sleepers_in cv K (settle M op h out) = (case out of Wait cv' k \<Rightarrow> cv' = cv \<longrightarrow> K k | _ \<Rightarrow> True)"
  by (auto simp: settle_def split: outcome.splits option.splits)

lemma step_awake: "step P M s t \<Longrightarrow> good s \<Longrightarrow> awake_enough s \<Longrightarrow> awake_enough t"
proof (induction rule: step.induct)
  case (step_call os op h w out w' A A' ps)
  have inv: "keeps w (add_mset (h, None) (image_mset tag A)) ps" using step_call(5) by (simp add: good_def)
  note n = enter_need [OF step_call(1,2) inv step_call(3)]
  have z: "out = Wait cv k' \<Longrightarrow> need w' = 0 \<and> K k'" for k'
    using enter_sleep [OF step_call(1,2) inv] step_call(3) by simp
  have "0 < sleepers cv A' \<Longrightarrow> need w \<le> roused K A"
    using step_call(6) wakes_sleepers_le [OF step_call(4), of cv] by (simp add: awake_enough_def)
  then show ?case
    using step_call(6) n z wakes_roused [OF step_call(4), of cv K] wakes_sleepers_in [OF step_call(4), of cv K]
    by (cases out) (auto simp: awake_enough_def settle_counts)
next
  case (step_resume os k h w out w' A A' ps)
  have inv: "keeps w (add_mset (h, Some k) (image_mset tag A)) ps" using step_resume(4) by (simp add: good_def)
  note n = resume_need [OF step_resume(1) inv step_resume(2)]
  have z: "out = Wait cv k' \<Longrightarrow> need w' = 0 \<and> K k'" for k'
    using resume_sleep [OF step_resume(1) inv] step_resume(2) by simp
  have "0 < sleepers cv A' \<Longrightarrow> need w \<le> roused K A + (if K k then 1 else 0)"
    using step_resume(5) wakes_sleepers_le [OF step_resume(3), of cv] by (simp add: awake_enough_def split: if_splits)
  then show ?case
    using step_resume(5) n z wakes_roused [OF step_resume(3), of cv K] wakes_sleepers_in [OF step_resume(3), of cv K]
    by (cases out) (auto simp: awake_enough_def settle_counts)
qed (auto simp: awake_enough_def)

lemma reach_awake:
  assumes "reach P M s0 s" "good s0" "awake_enough s0"
  shows "awake_enough s"
  using assms by (induction rule: reach.induct) (auto intro: step_awake reach_good)

end

section \<open>No lost wake-up: condition variables that are broadcast\<close>

text \<open>
  \<open>blocked w\<close> is the condition threads wait to become false. The contract: whoever makes it
  false broadcasts, and a thread only goes to sleep while it holds.
\<close>

locale broadcasting = monitor_keeps P M keeps
  for P :: "'v os \<Rightarrow> bool" and M :: "('v, 'z, 'op, 'h, 'k, 'r) monitor"
    and keeps :: "('v, 'z) base_scheme \<Rightarrow> ('h \<times> 'k option) multiset \<Rightarrow> ('op \<times> 'r) list \<Rightarrow> bool" +
  fixes cv :: cond and blocked :: "('v, 'z) base_scheme \<Rightarrow> bool"
  assumes enter_blocked: "P os \<Longrightarrow> may M op h \<Longrightarrow> keeps w (add_mset (h, None) A) ps \<Longrightarrow>
        enter M os op h w = Some (out, w') \<Longrightarrow> blocked w \<Longrightarrow>
        blocked w' \<or> broadcasts (site M) cv (new_calls w w')"
    and enter_sleep: "P os \<Longrightarrow> may M op h \<Longrightarrow> keeps w (add_mset (h, None) A) ps \<Longrightarrow>
        enter M os op h w = Some (Wait cv k', w') \<Longrightarrow> blocked w'"
    and resume_blocked: "P os \<Longrightarrow> keeps w (add_mset (h, Some k) A) ps \<Longrightarrow>
        resume M os k h w = Some (out, w') \<Longrightarrow> blocked w \<Longrightarrow>
        blocked w' \<or> broadcasts (site M) cv (new_calls w w')"
    and resume_sleep: "P os \<Longrightarrow> keeps w (add_mset (h, Some k) A) ps \<Longrightarrow>
        resume M os k h w = Some (Wait cv k', w') \<Longrightarrow> blocked w'"
begin

definition sleep_blocked :: "('v, 'z, 'op, 'h, 'k, 'r) config \<Rightarrow> bool" where
  "sleep_blocked s \<longleftrightarrow> (0 < sleepers cv (agents s) \<longrightarrow> blocked (wrld s))"

lemma settle_sleepers:
  "sleepers cv (settle M op h out) = (case out of Wait cv' k \<Rightarrow> if cv' = cv then 1 else 0 | _ \<Rightarrow> 0)"
  by (auto simp: settle_def split: outcome.splits option.splits)

lemma wakes_not_broadcast: "wakes a ks A B \<Longrightarrow> 0 < sleepers cv B \<Longrightarrow> \<not> broadcasts a cv ks"
  using wakes_roused [of a ks A B cv "\<lambda>_. True"] by (auto simp: sleepers_in_def split: mode.splits)

lemma step_sleep_blocked: "step P M s t \<Longrightarrow> good s \<Longrightarrow> sleep_blocked s \<Longrightarrow> sleep_blocked t"
proof (induction rule: step.induct)
  case (step_call os op h w out w' A A' ps)
  have inv: "keeps w (add_mset (h, None) (image_mset tag A)) ps" using step_call(5) by (simp add: good_def)
  note n = enter_blocked [OF step_call(1,2) inv step_call(3)]
  have z: "out = Wait cv k' \<Longrightarrow> blocked w'" for k'
    using enter_sleep [OF step_call(1,2) inv] step_call(3) by simp
  show ?case
    using step_call(6) n z wakes_sleepers_le [OF step_call(4), of cv] wakes_not_broadcast [OF step_call(4)]
    by (cases out) (auto simp: sleep_blocked_def settle_sleepers)
next
  case (step_resume os k h w out w' A A' ps)
  have inv: "keeps w (add_mset (h, Some k) (image_mset tag A)) ps" using step_resume(4) by (simp add: good_def)
  note n = resume_blocked [OF step_resume(1) inv step_resume(2)]
  have z: "out = Wait cv k' \<Longrightarrow> blocked w'" for k'
    using resume_sleep [OF step_resume(1) inv] step_resume(2) by simp
  show ?case
    using step_resume(5) n z wakes_sleepers_le [OF step_resume(3), of cv] wakes_not_broadcast [OF step_resume(3)]
    by (cases out) (auto simp: sleep_blocked_def settle_sleepers)
qed (auto simp: sleep_blocked_def)

lemma reach_sleep_blocked:
  assumes "reach P M s0 s" "good s0" "sleep_blocked s0"
  shows "sleep_blocked s"
  using assms by (induction rule: reach.induct) (auto intro: step_sleep_blocked reach_good)

end

end
