(* ===== verification/Sync_Channel.thy ===== *)
theory Sync_Channel
  imports Sync_Monitor
begin

text \<open>
  The generic bounded channel, \<^verbatim>\<open>src/src/unsafe/channel/native.c\<close>: a circular buffer of
  MoonBit objects behind one mutex and two condition variables, shared by any number of
  sender handles (role 1) and one receiver handle (role 2).
\<close>

section \<open>State\<close>

record 'v sync_channel_core_t =
  refs :: sync_arc_t
  slots :: "'v option list"
  capacity :: int
  head :: int
  tail :: int
  count :: int
  senders :: int
  receiver_alive :: int
  closed :: int

record sync_channel_handle_t =
  core :: "addr option"
  role :: int

text \<open>The heap of cores and the file's two fault-injection cells.\<close>

record 'v channel_world = "('v, 'v sync_channel_core_t) world" +
  next_init_error :: int
  next_operation_error :: int

section \<open>Lifetime\<close>

definition sync_channel_test_take_next_operation_error ::
  "'v channel_world \<Rightarrow> int \<times> 'v channel_world" where
  "sync_channel_test_take_next_operation_error w =
     (let (error, next) = sync_test_atomic_take (next_operation_error w)
      in (error, w\<lparr>next_operation_error := next\<rparr>))"

text \<open>The loop of \<open>sync_channel_core_release\<close> from \<open>index\<close> on, with \<open>n\<close> iterations left.\<close>

fun release_slots ::
  "'v option list \<Rightarrow> nat \<Rightarrow> int \<Rightarrow> 'v channel_world \<Rightarrow> 'v channel_world option" where
  "release_slots cs 0 index w = Some w"
| "release_slots cs (Suc n) index w = do {
     cell \<leftarrow> cell_get cs index;
     release_slots cs n (index + 1) (case cell of None \<Rightarrow> w | Some v \<Rightarrow> moonbit_decref v w)
   }"

definition sync_channel_core_release ::
  "'v os \<Rightarrow> addr \<Rightarrow> 'v channel_world \<Rightarrow> 'v channel_world option" where
  "sync_channel_core_release os a w = do {
     c \<leftarrow> mem w a;
     let r = sync_arc_dec (refs c);
     let w = store a (c\<lparr>refs := r\<rparr>) w;
     if r \<noteq> 0 then Some w else do {
       w \<leftarrow> release_slots (slots c) (nat (capacity c)) 0 w;
       let w = c_free SlotsBlock w;
       w \<leftarrow> abort_if_failed (sync_os_cond_destroy os a Writable w);
       w \<leftarrow> abort_if_failed (sync_os_cond_destroy os a Readable w);
       w \<leftarrow> abort_if_failed (sync_os_mutex_destroy os a w);
       Some (free_core a w)
     }
   }"

text \<open>Both wake-ups of a close that cannot report a failure.\<close>

definition wake_both_or_abort :: "'v os \<Rightarrow> addr \<Rightarrow> 'v channel_world \<Rightarrow> 'v channel_world option" where
  "wake_both_or_abort os a w = do {
     w \<leftarrow> abort_if_failed (sync_os_cond_broadcast os a Readable w);
     abort_if_failed (sync_os_cond_broadcast os a Writable w)
   }"

definition sync_channel_finalize ::
  "'v os \<Rightarrow> sync_channel_handle_t \<Rightarrow> 'v channel_world \<Rightarrow> 'v channel_world option" where
  "sync_channel_finalize os handle w = (case core handle of None \<Rightarrow> Some w | Some a \<Rightarrow> do {
     w \<leftarrow> abort_if_failed (sync_os_mutex_lock os a w);
     c \<leftarrow> mem w a;
     w \<leftarrow>
       (if role handle = 1 then do {
          n \<leftarrow> i32_sub (senders c) 1;
          if n = 0 then wake_both_or_abort os a (store a (c\<lparr>senders := n, closed := 1\<rparr>) w)
          else Some (store a (c\<lparr>senders := n\<rparr>) w)
        } else if role handle = 2 \<and> receiver_alive c \<noteq> 0 then
          wake_both_or_abort os a (store a (c\<lparr>receiver_alive := 0, closed := 1\<rparr>) w)
        else Some w);
     w \<leftarrow> abort_if_failed (sync_os_mutex_unlock os a w);
     sync_channel_core_release os a w
   })"

definition sync_channel_wrap :: "addr \<Rightarrow> int \<Rightarrow> sync_channel_handle_t" where
  "sync_channel_wrap a r = \<lparr>core = Some a, role = r\<rparr>"

definition sync_channel_new ::
  "'v os \<Rightarrow> int \<Rightarrow> 'v channel_world \<Rightarrow> ((sync_channel_handle_t option \<times> int) \<times> 'v channel_world) option" where
  "sync_channel_new os cap w = do {
     w \<leftarrow> sync_alloc os CoreBlock w;
     let a = fresh w;
     bytes \<leftarrow> sync_array_size_or_abort (size_max os) cap (pointer_size os);
     w \<leftarrow> sync_alloc os SlotsBlock w;
     let w = store a \<lparr>refs = 1, slots = replicate (nat cap) None, capacity = cap, head = 0, tail = 0,
       count = 0, senders = 1, receiver_alive = 0, closed = 0\<rparr> (w\<lparr>fresh := Suc a\<rparr>);
     let (status, next) = sync_test_atomic_take (next_init_error w);
     let w = w\<lparr>next_init_error := next\<rparr>;
     let (status, w) = (if status = 0 then sync_os_mutex_init os a w else (status, w));
     if status \<noteq> 0 then Some ((None, status), free_core a (c_free SlotsBlock w)) else do {
     let (status, w) = sync_os_cond_init os a Readable w;
     if status \<noteq> 0 then do {
       w \<leftarrow> abort_if_failed (sync_os_mutex_destroy os a w);
       Some ((None, status), free_core a (c_free SlotsBlock w))
     } else do {
     let (status, w) = sync_os_cond_init os a Writable w;
     if status \<noteq> 0 then do {
       w \<leftarrow> abort_if_failed (sync_os_cond_destroy os a Readable w);
       w \<leftarrow> abort_if_failed (sync_os_mutex_destroy os a w);
       Some ((None, status), free_core a (c_free SlotsBlock w))
     } else Some ((Some (sync_channel_wrap a 1), status), w)
     }}
   }"

definition sync_channel_receiver ::
  "'v os \<Rightarrow> sync_channel_handle_t \<Rightarrow> 'v channel_world \<Rightarrow>
   ((sync_channel_handle_t option \<times> int) \<times> 'v channel_world) option" where
  "sync_channel_receiver os value w = do {
     a \<leftarrow> core value;
     let (status, w) = sync_os_mutex_lock os a w;
     if status \<noteq> 0 then Some ((None, status), w) else do {
       c \<leftarrow> mem w a;
       let w = store a (c\<lparr>receiver_alive := 1, refs := sync_arc_inc (refs c)\<rparr>) w;
       let (st, w) = sync_os_mutex_unlock os a w;
       Some ((Some (sync_channel_wrap a 2), record_error status st), w)
     }
   }"

definition sync_sender_share ::
  "'v os \<Rightarrow> sync_channel_handle_t \<Rightarrow> 'v channel_world \<Rightarrow>
   ((sync_channel_handle_t option \<times> int) \<times> 'v channel_world) option" where
  "sync_sender_share os value w = do {
     a \<leftarrow> core value;
     let (status, w) = sync_os_mutex_lock os a w;
     if status \<noteq> 0 then Some ((None, status), w) else do {
       c \<leftarrow> mem w a;
       n \<leftarrow> i32_add (senders c) 1;
       let w = store a (c\<lparr>senders := n, refs := sync_arc_inc (refs c)\<rparr>) w;
       let (st, w) = sync_os_mutex_unlock os a w;
       Some ((Some (sync_channel_wrap a 1), record_error status st), w)
     }
   }"

section \<open>Sending\<close>

text \<open>
  The results of a send are the pointer it returns (the message, when the caller keeps it),
  \<open>*result\<close> and \<open>*error\<close>.
\<close>

type_synonym 'v send_result = "'v option \<times> int \<times> int"

text \<open>A send that gives the message back: unlock, with the status to report.\<close>

definition send_back ::
  "'v os \<Rightarrow> addr \<Rightarrow> 'v \<Rightarrow> int \<Rightarrow> int \<Rightarrow> 'v channel_world \<Rightarrow> 'v send_result \<times> 'v channel_world" where
  "send_back os a message result error w =
     (let (st, w) = sync_os_mutex_unlock os a w
      in ((Some message, result, record_error error st), w))"

text \<open>Storing the message at the tail and waking a receiver.\<close>

definition send_commit ::
  "'v os \<Rightarrow> addr \<Rightarrow> 'v \<Rightarrow> int \<Rightarrow> 'v channel_world \<Rightarrow> ('v send_result \<times> 'v channel_world) option" where
  "send_commit os a message error w = do {
     c \<leftarrow> mem w a;
     cs \<leftarrow> cell_set (slots c) (tail c) (Some message);
     t \<leftarrow> i32_add (tail c) 1;
     t \<leftarrow> i32_rem t (capacity c);
     n \<leftarrow> i32_add (count c) 1;
     let w = store a (c\<lparr>slots := cs, tail := t, count := n\<rparr>) w;
     let (st, w) = sync_os_cond_signal os a Readable w;
     let error = record_error error st;
     let (st, w) = sync_os_mutex_unlock os a w;
     let error = record_error error st;
     Some ((None, 0, error), w)
   }"

definition sync_sender_try_send ::
  "'v os \<Rightarrow> sync_channel_handle_t \<Rightarrow> 'v \<Rightarrow> 'v channel_world \<Rightarrow> ('v send_result \<times> 'v channel_world) option" where
  "sync_sender_try_send os value message w = do {
     a \<leftarrow> core value;
     let (error, w) = sync_channel_test_take_next_operation_error w;
     if error \<noteq> 0 then Some ((Some message, 2, error), w) else do {
     let (error, w) = sync_os_mutex_lock os a w;
     if error \<noteq> 0 then Some ((Some message, 2, error), w) else do {
     c \<leftarrow> mem w a;
     if closed c \<noteq> 0 \<or> receiver_alive c = 0 then Some (send_back os a message 2 error w)
     else if count c = capacity c then Some (send_back os a message 1 error w)
     else send_commit os a message error w
     }}
   }"

text \<open>
  What a blocked call still has to do: its message (for a send) and the value of \<open>*error\<close>.
\<close>

datatype 'v channel_k = SendK 'v int | RecvK int

text \<open>The test of the wait loop, and the code behind it.\<close>

definition sync_sender_send_loop ::
  "'v os \<Rightarrow> addr \<Rightarrow> 'v \<Rightarrow> int \<Rightarrow> 'v channel_world \<Rightarrow>
   (('v send_result, 'v channel_k) outcome \<times> 'v channel_world) option" where
  "sync_sender_send_loop os a message error w = do {
     c \<leftarrow> mem w a;
     if count c = capacity c \<and> closed c = 0 \<and> receiver_alive c \<noteq> 0 then
       Some (Wait Writable (SendK message error), cond_sleep a Writable w)
     else if closed c \<noteq> 0 \<or> receiver_alive c = 0 then
       Some (apfst Return (send_back os a message 2 error w))
     else map_option (apfst Return) (send_commit os a message error w)
   }"

text \<open>From the return of the wait.\<close>

definition sync_sender_send_wake ::
  "'v os \<Rightarrow> addr \<Rightarrow> 'v \<Rightarrow> int \<Rightarrow> 'v channel_world \<Rightarrow>
   (('v send_result, 'v channel_k) outcome \<times> 'v channel_world) option" where
  "sync_sender_send_wake os a message error w = do {
     let (wait_status, w) = sync_os_cond_wait os a Writable w;
     if wait_status \<noteq> 0 then
       Some (apfst Return (send_back os a message 2 (record_error error wait_status) w))
     else sync_sender_send_loop os a message error w
   }"

definition sync_sender_send_start ::
  "'v os \<Rightarrow> sync_channel_handle_t \<Rightarrow> 'v \<Rightarrow> 'v channel_world \<Rightarrow>
   (('v send_result, 'v channel_k) outcome \<times> 'v channel_world) option" where
  "sync_sender_send_start os value message w = do {
     a \<leftarrow> core value;
     let (error, w) = sync_os_mutex_lock os a w;
     if error \<noteq> 0 then Some (Return (Some message, 2, error), w)
     else sync_sender_send_loop os a message error w
   }"

text \<open>Closing: the flags, both broadcasts, the unlock.\<close>

definition close_channel ::
  "'v os \<Rightarrow> addr \<Rightarrow> ('v sync_channel_core_t \<Rightarrow> 'v sync_channel_core_t) \<Rightarrow> 'v channel_world \<Rightarrow>
   (int \<times> 'v channel_world) option" where
  "close_channel os a f w = do {
     let (error, w) = sync_os_mutex_lock os a w;
     if error \<noteq> 0 then Some (error, w) else do {
       c \<leftarrow> mem w a;
       let w = store a (f c) w;
       let (st, w) = sync_os_cond_broadcast os a Readable w;
       let error = record_error error st;
       let (st, w) = sync_os_cond_broadcast os a Writable w;
       let error = record_error error st;
       let (st, w) = sync_os_mutex_unlock os a w;
       Some (record_error error st, w)
     }
   }"

definition sync_sender_close ::
  "'v os \<Rightarrow> sync_channel_handle_t \<Rightarrow> 'v channel_world \<Rightarrow> (int \<times> 'v channel_world) option" where
  "sync_sender_close os value w = do {
     a \<leftarrow> core value;
     close_channel os a (\<lambda>c. c\<lparr>closed := 1\<rparr>) w
   }"

section \<open>Receiving\<close>

text \<open>The returned pointer, \<open>*status\<close> and \<open>*error\<close>.\<close>

type_synonym 'v recv_result = "'v option \<times> int \<times> int"

definition sync_channel_receive_loop ::
  "'v os \<Rightarrow> addr \<Rightarrow> int \<Rightarrow> int \<Rightarrow> 'v channel_world \<Rightarrow>
   (('v recv_result, 'v channel_k) outcome \<times> 'v channel_world) option" where
  "sync_channel_receive_loop os a block error w = do {
     c \<leftarrow> mem w a;
     if block \<noteq> 0 \<and> count c = 0 \<and> closed c = 0 then
       Some (Wait Readable (RecvK error), cond_sleep a Readable w)
     else if count c = 0 then do {
       let status = (if closed c \<noteq> 0 then 2 else 1);
       let (st, w) = sync_os_mutex_unlock os a w;
       Some (Return (None, status, record_error error st), w)
     } else do {
       message \<leftarrow> cell_get (slots c) (head c);
       cs \<leftarrow> cell_set (slots c) (head c) None;
       h \<leftarrow> i32_add (head c) 1;
       h \<leftarrow> i32_rem h (capacity c);
       n \<leftarrow> i32_sub (count c) 1;
       let w = store a (c\<lparr>slots := cs, head := h, count := n\<rparr>) w;
       let (st, w) = sync_os_cond_signal os a Writable w;
       let error = record_error error st;
       let (st, w) = sync_os_mutex_unlock os a w;
       let error = record_error error st;
       Some (Return (message, 0, error), w)
     }
   }"

definition sync_channel_receive_wake ::
  "'v os \<Rightarrow> addr \<Rightarrow> int \<Rightarrow> 'v channel_world \<Rightarrow>
   (('v recv_result, 'v channel_k) outcome \<times> 'v channel_world) option" where
  "sync_channel_receive_wake os a error w = do {
     let (wait_status, w) = sync_os_cond_wait os a Readable w;
     if wait_status \<noteq> 0 then do {
       let error = record_error error wait_status;
       let (st, w) = sync_os_mutex_unlock os a w;
       Some (Return (None, 2, record_error error st), w)
     } else sync_channel_receive_loop os a 1 error w
   }"

definition sync_channel_receive_start ::
  "'v os \<Rightarrow> sync_channel_handle_t \<Rightarrow> int \<Rightarrow> 'v channel_world \<Rightarrow>
   (('v recv_result, 'v channel_k) outcome \<times> 'v channel_world) option" where
  "sync_channel_receive_start os value block w = do {
     a \<leftarrow> core value;
     let (error, w) = sync_os_mutex_lock os a w;
     if error \<noteq> 0 then Some (Return (None, 2, error), w)
     else sync_channel_receive_loop os a block error w
   }"

definition sync_receiver_close ::
  "'v os \<Rightarrow> sync_channel_handle_t \<Rightarrow> 'v channel_world \<Rightarrow> (int \<times> 'v channel_world) option" where
  "sync_receiver_close os value w = do {
     a \<leftarrow> core value;
     close_channel os a (\<lambda>c. c\<lparr>closed := 1, receiver_alive := 0\<rparr>) w
   }"

definition sync_receiver_len ::
  "'v os \<Rightarrow> sync_channel_handle_t \<Rightarrow> 'v channel_world \<Rightarrow> ((int \<times> int) \<times> 'v channel_world) option" where
  "sync_receiver_len os value w = do {
     a \<leftarrow> core value;
     let (error, w) = sync_os_mutex_lock os a w;
     if error \<noteq> 0 then Some ((0, error), w) else do {
       c \<leftarrow> mem w a;
       let (st, w) = sync_os_mutex_unlock os a w;
       Some ((count c, record_error error st), w)
     }
   }"

definition sync_receiver_capacity :: "sync_channel_handle_t \<Rightarrow> 'v channel_world \<Rightarrow> int option" where
  "sync_receiver_capacity value w = do { a \<leftarrow> core value; c \<leftarrow> mem w a; Some (capacity c) }"

definition sync_channel_test_fail_next_init :: "int \<Rightarrow> 'v channel_world \<Rightarrow> 'v channel_world" where
  "sync_channel_test_fail_next_init status w =
     w\<lparr>next_init_error := sync_test_atomic_store (next_init_error w) status\<rparr>"

definition sync_channel_test_fail_next_operation :: "int \<Rightarrow> 'v channel_world \<Rightarrow> 'v channel_world" where
  "sync_channel_test_fail_next_operation status w =
     w\<lparr>next_operation_error := sync_test_atomic_store (next_operation_error w) status\<rparr>"

section \<open>Whole calls\<close>

text \<open>
  The blocking operations as one function each: \<open>env\<close> holds what the other threads do to
  the state each time this one has given the mutex up (see \<open>finish\<close>).
\<close>

definition sync_sender_send ::
  "'v os \<Rightarrow> sync_channel_handle_t \<Rightarrow> 'v \<Rightarrow> ('v channel_world \<Rightarrow> 'v channel_world) list \<Rightarrow> 'v channel_world \<Rightarrow>
   ('v send_result option \<times> 'v channel_world) option" where
  "sync_sender_send os value message env w = do {
     a \<leftarrow> core value;
     x \<leftarrow> sync_sender_send_start os value message w;
     finish (\<lambda>os k. case k of SendK message error \<Rightarrow> sync_sender_send_wake os a message error
                            | RecvK error \<Rightarrow> (\<lambda>w. None)) os env x
   }"

definition sync_channel_receive ::
  "'v os \<Rightarrow> sync_channel_handle_t \<Rightarrow> int \<Rightarrow> ('v channel_world \<Rightarrow> 'v channel_world) list \<Rightarrow> 'v channel_world \<Rightarrow>
   ('v recv_result option \<times> 'v channel_world) option" where
  "sync_channel_receive os value block env w = do {
     a \<leftarrow> core value;
     x \<leftarrow> sync_channel_receive_start os value block w;
     finish (\<lambda>os k. case k of RecvK error \<Rightarrow> sync_channel_receive_wake os a error
                            | SendK message error \<Rightarrow> (\<lambda>w. None)) os env x
   }"

definition sync_receiver_try_recv ::
  "'v os \<Rightarrow> sync_channel_handle_t \<Rightarrow> 'v channel_world \<Rightarrow> ('v recv_result option \<times> 'v channel_world) option" where
  "sync_receiver_try_recv os value w = sync_channel_receive os value 0 [] w"

definition sync_receiver_recv ::
  "'v os \<Rightarrow> sync_channel_handle_t \<Rightarrow> ('v channel_world \<Rightarrow> 'v channel_world) list \<Rightarrow> 'v channel_world \<Rightarrow>
   ('v recv_result option \<times> 'v channel_world) option" where
  "sync_receiver_recv os value env w = sync_channel_receive os value 1 env w"

section \<open>The channel as a monitor\<close>

datatype 'v channel_op =
    Share | TrySend 'v | Send 'v | SenderClose | TryRecv | Recv | ReceiverClose | Len | Finalize

datatype 'v channel_ret =
    Handle "sync_channel_handle_t option" int
  | Sent "'v send_result"
  | Received "'v recv_result"
  | Status int
  | Number int int
  | Dropped

fun channel_may :: "'v channel_op \<Rightarrow> sync_channel_handle_t \<Rightarrow> bool" where
  "channel_may Finalize h = True"
| "channel_may TryRecv h = (role h = 2)"
| "channel_may Recv h = (role h = 2)"
| "channel_may ReceiverClose h = (role h = 2)"
| "channel_may Len h = (role h = 2)"
| "channel_may _ h = (role h = 1)"

fun channel_enter ::
  "'v os \<Rightarrow> 'v channel_op \<Rightarrow> sync_channel_handle_t \<Rightarrow> 'v channel_world \<Rightarrow>
   (('v channel_ret, 'v channel_k) outcome \<times> 'v channel_world) option" where
  "channel_enter os Share h w =
     map_option (\<lambda>((g, st), w). (Return (Handle g st), w)) (sync_sender_share os h w)"
| "channel_enter os (TrySend v) h w =
     map_option (\<lambda>(r, w). (Return (Sent r), w)) (sync_sender_try_send os h v w)"
| "channel_enter os (Send v) h w =
     map_option (\<lambda>(out, w). (map_outcome Sent id out, w)) (sync_sender_send_start os h v w)"
| "channel_enter os SenderClose h w =
     map_option (\<lambda>(st, w). (Return (Status st), w)) (sync_sender_close os h w)"
| "channel_enter os TryRecv h w =
     map_option (\<lambda>(out, w). (map_outcome Received id out, w)) (sync_channel_receive_start os h 0 w)"
| "channel_enter os Recv h w =
     map_option (\<lambda>(out, w). (map_outcome Received id out, w)) (sync_channel_receive_start os h 1 w)"
| "channel_enter os ReceiverClose h w =
     map_option (\<lambda>(st, w). (Return (Status st), w)) (sync_receiver_close os h w)"
| "channel_enter os Len h w =
     map_option (\<lambda>((n, st), w). (Return (Number n st), w)) (sync_receiver_len os h w)"
| "channel_enter os Finalize h w =
     map_option (\<lambda>w. (Return Dropped, w)) (sync_channel_finalize os h w)"

fun channel_resume ::
  "'v os \<Rightarrow> 'v channel_k \<Rightarrow> sync_channel_handle_t \<Rightarrow> 'v channel_world \<Rightarrow>
   (('v channel_ret, 'v channel_k) outcome \<times> 'v channel_world) option" where
  "channel_resume os (SendK v error) h w = do {
     a \<leftarrow> core h;
     map_option (\<lambda>(out, w). (map_outcome Sent id out, w)) (sync_sender_send_wake os a v error w) }"
| "channel_resume os (RecvK error) h w = do {
     a \<leftarrow> core h;
     map_option (\<lambda>(out, w). (map_outcome Received id out, w)) (sync_channel_receive_wake os a error w) }"

fun channel_pending :: "'v channel_k \<Rightarrow> 'v channel_op" where
  "channel_pending (SendK v error) = Send v"
| "channel_pending (RecvK error) = Recv"

fun channel_born :: "'v channel_ret \<Rightarrow> sync_channel_handle_t option" where
  "channel_born (Handle g st) = g"
| "channel_born _ = None"

definition channel_monitor where
  "channel_monitor a = \<lparr>site = a, may = channel_may, enter = channel_enter, resume = channel_resume,
     pending = channel_pending, drops = (\<lambda>op. op = Finalize), born = channel_born\<rparr>"

end
