(* ===== verification/Sync_Channel_Correct.thy ===== *)
theory Sync_Channel_Correct
  imports Sync_Channel
begin

text \<open>
  Correctness of the generic channel. The invariant \<open>channel_inv\<close> ties the core to the set
  of live handles and to the results returned so far; every operation keeps it, so it holds
  in every interleaving (interpretation \<open>channel\<close> of \<open>monitor_inv\<close>). With a working operating
  system the condition variables satisfy the contracts \<open>signalled\<close> (interpretations
  \<open>readable\<close>, \<open>writable\<close>) and \<open>broadcasting\<close> (\<open>close_readable\<close>, \<open>close_writable\<close>).
\<close>

section \<open>Specification\<close>

text \<open>The core after a message is stored at the tail, and after one is taken from the head.\<close>

definition pushed :: "'v \<Rightarrow> 'v sync_channel_core_t \<Rightarrow> 'v sync_channel_core_t" where
  "pushed v c = c\<lparr>slots := (slots c)[nat (tail c) := Some v],
     tail := (tail c + 1) mod capacity c, count := count c + 1\<rparr>"

definition popped :: "'v sync_channel_core_t \<Rightarrow> 'v sync_channel_core_t" where
  "popped c = c\<lparr>slots := (slots c)[nat (head c) := None],
     head := (head c + 1) mod capacity c, count := count c - 1\<rparr>"

definition channel_ok :: "'v sync_channel_core_t \<Rightarrow> bool" where
  "channel_ok c \<longleftrightarrow> ring_ok (slots c) (capacity c) (head c) (tail c) (count c)"

definition queue :: "'v sync_channel_core_t \<Rightarrow> 'v list" where
  "queue c = ring_list (slots c) (head c) (count c)"

text \<open>The messages that successful sends put in and that receives handed out.\<close>

fun sent_by :: "'v channel_op \<times> 'v channel_ret \<Rightarrow> 'v list" where
  "sent_by (TrySend v, Sent (m, result, error)) = (if result = 0 then [v] else [])"
| "sent_by (Send v, Sent (m, result, error)) = (if result = 0 then [v] else [])"
| "sent_by _ = []"

fun received_by :: "'v channel_op \<times> 'v channel_ret \<Rightarrow> 'v list" where
  "received_by (op, Received (Some v, status, error)) = [v]"
| "received_by _ = []"

definition sent_of :: "('v channel_op \<times> 'v channel_ret) list \<Rightarrow> 'v list" where
  "sent_of ps = concat (map sent_by ps)"

definition received_of :: "('v channel_op \<times> 'v channel_ret) list \<Rightarrow> 'v list" where
  "received_of ps = concat (map received_by ps)"

definition senders_in :: "sync_channel_handle_t multiset \<Rightarrow> nat" where
  "senders_in H = size (filter_mset (\<lambda>h. role h = 1) H)"

definition receivers_in :: "sync_channel_handle_t multiset \<Rightarrow> nat" where
  "receivers_in H = size (filter_mset (\<lambda>h. role h = 2) H)"

text \<open>
  The invariant. \<open>H\<close> is the multiset of live handles, \<open>ps\<close> the results so far, \<open>D\<close> and \<open>B\<close> the
  reference-count decrements and the resource balance before the channel was made.
\<close>

definition core_inv ::
  "int \<Rightarrow> 'v sync_channel_core_t \<Rightarrow> sync_channel_handle_t multiset \<Rightarrow> bool" where
  "core_inv cap c H \<longleftrightarrow> channel_ok c \<and> capacity c = cap \<and> (\<forall>h \<in># H. role h = 1 \<or> role h = 2) \<and>
     refs c = of_nat (size H) \<and> senders c = int (senders_in H) \<and> i32 (senders c) \<and>
     receivers_in H \<le> 1 \<and>
     (closed c = 0 \<longrightarrow> 0 < senders_in H) \<and> (receiver_alive c \<noteq> 0 \<longrightarrow> receivers_in H = 1)"

definition channel_resources :: "addr \<Rightarrow> resource list" where
  "channel_resources a = [MutexRes a, CondRes a Readable, CondRes a Writable, BlockRes CoreBlock, BlockRes SlotsBlock]"

definition channel_inv ::
  "int \<Rightarrow> addr \<Rightarrow> 'v list \<Rightarrow> (resource \<Rightarrow> int) \<Rightarrow> 'v channel_world \<Rightarrow> sync_channel_handle_t multiset \<Rightarrow>
   ('v channel_op \<times> 'v channel_ret) list \<Rightarrow> bool" where
  "channel_inv cap a D B w H ps \<longleftrightarrow>
     mutex_state a w = Some False \<and> (\<forall>h \<in># H. core h = Some a) \<and>
     (if H = {#} then mem w a = None \<and>
        (\<forall>r. balance r (calls w) = B r) \<and>
        (\<exists>L R. sent_of ps = received_of ps @ L \<and> decrefs (calls w) = D @ R \<and> mset R = mset L)
      else \<exists>c. mem w a = Some c \<and> core_inv cap c H \<and>
        sent_of ps = received_of ps @ queue c \<and> decrefs (calls w) = D \<and>
        (\<forall>r. balance r (calls w) = B r + owning (channel_resources a) r))"

text \<open>The same facts inside a critical section: the mutex is held and the core is \<open>c\<close>.\<close>

definition channel_locked ::
  "int \<Rightarrow> addr \<Rightarrow> 'v list \<Rightarrow> (resource \<Rightarrow> int) \<Rightarrow> 'v channel_world \<Rightarrow> sync_channel_handle_t multiset \<Rightarrow>
   ('v channel_op \<times> 'v channel_ret) list \<Rightarrow> 'v sync_channel_core_t \<Rightarrow> bool" where
  "channel_locked cap a D B w H ps c \<longleftrightarrow>
     mutex_state a w = Some True \<and> H \<noteq> {#} \<and> (\<forall>h \<in># H. core h = Some a) \<and> mem w a = Some c \<and> core_inv cap c H \<and>
     sent_of ps = received_of ps @ queue c \<and> decrefs (calls w) = D \<and>
     (\<forall>r. balance r (calls w) = B r + owning (channel_resources a) r)"

text \<open>What a finalizer does to the core before it gives its reference back.\<close>

definition closes :: "sync_channel_handle_t \<Rightarrow> 'v sync_channel_core_t \<Rightarrow> bool" where
  "closes h c \<longleftrightarrow> (if role h = 1 then senders c = 1 else role h = 2 \<and> receiver_alive c \<noteq> 0)"

definition dropped :: "sync_channel_handle_t \<Rightarrow> 'v sync_channel_core_t \<Rightarrow> 'v sync_channel_core_t" where
  "dropped h c =
     (if role h = 1 then c\<lparr>senders := senders c - 1, closed := if senders c = 1 then 1 else closed c\<rparr>
      else if closes h c then c\<lparr>receiver_alive := 0, closed := 1\<rparr> else c)"

definition drop_calls :: "addr \<Rightarrow> sync_channel_handle_t \<Rightarrow> 'v sync_channel_core_t \<Rightarrow> 'v history" where
  "drop_calls a h c = (MutexLock a, 0) #
     (if closes h c then [(CondBroadcast a Readable, 0), (CondBroadcast a Writable, 0)] else []) @
     [(MutexUnlock a, 0)]"

fun is_send :: "'v channel_k \<Rightarrow> bool" where
  "is_send (SendK v e) = True" | "is_send (RecvK e) = False"

fun pending_error :: "'v channel_k \<Rightarrow> int" where
  "pending_error (SendK v e) = e" | "pending_error (RecvK e) = e"

definition channel_kok :: "sync_channel_handle_t \<Rightarrow> 'v channel_k \<Rightarrow> bool" where
  "channel_kok h k \<longleftrightarrow> role h = (if is_send k then 1 else 2) \<and> pending_error k = 0"

text \<open>
  How many receivers could return, and how many senders: the queued messages of an open
  channel, and its free cells.
\<close>

definition ready_of :: "'v sync_channel_core_t \<Rightarrow> nat" where
  "ready_of c = (if closed c \<noteq> 0 then 0 else nat (count c))"

definition free_of :: "'v sync_channel_core_t \<Rightarrow> nat" where
  "free_of c = (if closed c \<noteq> 0 \<or> receiver_alive c = 0 then 0 else nat (capacity c - count c))"

definition channel_ready :: "addr \<Rightarrow> 'v channel_world \<Rightarrow> nat" where
  "channel_ready a w = (case mem w a of None \<Rightarrow> 0 | Some c \<Rightarrow> ready_of c)"

definition channel_free :: "addr \<Rightarrow> 'v channel_world \<Rightarrow> nat" where
  "channel_free a w = (case mem w a of None \<Rightarrow> 0 | Some c \<Rightarrow> free_of c)"

text \<open>What one piece of code does to these numbers, and when it may go to sleep.\<close>

definition channel_open :: "addr \<Rightarrow> 'v channel_world \<Rightarrow> bool" where
  "channel_open a w = (case mem w a of None \<Rightarrow> False | Some c \<Rightarrow> closed c = 0)"

definition channel_accepting :: "addr \<Rightarrow> 'v channel_world \<Rightarrow> bool" where
  "channel_accepting a w = (case mem w a of None \<Rightarrow> False | Some c \<Rightarrow> closed c = 0 \<and> receiver_alive c \<noteq> 0)"

definition channel_effect ::
  "addr \<Rightarrow> 'v channel_world \<Rightarrow> ('r, 'v channel_k) outcome \<Rightarrow> 'v channel_world \<Rightarrow> bool" where
  "channel_effect a w out w' \<longleftrightarrow>
     (channel_ready a w' \<le> channel_ready a w + signals a Readable (new_calls w w') \<or> channel_ready a w' = 0) \<and>
     (channel_free a w' \<le> channel_free a w + signals a Writable (new_calls w w') \<or> channel_free a w' = 0) \<and>
     (channel_open a w \<longrightarrow> channel_open a w' \<or> broadcasts a Readable (new_calls w w')) \<and>
     (channel_accepting a w \<longrightarrow> channel_accepting a w' \<or> broadcasts a Writable (new_calls w w')) \<and>
     (\<forall>k. out = Wait Readable k \<longrightarrow> channel_ready a w' = 0 \<and> channel_open a w' \<and> \<not> is_send k) \<and>
     (\<forall>k. out = Wait Writable k \<longrightarrow> channel_free a w' = 0 \<and> channel_accepting a w' \<and> is_send k)"

text \<open>A new channel with its receiver, as the MoonBit constructor makes them.\<close>

definition channel_boot ::
  "'v os \<Rightarrow> int \<Rightarrow> 'v channel_world \<Rightarrow>
   ('v, _, 'v channel_op, sync_channel_handle_t, 'v channel_k, 'v channel_ret) config option" where
  "channel_boot os cap w = do {
     ((s, status), w) \<leftarrow> sync_channel_new os cap w;
     s \<leftarrow> s;
     ((r, status), w) \<leftarrow> sync_channel_receiver os s w;
     r \<leftarrow> r;
     Some \<lparr>wrld = w, agents = {#(s, Ready), (r, Ready)#}, past = []\<rparr>
   }"

subsection \<open>The abstract channel\<close>

text \<open>
  A bounded queue with two flags and the number of producers. \<open>spec_call\<close> gives the result of
  an operation called on the handle \<open>h\<close> (\<open>None\<close>: it blocks) and the new queue; \<open>e\<close> is the error
  that the test hook has injected, which only \<open>try_send\<close> looks at. A handle is a pointer with
  a role, so the handle that \<open>share\<close> makes is equal to its own.
\<close>

record 'v bounded_queue =
  items :: "'v list"
  bound :: nat
  is_open :: bool
  listening :: bool
  producers :: nat

definition abs_channel :: "'v sync_channel_core_t \<Rightarrow> 'v bounded_queue" where
  "abs_channel c = \<lparr>items = queue c, bound = nat (capacity c), is_open = (closed c = 0),
     listening = (receiver_alive c \<noteq> 0), producers = nat (senders c)\<rparr>"

definition spec_send :: "'v \<Rightarrow> 'v channel_ret option \<Rightarrow> 'v bounded_queue \<Rightarrow> 'v channel_ret option \<times> 'v bounded_queue" where
  "spec_send v full q =
     (if \<not> is_open q \<or> \<not> listening q then (Some (Sent (Some v, 2, 0)), q)
      else if length (items q) = bound q then (full, q)
      else (Some (Sent (None, 0, 0)), q\<lparr>items := items q @ [v]\<rparr>))"

definition spec_receive :: "'v channel_ret option \<Rightarrow> 'v bounded_queue \<Rightarrow> 'v channel_ret option \<times> 'v bounded_queue" where
  "spec_receive none q = (case items q of
      [] \<Rightarrow> (if is_open q then none else Some (Received (None, 2, 0)), q)
    | x # xs \<Rightarrow> (Some (Received (Some x, 0, 0)), q\<lparr>items := xs\<rparr>))"

definition spec_drop :: "sync_channel_handle_t \<Rightarrow> 'v bounded_queue \<Rightarrow> 'v bounded_queue" where
  "spec_drop h q =
     (if role h = 1 then q\<lparr>producers := producers q - 1, is_open := is_open q \<and> producers q \<noteq> 1\<rparr>
      else if listening q then q\<lparr>is_open := False, listening := False\<rparr> else q)"

fun spec_call ::
  "int \<Rightarrow> sync_channel_handle_t \<Rightarrow> 'v channel_op \<Rightarrow> 'v bounded_queue \<Rightarrow> 'v channel_ret option \<times> 'v bounded_queue" where
  "spec_call e h (TrySend v) q =
     (if e \<noteq> 0 then (Some (Sent (Some v, 2, e)), q) else spec_send v (Some (Sent (Some v, 1, 0))) q)"
| "spec_call e h (Send v) q = spec_send v None q"
| "spec_call e h TryRecv q = spec_receive (Some (Received (None, 1, 0))) q"
| "spec_call e h Recv q = spec_receive None q"
| "spec_call e h SenderClose q = (Some (Status 0), q\<lparr>is_open := False\<rparr>)"
| "spec_call e h ReceiverClose q = (Some (Status 0), q\<lparr>is_open := False, listening := False\<rparr>)"
| "spec_call e h Len q = (Some (Number (int (length (items q))) 0), q)"
| "spec_call e h Share q = (Some (Handle (Some h) 0), q\<lparr>producers := Suc (producers q)\<rparr>)"
| "spec_call e h Finalize q = (Some Dropped, spec_drop h q)"

text \<open>Concrete runs: a channel of capacity 1 on a system that never fails.\<close>

definition empty_world :: "nat channel_world" where
  "empty_world = \<lparr>calls = [], mem = Map.empty, fresh = 0, next_init_error = 0, next_operation_error = 0\<rparr>"

definition channel_demo ::
  "nat channel_op choice list \<Rightarrow>
   (nat channel_world \<times> (sync_channel_handle_t \<times> nat channel_k mode) list \<times>
    (nat channel_op \<times> nat channel_ret) list) option" where
  "channel_demo xs = do {
     s \<leftarrow> channel_boot quiet_os 1 empty_world;
     exec (channel_monitor 0) quiet_os xs
       (wrld s, [(sync_channel_wrap 0 1, Ready), (sync_channel_wrap 0 2, Ready)], []) }"

section \<open>Lemmas\<close>

lemma past_simps [simp]:
  "sent_of [] = []" "received_of [] = []"
  "sent_of (ps @ [x]) = sent_of ps @ sent_by x" "received_of (ps @ [x]) = received_of ps @ received_by x"
  by (simp_all add: sent_of_def received_of_def)

lemma handles_simps [simp]:
  "senders_in {#} = 0" "receivers_in {#} = 0"
  "senders_in (add_mset h H) = (if role h = 1 then 1 else 0) + senders_in H"
  "receivers_in (add_mset h H) = (if role h = 2 then 1 else 0) + receivers_in H"
  by (simp_all add: senders_in_def receivers_in_def)

subsection \<open>The buffer\<close>

lemma pushed_ok:
  assumes "channel_ok c" "count c \<noteq> capacity c"
  shows "channel_ok (pushed v c)" "queue (pushed v c) = queue c @ [v]"
  using assms ring_okD(7) [of "slots c" "capacity c" "head c" "tail c" "count c"]
    ring_push_ok [of "slots c" "capacity c" "head c" "tail c" "count c" v]
    ring_push_list [of "slots c" "capacity c" "head c" "tail c" "count c" v]
  by (auto simp: channel_ok_def queue_def pushed_def)

lemma popped_ok:
  assumes "channel_ok c" "count c \<noteq> 0"
  obtains v where "slots c ! nat (head c) = Some v" "channel_ok (popped c)" "queue c = v # queue (popped c)"
proof -
  let ?R = "ring_ok (slots c) (capacity c) (head c) (tail c) (count c)"
  have ok: ?R and pos: "0 < count c"
    using assms ring_okD(6) [of "slots c" "capacity c" "head c" "tail c" "count c"] by (auto simp: channel_ok_def)
  obtain v where "slots c ! nat (head c) = Some v"
      "ring_list (slots c) (head c) (count c) = v # ring_list (slots c) ((head c + 1) mod capacity c) (count c - 1)"
    using ring_pop_head [OF ok pos] by blast
  then show ?thesis
    using that ring_pop_ok [OF ok pos] ring_list_clear [OF ok pos]
    by (simp add: channel_ok_def queue_def popped_def)
qed

lemma send_commit_eq:
  assumes m: "mem w a = Some c" and ok: "channel_ok c" and room: "count c \<noteq> capacity c"
  shows "send_commit os a v e w =
    (let st1 = posix_status os (CondSignal a Readable) (calls w);
         st2 = posix_status os (MutexUnlock a) (calls w @ [(CondSignal a Readable, st1)])
     in Some ((None, 0, record_error (record_error e st1) st2),
       w\<lparr>calls := calls w @ [(CondSignal a Readable, st1), (MutexUnlock a, st2)],
         mem := (mem w)(a \<mapsto> pushed v c)\<rparr>))"
proof -
  have R: "ring_ok (slots c) (capacity c) (head c) (tail c) (count c)" using ok by (simp add: channel_ok_def)
  show ?thesis
    by (simp add: send_commit_def m ring_push_code [OF R room] os_defs pushed_def)
qed

lemma receive_loop_eq:
  assumes m: "mem w a = Some c" and ok: "channel_ok c" and some: "count c \<noteq> 0"
  shows "sync_channel_receive_loop os a block e w =
    (let st1 = posix_status os (CondSignal a Writable) (calls w);
         st2 = posix_status os (MutexUnlock a) (calls w @ [(CondSignal a Writable, st1)])
     in Some (Return (slots c ! nat (head c), 0, record_error (record_error e st1) st2),
       w\<lparr>calls := calls w @ [(CondSignal a Writable, st1), (MutexUnlock a, st2)],
         mem := (mem w)(a \<mapsto> popped c)\<rparr>))"
proof -
  have R: "ring_ok (slots c) (capacity c) (head c) (tail c) (count c)" using ok by (simp add: channel_ok_def)
  show ?thesis
    by (simp add: sync_channel_receive_loop_def m some ring_pop_code [OF R some] os_defs popped_def)
qed

lemma release_slots_eq:
  "i + n = length cs \<Longrightarrow> release_slots cs n (int i) w =
     Some (w\<lparr>calls := calls w @ map (\<lambda>v. (Decref v, 0)) (occupied (drop i cs))\<rparr>)"
proof (induction n arbitrary: i w)
  case 0
  then show ?case by simp
next
  case (Suc n)
  have d: "drop i cs = cs ! i # drop (Suc i) cs" using Suc.prems by (intro Cons_nth_drop_Suc [symmetric]) simp
  have g: "cell_get cs (int i) = Some (cs ! i)" using Suc.prems by (simp add: cell_get_def)
  have s: "release_slots cs n (int i + 1) x =
      Some (x\<lparr>calls := calls x @ map (\<lambda>v. (Decref v, 0)) (occupied (drop (Suc i) cs))\<rparr>)" for x
    using Suc.IH [of "Suc i" x] Suc.prems by (simp add: add.commute)
  show ?case
    by (cases "cs ! i") (auto simp: g s d moonbit_decref_def log_call_def)
qed

lemma release_all_slots:
  assumes "channel_ok c"
  shows "release_slots (slots c) (nat (capacity c)) 0 w =
    Some (w\<lparr>calls := calls w @ map (\<lambda>v. (Decref v, 0)) (occupied (slots c))\<rparr>)"
proof -
  have "nat (capacity c) = length (slots c)" using assms ring_okD(3) by (fastforce simp: channel_ok_def)
  then show ?thesis using release_slots_eq [of 0 "length (slots c)" "slots c" w] by simp
qed

subsection \<open>The invariant in a critical section\<close>

lemma core_inv_frame:
  "core_inv cap c H \<Longrightarrow> channel_ok c' \<Longrightarrow> capacity c' = capacity c \<Longrightarrow> refs c' = refs c \<Longrightarrow> senders c' = senders c \<Longrightarrow>
   (closed c' = 0 \<Longrightarrow> closed c = 0) \<Longrightarrow> (receiver_alive c' \<noteq> 0 \<Longrightarrow> receiver_alive c \<noteq> 0) \<Longrightarrow> core_inv cap c' H"
  by (auto simp: core_inv_def)

lemma channel_ok_update [simp]:
  "channel_ok (c\<lparr>refs := r\<rparr>) = channel_ok c" "channel_ok (c\<lparr>closed := x\<rparr>) = channel_ok c"
  "channel_ok (c\<lparr>senders := n\<rparr>) = channel_ok c" "channel_ok (c\<lparr>receiver_alive := y\<rparr>) = channel_ok c"
  by (simp_all add: channel_ok_def)

lemma queue_update [simp]:
  "queue (c\<lparr>refs := r\<rparr>) = queue c" "queue (c\<lparr>closed := x\<rparr>) = queue c"
  "queue (c\<lparr>senders := n\<rparr>) = queue c" "queue (c\<lparr>receiver_alive := y\<rparr>) = queue c"
  by (simp_all add: queue_def)

lemma pushed_fields [simp]:
  "refs (pushed v c) = refs c" "senders (pushed v c) = senders c" "closed (pushed v c) = closed c"
  "receiver_alive (pushed v c) = receiver_alive c" "capacity (pushed v c) = capacity c"
  "count (pushed v c) = count c + 1"
  by (simp_all add: pushed_def)

lemma popped_fields [simp]:
  "refs (popped c) = refs c" "senders (popped c) = senders c" "closed (popped c) = closed c"
  "receiver_alive (popped c) = receiver_alive c" "capacity (popped c) = capacity c"
  "count (popped c) = count c - 1"
  by (simp_all add: popped_def)

lemma channel_inv_live:
  assumes "channel_inv cap a D B w (add_mset h H) ps"
  obtains c where "mem w a = Some c" "core_inv cap c (add_mset h H)" "channel_ok c"
    "sent_of ps = received_of ps @ queue c" "decrefs (calls w) = D" "core h = Some a"
    "mutex_state a w = Some False" "\<forall>h \<in># H. core h = Some a"
    "\<forall>r. balance r (calls w) = B r + owning (channel_resources a) r"
  using assms by (auto simp: channel_inv_def core_inv_def)

lemmas chan_run = os_defs mutex_state_def mutex_run_append sync_channel_test_take_next_operation_error_def
  send_back_def

lemma inv_handle: "channel_inv cap a D B w (add_mset h H) ps \<Longrightarrow> core h = Some a"
  by (simp add: channel_inv_def)

lemma locked_lock:
  assumes "channel_inv cap a D B w (add_mset h H) ps" "k = (MutexLock a, 0) \<or> k = (CondWait a cv, st)"
  obtains c where "channel_locked cap a D B (w\<lparr>calls := calls w @ [k]\<rparr>) (add_mset h H) ps c"
  using assms by (auto simp: channel_inv_def channel_locked_def mutex_state_def mutex_run_append)

lemma inv_no_lock:
  assumes "channel_inv cap a D B w (add_mset h H) ps" "st \<noteq> 0" "sent_by x = []" "received_by x = []"
  shows "channel_inv cap a D B (w\<lparr>calls := calls w @ [(MutexLock a, st)]\<rparr>) (add_mset h H) (ps @ [x])"
  using assms by (auto simp: channel_inv_def mutex_state_def mutex_run_append)

lemma locked_unlock:
  assumes "channel_locked cap a D B w H ps c" "sent_by x = []" "received_by x = []"
  shows "channel_inv cap a D B (w\<lparr>calls := calls w @ [(MutexUnlock a, st)]\<rparr>) H (ps @ [x])"
  using assms by (auto simp: channel_inv_def channel_locked_def mutex_state_def mutex_run_append)

lemma locked_sleep:
  assumes "channel_locked cap a D B w H ps c"
  shows "channel_inv cap a D B (w\<lparr>calls := calls w @ [(CondSleep a cv, st)]\<rparr>) H ps"
  using assms by (auto simp: channel_inv_def channel_locked_def mutex_state_def mutex_run_append)

lemma locked_commit:
  assumes l: "channel_locked cap a D B w H ps c" and room: "count c \<noteq> capacity c"
    and run: "send_commit os a v e w = Some (r, w')" and op: "op = Send v \<or> op = TrySend v"
  shows "channel_inv cap a D B w' H (ps @ [(op, Sent r)])"
proof -
  have m: "mem w a = Some c" and c: "channel_ok c" and ci: "core_inv cap c H"
    using l by (auto simp: channel_locked_def core_inv_def)
  have "core_inv cap (pushed v c) H" using ci pushed_ok(1) [OF c room] by (rule core_inv_frame) auto
  then show ?thesis
    using run l op pushed_ok(2) [OF c room, of v]
    by (auto simp: send_commit_eq [OF m c room] Let_def channel_inv_def channel_locked_def mutex_state_def mutex_run_append)
qed

lemma locked_receive:
  assumes l: "channel_locked cap a D B w H ps c"
    and run: "sync_channel_receive_loop os a block e w = Some (out, w')" and op: "op = Recv \<or> op = TryRecv"
  shows "channel_inv cap a D B w' H (record_past op (map_outcome Received id out) ps)"
proof (cases "count c = 0")
  case True
  have m: "mem w a = Some c" using l by (simp add: channel_locked_def)
  show ?thesis
    using True run op l
    by (auto simp: sync_channel_receive_loop_def m os_defs record_past_def
        intro!: locked_sleep locked_unlock split: if_splits)
next
  case False
  have m: "mem w a = Some c" and c: "channel_ok c" and ci: "core_inv cap c H"
    using l by (auto simp: channel_locked_def core_inv_def)
  obtain v where v: "slots c ! nat (head c) = Some v" "channel_ok (popped c)" "queue c = v # queue (popped c)"
    using popped_ok [OF c False] by blast
  have "core_inv cap (popped c) H" using ci v(2) by (rule core_inv_frame) auto
  then show ?thesis
    using run l op v
    by (auto simp: receive_loop_eq [OF m c False] Let_def channel_inv_def channel_locked_def record_past_def
        mutex_state_def mutex_run_append)
qed

lemma locked_send_loop:
  assumes l: "channel_locked cap a D B w H ps c"
    and run: "sync_sender_send_loop os a v e w = Some (out, w')"
  shows "channel_inv cap a D B w' H (record_past (Send v) (map_outcome Sent id out) ps)"
proof -
  have m: "mem w a = Some c" using l by (simp add: channel_locked_def)
  show ?thesis
    using run l
    by (auto simp: sync_sender_send_loop_def m os_defs send_back_def record_past_def
        intro!: locked_sleep locked_unlock intro: locked_commit split: if_splits)
qed

subsection \<open>The operations keep the invariant\<close>

lemma close_channel_inv:
  assumes inv: "channel_inv cap a D B w (add_mset h H) ps" and run: "close_channel os a f w = Some (st, w')"
    and f: "\<And>c. core_inv cap c (add_mset h H) \<Longrightarrow> core_inv cap (f c) (add_mset h H)" "\<And>c. queue (f c) = queue c"
  shows "channel_inv cap a D B w' (add_mset h H) (ps @ [(op, Status st)])"
proof (cases "posix_status os (MutexLock a) (calls w) = 0")
  case True
  then show ?thesis
    using run inv f by (auto simp: close_channel_def channel_inv_def chan_run)
next
  case False
  then show ?thesis
    using run inv by (auto simp: close_channel_def os_defs intro!: inv_no_lock)
qed

lemma share_inv:
  assumes inv: "channel_inv cap a D B w (add_mset h H) ps" and h: "role h = 1"
    and run: "sync_sender_share os h w = Some ((g, st), w')"
  shows "channel_inv cap a D B w' (add_mset h H + (case g of None \<Rightarrow> {#} | Some x \<Rightarrow> {#x#})) (ps @ [(Share, Handle g st)])"
proof (cases "posix_status os (MutexLock a) (calls w) = 0")
  case True
  have a: "core h = Some a" using inv by (rule inv_handle)
  obtain c where l: "channel_locked cap a D B (w\<lparr>calls := calls w @ [(MutexLock a, 0)]\<rparr>) (add_mset h H) ps c"
    using locked_lock [OF inv] by blast
  then have m: "mem w a = Some c" by (simp add: channel_locked_def)
  obtain n where n: "i32_add (senders c) 1 = Some n" using run True a m
    by (auto simp: sync_sender_share_def os_defs split: Option.bind_splits)
  then have n': "n = senders c + 1" "i32 n" by (auto simp: i32_add_def split: if_splits)
  have "core_inv cap (c\<lparr>senders := n, refs := refs c + 1\<rparr>) (add_mset (sync_channel_wrap a 1) (add_mset h H))"
    using l n' h by (auto simp: channel_locked_def core_inv_def sync_channel_wrap_def)
  moreover have "mutex_run a False (calls w) = Some False"
    using inv by (simp add: channel_inv_def mutex_state_def)
  ultimately show ?thesis
    using run l True a n
    by (auto simp: sync_sender_share_def os_defs channel_locked_def channel_inv_def mutex_state_def mutex_run_append
        sync_channel_wrap_def add_mset_commute)
next
  case False
  have a: "core h = Some a" using inv by (rule inv_handle)
  show ?thesis using run inv False a by (auto simp: sync_sender_share_def os_defs intro!: inv_no_lock)
qed

lemma try_send_inv:
  assumes inv: "channel_inv cap a D B w (add_mset h H) ps"
    and run: "sync_sender_try_send os h v w = Some (r, w')"
  shows "channel_inv cap a D B w' (add_mset h H) (ps @ [(TrySend v, Sent r)])"
proof -
  have a: "core h = Some a" using inv by (rule inv_handle)
  let ?w = "w\<lparr>next_operation_error := 0\<rparr>"
  have inv': "channel_inv cap a D B ?w (add_mset h H) ps" using inv by (simp add: channel_inv_def mutex_state_def)
  consider "next_operation_error w \<noteq> 0" | "next_operation_error w = 0" "posix_status os (MutexLock a) (calls w) \<noteq> 0"
    | "next_operation_error w = 0" "posix_status os (MutexLock a) (calls w) = 0" by blast
  then show ?thesis
  proof cases
    case 1
    then show ?thesis using run inv' a by (auto simp: sync_sender_try_send_def chan_run channel_inv_def)
  next
    case 2
    then show ?thesis using run inv' a by (auto simp: sync_sender_try_send_def os_defs
      sync_channel_test_take_next_operation_error_def intro!: inv_no_lock [OF inv', simplified])
  next
    case 3
    obtain c where l: "channel_locked cap a D B (?w\<lparr>calls := calls w @ [(MutexLock a, 0)]\<rparr>) (add_mset h H) ps c"
      using locked_lock [OF inv', of "(MutexLock a, 0)"] by auto
    then have m: "mem w a = Some c" by (simp add: channel_locked_def)
    show ?thesis
      using run 3 a m locked_unlock [OF l] locked_commit [OF l]
      by (auto simp: sync_sender_try_send_def os_defs send_back_def
          sync_channel_test_take_next_operation_error_def split: if_splits)
  qed
qed

lemma send_start_inv:
  assumes inv: "channel_inv cap a D B w (add_mset h H) ps"
    and run: "sync_sender_send_start os h v w = Some (out, w')"
  shows "channel_inv cap a D B w' (add_mset h H) (record_past (Send v) (map_outcome Sent id out) ps)"
proof -
  have a: "core h = Some a" using inv by (rule inv_handle)
  obtain c where l: "channel_locked cap a D B (w\<lparr>calls := calls w @ [(MutexLock a, 0)]\<rparr>) (add_mset h H) ps c"
    using locked_lock [OF inv] by blast
  show ?thesis
    using run a locked_send_loop [OF l] inv_no_lock [OF inv]
    by (auto simp: sync_sender_send_start_def os_defs record_past_def split: if_splits)
qed

lemma send_wake_inv:
  assumes inv: "channel_inv cap a D B w (add_mset h H) ps"
    and run: "sync_sender_send_wake os a v e w = Some (out, w')"
  shows "channel_inv cap a D B w' (add_mset h H) (record_past (Send v) (map_outcome Sent id out) ps)"
proof -
  let ?st = "ret os (calls w) (CondWait a Writable)"
  obtain c where l: "channel_locked cap a D B (w\<lparr>calls := calls w @ [(CondWait a Writable, ?st)]\<rparr>) (add_mset h H) ps c"
    using locked_lock [OF inv, of "(CondWait a Writable, ?st)" Writable ?st] by auto
  show ?thesis
    using run locked_send_loop [OF l] locked_unlock [OF l]
    by (auto simp: sync_sender_send_wake_def os_defs send_back_def record_past_def split: if_splits)
qed

lemma receive_start_inv:
  assumes inv: "channel_inv cap a D B w (add_mset h H) ps" and op: "op = Recv \<or> op = TryRecv"
    and run: "sync_channel_receive_start os h block w = Some (out, w')"
  shows "channel_inv cap a D B w' (add_mset h H) (record_past op (map_outcome Received id out) ps)"
proof -
  have a: "core h = Some a" using inv by (rule inv_handle)
  obtain c where l: "channel_locked cap a D B (w\<lparr>calls := calls w @ [(MutexLock a, 0)]\<rparr>) (add_mset h H) ps c"
    using locked_lock [OF inv] by blast
  show ?thesis
    using run a locked_receive [OF l _ op] inv_no_lock [OF inv] op
    by (auto simp: sync_channel_receive_start_def os_defs record_past_def split: if_splits)
qed

lemma receive_wake_inv:
  assumes inv: "channel_inv cap a D B w (add_mset h H) ps"
    and run: "sync_channel_receive_wake os a e w = Some (out, w')"
  shows "channel_inv cap a D B w' (add_mset h H) (record_past Recv (map_outcome Received id out) ps)"
proof -
  let ?st = "ret os (calls w) (CondWait a Readable)"
  obtain c where l: "channel_locked cap a D B (w\<lparr>calls := calls w @ [(CondWait a Readable, ?st)]\<rparr>) (add_mset h H) ps c"
    using locked_lock [OF inv, of "(CondWait a Readable, ?st)" Readable ?st] by auto
  show ?thesis
    using run locked_receive [OF l, of os 1 _ _ _ Recv] locked_unlock [OF l]
    by (auto simp: sync_channel_receive_wake_def os_defs record_past_def split: if_splits)
qed

lemma len_inv:
  assumes inv: "channel_inv cap a D B w (add_mset h H) ps"
    and run: "sync_receiver_len os h w = Some ((n, st), w')"
  shows "channel_inv cap a D B w' (add_mset h H) (ps @ [(Len, Number n st)])"
proof -
  have a: "core h = Some a" using inv by (rule inv_handle)
  obtain c where l: "channel_locked cap a D B (w\<lparr>calls := calls w @ [(MutexLock a, 0)]\<rparr>) (add_mset h H) ps c"
    using locked_lock [OF inv] by blast
  then have m: "mem w a = Some c" by (simp add: channel_locked_def)
  show ?thesis
    using run a m locked_unlock [OF l] inv_no_lock [OF inv]
    by (auto simp: sync_receiver_len_def os_defs split: if_splits)
qed

subsection \<open>Finalizers\<close>

lemma size_roles:
  "\<forall>h \<in># H. role h = 1 \<or> role h = 2 \<Longrightarrow> size H = senders_in H + receivers_in H"
  by (induction H) auto

lemma core_inv_size: "core_inv cap c H \<Longrightarrow> size H < 2 ^ 32"
  using size_roles [of H] by (auto simp: core_inv_def i32_def INT32_MAX_def)

lemma core_release_live:
  assumes "mem w a = Some c" "refs c - 1 \<noteq> 0"
  shows "sync_channel_core_release os a w = Some (w\<lparr>mem := (mem w)(a \<mapsto> c\<lparr>refs := refs c - 1\<rparr>)\<rparr>)"
  using assms by (simp add: sync_channel_core_release_def os_defs)

lemma core_release_last:
  assumes m: "mem w a = Some c" and r: "refs c - 1 = 0" and ok: "channel_ok c"
    and run: "sync_channel_core_release os a w = Some w'"
  shows "w' = w\<lparr>calls := calls w @ map (\<lambda>v. (Decref v, 0)) (occupied (slots c)) @
      [(Free SlotsBlock, 0), (CondDestroy a Writable, 0), (CondDestroy a Readable, 0), (MutexDestroy a, 0),
       (Free CoreBlock, 0)], mem := (mem w)(a := None)\<rparr>"
  using run m r by (auto simp: sync_channel_core_release_def os_defs release_all_slots [OF ok] split: Option.bind_splits)

lemma dropped_fields [simp]:
  "refs (dropped h c) = refs c" "slots (dropped h c) = slots c" "capacity (dropped h c) = capacity c"
  "channel_ok (dropped h c) = channel_ok c" "queue (dropped h c) = queue c" "count (dropped h c) = count c"
  by (auto simp: dropped_def channel_ok_def queue_def)

lemma finalize_eq:
  assumes a: "core h = Some a" and m: "mem w a = Some c" and i: "i32 (senders c)" "role h = 1 \<Longrightarrow> 0 < senders c"
    and run: "sync_channel_finalize os h w = Some w'"
  shows "sync_channel_core_release os a (w\<lparr>calls := calls w @ drop_calls a h c,
     mem := (mem w)(a \<mapsto> dropped h c)\<rparr>) = Some w'"
proof -
  have sub: "role h = 1 \<Longrightarrow> i32_sub (senders c) 1 = Some (senders c - 1)"
    using i by (simp add: i32_sub_one)
  have same: "(mem w)(a \<mapsto> c) = mem w" using m by auto
  consider "role h = 1" "senders c = 1" | "role h = 1" "senders c \<noteq> 1"
    | "role h = 2" "receiver_alive c \<noteq> 0" | "role h \<noteq> 1" "\<not> closes h c"
    by (auto simp: closes_def)
  then show ?thesis
  proof cases
    case 4
    then show ?thesis using run a m
      by (auto simp: sync_channel_finalize_def os_defs drop_calls_def closes_def dropped_def same)
  qed (use run a m sub in \<open>auto simp: sync_channel_finalize_def wake_both_or_abort_def os_defs
      drop_calls_def closes_def dropped_def\<close>)
qed

lemma dropped_core_inv:
  assumes "core_inv cap c (add_mset h H)" "H \<noteq> {#}"
  shows "core_inv cap ((dropped h c)\<lparr>refs := refs c - 1\<rparr>) H"
  using assms
  by (auto simp: core_inv_def dropped_def closes_def i32_def INT32_MIN_def split: if_splits)

lemma finalize_inv:
  assumes inv: "channel_inv cap a D B w (add_mset h H) ps"
    and run: "sync_channel_finalize os h w = Some w'"
  shows "channel_inv cap a D B w' H (ps @ [(Finalize, Dropped)])"
  using inv
proof (rule channel_inv_live)
  fix c
  assume *: "mem w a = Some c" "core_inv cap c (add_mset h H)" "channel_ok c" "sent_of ps = received_of ps @ queue c"
    "decrefs (calls w) = D" "core h = Some a" "mutex_state a w = Some False" "\<forall>h \<in># H. core h = Some a"
    "\<forall>r. balance r (calls w) = B r + owning (channel_resources a) r"
  let ?w = "w\<lparr>calls := calls w @ drop_calls a h c, mem := (mem w)(a \<mapsto> dropped h c)\<rparr>"
  have rel: "sync_channel_core_release os a ?w = Some w'"
    using * run by (intro finalize_eq) (auto simp: core_inv_def)
  have sz: "refs (dropped h c) - 1 = of_nat (size H)" using *(2) by (simp add: core_inv_def)
  have ms: "mutex_run a False (calls ?w) = Some False"
    using *(7) by (auto simp: mutex_state_def mutex_run_append drop_calls_def)
  have dr: "decrefs (calls ?w) = D" using *(5) by (auto simp: drop_calls_def)
  have bl: "\<forall>r. balance r (calls ?w) = B r + owning (channel_resources a) r"
    using *(9) by (auto simp: drop_calls_def)
  have wf: "of_nat (size H) = (0 :: 32 word) \<longleftrightarrow> H = {#}"
    using core_inv_size [OF *(2)] refs_zero_iff [of "size H"] by simp
  show ?thesis
  proof (cases "H = {#}")
    case True
    have w': "w' = ?w\<lparr>calls := calls ?w @ map (\<lambda>v. (Decref v, 0)) (occupied (slots (dropped h c))) @
      [(Free SlotsBlock, 0), (CondDestroy a Writable, 0), (CondDestroy a Readable, 0), (MutexDestroy a, 0),
       (Free CoreBlock, 0)], mem := (mem ?w)(a := None)\<rparr>"
      by (rule core_release_last [OF _ _ _ rel]) (use * sz True in auto)
    have occ: "mset (occupied (slots c)) = mset (queue c)"
      using *(3) by (auto simp: channel_ok_def queue_def intro: mset_occupied)
    have bl: "\<forall>r. balance r (calls w') = B r"
      using *(9) by (auto simp: w' drop_calls_def channel_resources_def)
    show ?thesis
      using True * dr ms occ bl
      by (auto simp: w' channel_inv_def mutex_state_def mutex_run_append intro!: exI [of _ "queue c"])
  next
    case False
    have w': "w' = ?w\<lparr>mem := (mem ?w)(a \<mapsto> (dropped h c)\<lparr>refs := refs c - 1\<rparr>)\<rparr>"
      using rel core_release_live [of ?w a "dropped h c" os] sz wf False by (cases "refs c = 1") auto
    show ?thesis
      using False * dr ms bl dropped_core_inv [OF *(2) False]
      by (auto simp: w' channel_inv_def mutex_state_def)
  qed
qed

subsection \<open>The channel is a monitor\<close>

lemma settle_channel:
  "settle (channel_monitor a) op h (Return r) =
     (if op = Finalize then {#} else {#(h, Ready)#}) +
     (case channel_born r of None \<Rightarrow> {#} | Some g \<Rightarrow> {#(g, Ready)#})"
  "settle (channel_monitor a) op h (Wait cv k) = {#(h, Asleep cv k)#}"
  "settle (channel_monitor a) op h (Again k) = {#(h, Runnable k)#}"
  by (simp_all add: settle_def channel_monitor_def split: option.splits)

lemma core_inv_close:
  "core_inv cap c H \<Longrightarrow> core_inv cap (c\<lparr>closed := 1\<rparr>) H"
  "core_inv cap c H \<Longrightarrow> core_inv cap (c\<lparr>closed := 1, receiver_alive := 0\<rparr>) H"
  by (auto simp: core_inv_def)

lemma settle_handle:
  assumes "op \<noteq> Finalize"
  shows "image_mset fst (settle (channel_monitor a) op h (map_outcome Sent f out)) = {#h#}"
    "image_mset fst (settle (channel_monitor a) op h (map_outcome Received f out')) = {#h#}"
  using assms by (cases out; cases out'; simp add: settle_channel)+

lemma enter_inv_channel:
  assumes inv: "channel_inv cap a D B w (add_mset h H) ps" and may: "channel_may op h"
    and run: "channel_enter os op h w = Some (out, w')"
  shows "channel_inv cap a D B w' (H + image_mset fst (settle (channel_monitor a) op h out)) (record_past op out ps)"
proof (cases op)
  case Share
  then obtain g st where g: "sync_sender_share os h w = Some ((g, st), w')" "out = Return (Handle g st)"
    using run by auto
  have "role h = 1" using may Share by simp
  from share_inv [OF inv this g(1)] show ?thesis
    using Share g(2) by (cases g) (auto simp: record_past_def settle_channel)
next
  case (Send v)
  then show ?thesis using run send_start_inv [OF inv]
    by (auto simp: settle_handle)
next
  case Recv
  then show ?thesis using run receive_start_inv [OF inv, of Recv]
    by (auto simp: settle_handle)
next
  case TryRecv
  then show ?thesis using run receive_start_inv [OF inv, of TryRecv]
    by (auto simp: settle_handle)
next
  case (TrySend v)
  then show ?thesis using run try_send_inv [OF inv] by (auto simp: record_past_def settle_channel)
next
  case SenderClose
  then show ?thesis using run inv_handle [OF inv]
    by (auto simp: record_past_def settle_channel sync_sender_close_def
        intro!: close_channel_inv [OF inv] intro: core_inv_close)
next
  case ReceiverClose
  then show ?thesis using run inv_handle [OF inv]
    by (auto simp: record_past_def settle_channel sync_receiver_close_def
        intro!: close_channel_inv [OF inv] intro: core_inv_close)
next
  case Len
  then show ?thesis using run len_inv [OF inv] by (auto simp: record_past_def settle_channel)
next
  case Finalize
  then show ?thesis using run finalize_inv [OF inv] by (auto simp: record_past_def settle_channel)
qed

lemma resume_inv_channel:
  assumes inv: "channel_inv cap a D B w (add_mset h H) ps"
    and run: "channel_resume os k h w = Some (out, w')"
  shows "channel_inv cap a D B w' (H + image_mset fst (settle (channel_monitor a) (channel_pending k) h out))
     (record_past (channel_pending k) out ps)"
proof (cases k)
  case (SendK v e)
  then show ?thesis using run send_wake_inv [OF inv] inv_handle [OF inv]
    by (auto simp: settle_handle)
next
  case (RecvK e)
  then show ?thesis using run receive_wake_inv [OF inv] inv_handle [OF inv]
    by (auto simp: settle_handle)
qed

lemma channel_monitor_simps [simp]:
  "site (channel_monitor a) = a" "may (channel_monitor a) = channel_may"
  "enter (channel_monitor a) = channel_enter" "resume (channel_monitor a) = channel_resume"
  "pending (channel_monitor a) = channel_pending" "born (channel_monitor a) = channel_born"
  "drops (channel_monitor a) op = (op = Finalize)"
  by (simp_all add: channel_monitor_def)

lemma send_loop_outcome:
  "sync_sender_send_loop os a v e w = Some (out, w') \<Longrightarrow> (\<exists>r. out = Return r) \<or> out = Wait Writable (SendK v e)"
  by (auto simp: sync_sender_send_loop_def os_defs send_back_def bind_eq_Some_conv split: if_splits)

lemma receive_loop_outcome:
  "sync_channel_receive_loop os a block e w = Some (out, w') \<Longrightarrow> (\<exists>r. out = Return r) \<or> out = Wait Readable (RecvK e)"
  by (auto simp: sync_channel_receive_loop_def os_defs bind_eq_Some_conv split: if_splits)

lemma enter_kok_channel:
  assumes "channel_may op h" "channel_enter os op h w = Some (out, w')"
  shows "all_pending channel_kok (settle (channel_monitor a) op h out)"
  using assms
  by (cases op; fastforce simp: settle_channel channel_kok_def sync_sender_send_start_def
      sync_channel_receive_start_def os_defs bind_eq_Some_conv
      dest!: send_loop_outcome receive_loop_outcome split: if_splits option.splits)

lemma resume_kok_channel:
  assumes "channel_kok h k" "channel_resume os k h w = Some (out, w')"
  shows "all_pending channel_kok (settle (channel_monitor a) (channel_pending k) h out)"
  using assms
  by (cases k; fastforce simp: settle_channel channel_kok_def sync_sender_send_wake_def send_back_def
      sync_channel_receive_wake_def os_defs bind_eq_Some_conv
      dest!: send_loop_outcome receive_loop_outcome split: if_splits option.splits)

interpretation channel: monitor_inv P "channel_monitor a" "channel_inv cap a D B" channel_kok for P cap a D B
  by unfold_locales
    (simp_all add: enter_inv_channel resume_inv_channel enter_kok_channel resume_kok_channel)

subsection \<open>Wake-ups\<close>

lemma ok_nat: "channel_ok c \<Longrightarrow> nat (count c) = 0 \<longleftrightarrow> count c = 0"
  "channel_ok c \<Longrightarrow> nat (capacity c - count c) = 0 \<longleftrightarrow> count c = capacity c"
  "channel_ok c \<Longrightarrow> count c \<le> capacity c" "channel_ok c \<Longrightarrow> 0 \<le> count c"
  using ring_okD(6,7) by (fastforce simp: channel_ok_def)+

lemma channel_open_simps [simp]:
  "mem w a = Some c \<Longrightarrow> channel_open a w = (closed c = 0)"
  "mem w a = Some c \<Longrightarrow> channel_accepting a w = (closed c = 0 \<and> receiver_alive c \<noteq> 0)"
  by (simp_all add: channel_open_def channel_accepting_def)

lemma effect_Return:
  assumes "calls w' = calls w @ ks" "mem w a = Some c" "mem w' a = Some c'"
    "ready_of c' \<le> ready_of c + signals a Readable ks \<or> ready_of c' = 0"
    "free_of c' \<le> free_of c + signals a Writable ks \<or> free_of c' = 0"
    "closed c' = closed c \<and> receiver_alive c' = receiver_alive c \<or> broadcasts a Readable ks \<and> broadcasts a Writable ks"
  shows "channel_effect a w (Return r) w'"
  using assms by (auto simp: channel_effect_def channel_ready_def channel_free_def new_calls_def)

lemma send_loop_ok:
  assumes "os_ok os" "mem w a = Some c" "channel_ok c"
  shows "sync_sender_send_loop os a v e w = Some
    (if count c = capacity c \<and> closed c = 0 \<and> receiver_alive c \<noteq> 0 then
       (Wait Writable (SendK v e), w\<lparr>calls := calls w @ [(CondSleep a Writable, 0)]\<rparr>)
     else if closed c \<noteq> 0 \<or> receiver_alive c = 0 then
       (Return (Some v, 2, e), w\<lparr>calls := calls w @ [(MutexUnlock a, 0)]\<rparr>)
     else (Return (None, 0, e), w\<lparr>calls := calls w @ [(CondSignal a Readable, 0), (MutexUnlock a, 0)],
            mem := (mem w)(a \<mapsto> pushed v c)\<rparr>))"
  using assms by (simp add: sync_sender_send_loop_def send_commit_eq os_defs send_back_def)

lemma receive_loop_ok:
  assumes "os_ok os" "mem w a = Some c" "channel_ok c"
  shows "sync_channel_receive_loop os a block e w = Some
    (if block \<noteq> 0 \<and> count c = 0 \<and> closed c = 0 then
       (Wait Readable (RecvK e), w\<lparr>calls := calls w @ [(CondSleep a Readable, 0)]\<rparr>)
     else if count c = 0 then
       (Return (None, if closed c \<noteq> 0 then 2 else 1, e), w\<lparr>calls := calls w @ [(MutexUnlock a, 0)]\<rparr>)
     else (Return (slots c ! nat (head c), 0, e),
       w\<lparr>calls := calls w @ [(CondSignal a Writable, 0), (MutexUnlock a, 0)], mem := (mem w)(a \<mapsto> popped c)\<rparr>))"
proof (cases "count c = 0")
  case True
  with assms show ?thesis by (simp add: sync_channel_receive_loop_def os_defs)
next
  case False
  with assms show ?thesis by (simp add: receive_loop_eq)
qed

lemma effect_pushed:
  assumes "channel_ok c" "count c \<noteq> capacity c" 
  shows "ready_of (pushed v c) \<le> Suc (ready_of c)"
    "closed c = 0 \<Longrightarrow> receiver_alive c \<noteq> 0 \<Longrightarrow> Suc (free_of (pushed v c)) \<le> free_of c"
    "free_of (pushed v c) \<le> free_of c"
  using assms ok_nat(3,4) [OF assms(1)] unfolding ready_of_def free_of_def by auto

lemma effect_popped:
  assumes "channel_ok c" "count c \<noteq> 0" 
  shows "free_of (popped c) \<le> Suc (free_of c)"
    "closed c = 0 \<Longrightarrow> Suc (ready_of (popped c)) \<le> ready_of c"
    "ready_of (popped c) \<le> ready_of c" "closed c \<noteq> 0 \<Longrightarrow> ready_of (popped c) = 0"
  using assms ok_nat(3,4) [OF assms(1)] unfolding ready_of_def free_of_def by auto

lemma send_loop_effect:
  assumes ok: "os_ok os" "mem w0 a = Some c" "channel_ok c"
    and k: "k = (MutexLock a, 0) \<or> k = (CondWait a Writable, 0)"
    and run: "sync_sender_send_loop os a v e (w0\<lparr>calls := calls w0 @ [k]\<rparr>) = Some (out, w')"
  shows "channel_effect a w0 (map_outcome Sent id out) w'"
    "Suc (channel_free a w') \<le> channel_free a w0 \<or> channel_free a w' = 0"
    "\<And>k. out \<noteq> Again k"
  using run k ok(2) effect_pushed [OF ok(3), of v]
  by (auto simp: send_loop_ok [OF ok(1) _ ok(3)] channel_effect_def channel_ready_def channel_free_def
      new_calls_def signals_def free_of_def [of c] split: if_splits)

lemma receive_loop_effect:
  assumes ok: "os_ok os" "mem w0 a = Some c" "channel_ok c"
    and k: "k = (MutexLock a, 0) \<or> k = (CondWait a Readable, 0)"
    and run: "sync_channel_receive_loop os a block e (w0\<lparr>calls := calls w0 @ [k]\<rparr>) = Some (out, w')"
  shows "channel_effect a w0 (map_outcome Received id out) w'"
    "block \<noteq> 0 \<Longrightarrow> Suc (channel_ready a w') \<le> channel_ready a w0 \<or> channel_ready a w' = 0"
    "\<And>k. out \<noteq> Again k"
  using run k ok(2) effect_popped [OF ok(3)]
  by (auto simp: receive_loop_ok [OF ok(1) _ ok(3)] channel_effect_def channel_ready_def channel_free_def
      new_calls_def signals_def ready_of_def [of c] split: if_splits)

lemma close_effect:
  assumes ok: "os_ok os" "mem w a = Some c" and f: "closed (f c) = 1"
    and run: "close_channel os a f w = Some (st, w')"
  shows "channel_effect a w (Return r) w'"
  using assms by (auto simp: close_channel_def os_defs channel_effect_def channel_ready_def channel_free_def
      ready_of_def free_of_def broadcasts_def new_calls_def)

lemma finalize_effect:
  assumes ok: "os_ok os" and inv: "channel_inv cap a D B w (add_mset h H) ps"
    and run: "sync_channel_finalize os h w = Some w'"
  shows "channel_effect a w (Return r) w'"
  using inv
proof (rule channel_inv_live)
  fix c
  assume *: "mem w a = Some c" "core_inv cap c (add_mset h H)" "channel_ok c" "core h = Some a"
  let ?w = "w\<lparr>calls := calls w @ drop_calls a h c, mem := (mem w)(a \<mapsto> dropped h c)\<rparr>"
  have rel: "sync_channel_core_release os a ?w = Some w'"
    using * run by (intro finalize_eq) (auto simp: core_inv_def)
  have le: "ready_of (dropped h c) \<le> ready_of c" "free_of (dropped h c) \<le> free_of c"
    by (auto simp: dropped_def ready_of_def free_of_def)
  show ?thesis
  proof (cases "refs c - 1 = 0")
    case True
    then have "H = {#}" using *(2) refs_zero_iff [of "size H"] core_inv_size [OF *(2)] by (simp add: core_inv_def)
    then have "closed c = 0 \<Longrightarrow> closes h c \<and> receiver_alive c = 0"
      using *(2) by (auto simp: core_inv_def closes_def split: if_splits)
    then show ?thesis
      using True core_release_last [OF _ _ _ rel, of "dropped h c"] *
      by (auto simp: channel_effect_def channel_ready_def channel_free_def new_calls_def broadcasts_def drop_calls_def)
  next
    case False
    then have "w' = ?w\<lparr>mem := (mem ?w)(a \<mapsto> (dropped h c)\<lparr>refs := refs c - 1\<rparr>)\<rparr>"
      using rel core_release_live [of ?w a "dropped h c" os] by simp
    then show ?thesis
      using * le by (intro effect_Return [of _ _ "drop_calls a h c" _ c "(dropped h c)\<lparr>refs := refs c - 1\<rparr>"])
        (auto simp: ready_of_def free_of_def broadcasts_def drop_calls_def dropped_def closes_def)
  qed
qed

lemma enter_effect:
  assumes ok: "os_ok os" and inv: "channel_inv cap a D B w (add_mset h H) ps"
    and run: "channel_enter os op h w = Some (out, w')"
  shows "channel_effect a w out w'"
  using inv
proof (rule channel_inv_live)
  fix c
  assume *: "mem w a = Some c" "core_inv cap c (add_mset h H)" "channel_ok c" "core h = Some a"
  show ?thesis
  proof (cases op)
    case Share
    then show ?thesis using run ok *
      by (auto simp: sync_sender_share_def os_defs ready_of_def free_of_def bind_eq_Some_conv intro!: effect_Return)
  next
    case (TrySend v)
    show ?thesis
    proof (cases "next_operation_error w \<noteq> 0 \<or> closed c \<noteq> 0 \<or> receiver_alive c = 0 \<or> count c = capacity c")
      case True
      then show ?thesis using TrySend run ok *
        by (auto simp: sync_sender_try_send_def os_defs send_back_def sync_channel_test_take_next_operation_error_def
            intro!: effect_Return split: if_splits)
    next
      case False
      then show ?thesis using TrySend run ok * effect_pushed [OF *(3), of v]
        by (auto simp: sync_sender_try_send_def os_defs sync_channel_test_take_next_operation_error_def send_commit_eq
            signals_def intro!: effect_Return)
    qed
  next
    case (Send v)
    then show ?thesis using run ok * send_loop_effect(1) [OF ok *(1,3), of "(MutexLock a, 0)"]
      by (auto simp: sync_sender_send_start_def os_defs)
  next
    case SenderClose
    then show ?thesis using run * by (auto simp: sync_sender_close_def intro!: close_effect [OF ok *(1)])
  next
    case ReceiverClose
    then show ?thesis using run * by (auto simp: sync_receiver_close_def intro!: close_effect [OF ok *(1)])
  next
    case TryRecv
    then show ?thesis using run ok * receive_loop_effect(1) [OF ok *(1,3), of "(MutexLock a, 0)"]
      by (auto simp: sync_channel_receive_start_def os_defs)
  next
    case Recv
    then show ?thesis using run ok * receive_loop_effect(1) [OF ok *(1,3), of "(MutexLock a, 0)"]
      by (auto simp: sync_channel_receive_start_def os_defs)
  next
    case Len
    then show ?thesis using run ok * by (auto simp: sync_receiver_len_def os_defs intro!: effect_Return)
  next
    case Finalize
    then show ?thesis using run by (auto intro: finalize_effect [OF ok inv])
  qed
qed

lemma resume_send_effect:
  assumes ok: "os_ok os" and inv: "channel_inv cap a D B w (add_mset h H) ps"
    and run: "channel_resume os (SendK v e) h w = Some (out, w')"
  shows "channel_effect a w out w'" "\<And>k. out \<noteq> Again k"
    "Suc (channel_free a w') \<le> channel_free a w \<or> channel_free a w' = 0"
proof -
  obtain c where *: "mem w a = Some c" "channel_ok c" "core h = Some a"
    using inv by (rule channel_inv_live)
  obtain out' where o: "out = map_outcome Sent id out'"
      "sync_sender_send_loop os a v e (w\<lparr>calls := calls w @ [(CondWait a Writable, 0)]\<rparr>) = Some (out', w')"
    using run ok *(3) by (auto simp: sync_sender_send_wake_def os_defs)
  note s = send_loop_effect [OF ok *(1,2) _ o(2), simplified]
  show "channel_effect a w out w'" using s(1) o(1) by simp
  show "out \<noteq> Again k" for k using s(3) o(1) by simp
  show "Suc (channel_free a w') \<le> channel_free a w \<or> channel_free a w' = 0" using s(2) by simp
qed

lemma resume_receive_effect:
  assumes ok: "os_ok os" and inv: "channel_inv cap a D B w (add_mset h H) ps"
    and run: "channel_resume os (RecvK e) h w = Some (out, w')"
  shows "channel_effect a w out w'" "\<And>k. out \<noteq> Again k"
    "Suc (channel_ready a w') \<le> channel_ready a w \<or> channel_ready a w' = 0"
proof -
  obtain c where *: "mem w a = Some c" "channel_ok c" "core h = Some a"
    using inv by (rule channel_inv_live)
  obtain out' where o: "out = map_outcome Received id out'"
      "sync_channel_receive_loop os a 1 e (w\<lparr>calls := calls w @ [(CondWait a Readable, 0)]\<rparr>) = Some (out', w')"
    using run ok *(3) by (auto simp: sync_channel_receive_wake_def os_defs)
  note s = receive_loop_effect [OF ok *(1,2) _ o(2), simplified]
  show "channel_effect a w out w'" using s(1) o(1) by simp
  show "out \<noteq> Again k" for k using s(3) o(1) by simp
  show "Suc (channel_ready a w') \<le> channel_ready a w \<or> channel_ready a w' = 0" using s(2) by simp
qed

lemma resume_effect:
  assumes "os_ok os" "channel_inv cap a D B w (add_mset h H) ps" "channel_resume os k h w = Some (out, w')"
  shows "channel_effect a w out w'" "\<And>k'. out \<noteq> Again k'"
    "is_send k \<Longrightarrow> Suc (channel_free a w') \<le> channel_free a w \<or> channel_free a w' = 0"
    "\<not> is_send k \<Longrightarrow> Suc (channel_ready a w') \<le> channel_ready a w \<or> channel_ready a w' = 0"
  using assms resume_send_effect [of os cap a D B w h H ps] resume_receive_effect [of os cap a D B w h H ps]
  by (cases k; simp; blast)+

lemma effect_need:
  assumes "channel_effect a w out w'"
  shows "channel_ready a w' \<le> channel_ready a w + signals a Readable (new_calls w w') \<or> channel_ready a w' = 0"
    "channel_free a w' \<le> channel_free a w + signals a Writable (new_calls w w') \<or> channel_free a w' = 0"
    "out = Wait Readable k \<Longrightarrow> channel_ready a w' = 0 \<and> \<not> is_send k"
    "out = Wait Writable k \<Longrightarrow> channel_free a w' = 0 \<and> is_send k"
  using assms by (auto simp: channel_effect_def)

lemma effect_open:
  assumes "channel_effect a w out w'"
  shows "channel_open a w \<Longrightarrow> channel_open a w' \<or> broadcasts a Readable (new_calls w w')"
    "channel_accepting a w \<Longrightarrow> channel_accepting a w' \<or> broadcasts a Writable (new_calls w w')"
    "out = Wait Readable k \<Longrightarrow> channel_open a w'" "out = Wait Writable k \<Longrightarrow> channel_accepting a w'"
  using assms by (auto simp: channel_effect_def)

interpretation readable: signalled os_ok "channel_monitor a" "handles_only (channel_inv cap a D B) channel_kok"
  Readable "channel_ready a" "\<lambda>k. \<not> is_send k" for cap a D B
proof (unfold_locales, goal_cases)
  case (1 os op h w A ps out w')
  show ?case using effect_need(1) [OF enter_effect [OF 1(1) handles_onlyD(1) [OF 1(3)]]] 1(4) by simp blast
next
  case (2 os op h w A k w')
  show ?case using effect_need(3) [OF enter_effect [OF 2(1) handles_onlyD(1) [OF 2(3)]]] 2(4) by simp
next
  case (3 os w h k A ps out w')
  note e = resume_effect [OF 3(1) handles_onlyD(2) [OF 3(2)] 3(3) [simplified]]
  show ?case using effect_need(1) [OF e(1)] e(2,4) by (cases "is_send k") (auto split: outcome.splits)
next
  case (4 os w h k A ps k' w')
  show ?case using effect_need(3) [OF resume_effect(1) [OF 4(1) handles_onlyD(2) [OF 4(2)]]] 4(3) by simp
qed

interpretation writable: signalled os_ok "channel_monitor a" "handles_only (channel_inv cap a D B) channel_kok"
  Writable "channel_free a" is_send for cap a D B
proof (unfold_locales, goal_cases)
  case (1 os op h w A ps out w')
  show ?case using effect_need(2) [OF enter_effect [OF 1(1) handles_onlyD(1) [OF 1(3)]]] 1(4) by simp blast
next
  case (2 os op h w A k w')
  show ?case using effect_need(4) [OF enter_effect [OF 2(1) handles_onlyD(1) [OF 2(3)]]] 2(4) by simp
next
  case (3 os w h k A ps out w')
  note e = resume_effect [OF 3(1) handles_onlyD(2) [OF 3(2)] 3(3) [simplified]]
  show ?case using effect_need(2) [OF e(1)] e(2,3) by (cases "is_send k") (auto split: outcome.splits)
next
  case (4 os w h k A ps k' w')
  show ?case using effect_need(4) [OF resume_effect(1) [OF 4(1) handles_onlyD(2) [OF 4(2)]]] 4(3) by simp
qed

interpretation close_readable: broadcasting os_ok "channel_monitor a" "handles_only (channel_inv cap a D B) channel_kok"
  Readable "channel_open a" for cap a D B
proof (unfold_locales, goal_cases)
  case (1 os op h w A ps out w')
  show ?case using effect_open(1) [OF enter_effect [OF 1(1) handles_onlyD(1) [OF 1(3)]]] 1(4,5) by simp
next
  case (2 os op h w A k w')
  show ?case using effect_open(3) [OF enter_effect [OF 2(1) handles_onlyD(1) [OF 2(3)]]] 2(4) by simp
next
  case (3 os w h k A ps out w')
  show ?case using effect_open(1) [OF resume_effect(1) [OF 3(1) handles_onlyD(2) [OF 3(2)]]] 3(3,4) by simp
next
  case (4 os w h k A ps k' w')
  show ?case using effect_open(3) [OF resume_effect(1) [OF 4(1) handles_onlyD(2) [OF 4(2)]]] 4(3) by simp
qed

interpretation close_writable: broadcasting os_ok "channel_monitor a" "handles_only (channel_inv cap a D B) channel_kok"
  Writable "channel_accepting a" for cap a D B
proof (unfold_locales, goal_cases)
  case (1 os op h w A ps out w')
  show ?case using effect_open(2) [OF enter_effect [OF 1(1) handles_onlyD(1) [OF 1(3)]]] 1(4,5) by simp
next
  case (2 os op h w A k w')
  show ?case using effect_open(4) [OF enter_effect [OF 2(1) handles_onlyD(1) [OF 2(3)]]] 2(4) by simp
next
  case (3 os w h k A ps out w')
  show ?case using effect_open(2) [OF resume_effect(1) [OF 3(1) handles_onlyD(2) [OF 3(2)]]] 3(3,4) by simp
next
  case (4 os w h k A ps k' w')
  show ?case using effect_open(4) [OF resume_effect(1) [OF 4(1) handles_onlyD(2) [OF 4(2)]]] 4(3) by simp
qed

subsection \<open>The first configuration\<close>

lemma boot_good:
  assumes boot: "channel_boot os cap w = Some s" and cap: "i32 cap" and free: "mutex_state (fresh w) w = Some False"
  shows "channel.good cap (fresh w) (decrefs (calls w)) (\<lambda>r. balance r (calls w)) s" 
    "sleepers cv (agents s) = 0" "\<And>K. sleepers_in cv K (agents s)"
proof -
  have "\<not> cap \<le> 0" using boot by (auto simp: channel_boot_def sync_channel_new_def sync_array_size_or_abort_def os_defs bind_eq_Some_conv split: if_splits)
  then have ok: "ring_ok (replicate (nat cap) None) cap 0 0 0" using cap by (simp add: ring_ok_initial)
  have "channel.good cap (fresh w) (decrefs (calls w)) (\<lambda>r. balance r (calls w)) s \<and> sleepers cv (agents s) = 0 \<and> (\<forall>K. sleepers_in cv K (agents s))"
    using boot free ok
    by (auto simp: channel_boot_def sync_channel_new_def sync_array_size_or_abort_def os_defs bind_eq_Some_conv sync_channel_receiver_def
      channel.good_iff channel_inv_def mutex_state_def mutex_run_append core_inv_def channel_ok_def sync_channel_wrap_def i32_def INT32_MAX_def INT32_MIN_def queue_def ring_list_empty channel_resources_def split: if_splits)
  then show "channel.good cap (fresh w) (decrefs (calls w)) (\<lambda>r. balance r (calls w)) s" 
    "sleepers cv (agents s) = 0" "\<And>K. sleepers_in cv K (agents s)" by auto
qed

lemma reach_channel_inv:
  assumes "channel_boot os cap w = Some s" "i32 cap" "mutex_state (fresh w) w = Some False"
    "reach P (channel_monitor (fresh w)) s t"
  shows "channel_inv cap (fresh w) (decrefs (calls w)) (\<lambda>r. balance r (calls w))
    (wrld t) (image_mset fst (agents t)) (past t)"
  by (rule channel.reach_inv [OF assms(4) boot_good(1) [OF assms(1-3)]])

lemma waiters_are_receivers:
  "all_pending channel_kok A \<Longrightarrow> sleepers_in Readable (\<lambda>k. \<not> is_send k) A \<Longrightarrow>
     roused (\<lambda>k. \<not> is_send k) A + sleepers Readable A \<le> receivers_in (image_mset fst A)"
  by (induction A rule: mode_induct) (auto simp: channel_kok_def)

subsection \<open>Every call is defined\<close>

lemma send_commit_total:
  "mem w a = Some c \<Longrightarrow> channel_ok c \<Longrightarrow> count c \<noteq> capacity c \<Longrightarrow> send_commit os a v e w \<noteq> None"
  by (simp add: send_commit_eq Let_def)

lemma send_loop_total:
  "mem w a = Some c \<Longrightarrow> channel_ok c \<Longrightarrow> sync_sender_send_loop os a v e w \<noteq> None"
  using send_commit_total [of w a c os v e] by (auto simp: sync_sender_send_loop_def)

lemma receive_loop_total:
  "mem w a = Some c \<Longrightarrow> channel_ok c \<Longrightarrow> sync_channel_receive_loop os a block e w \<noteq> None"
  by (cases "count c = 0") (simp add: sync_channel_receive_loop_def os_defs, simp add: receive_loop_eq Let_def)

lemma core_release_total:
  assumes "os_ok os" "mem w a = Some c" "channel_ok c"
  shows "sync_channel_core_release os a w \<noteq> None"
  using assms by (simp add: sync_channel_core_release_def os_defs release_all_slots)

lemma finalize_ok:
  assumes ok: "os_ok os" and a: "core h = Some a" and m: "mem w a = Some c"
    and i: "i32 (senders c)" "role h = 1 \<Longrightarrow> 0 < senders c"
  shows "sync_channel_finalize os h w = sync_channel_core_release os a
    (w\<lparr>calls := calls w @ drop_calls a h c, mem := (mem w)(a \<mapsto> dropped h c)\<rparr>)"
proof -
  have sub: "role h = 1 \<Longrightarrow> i32_sub (senders c) 1 = Some (senders c - 1)"
    using i by (simp add: i32_sub_one)
  have same: "(mem w)(a \<mapsto> c) = mem w" using m by auto
  consider "role h = 1" "senders c = 1" | "role h = 1" "senders c \<noteq> 1"
    | "role h = 2" "receiver_alive c \<noteq> 0" | "role h \<noteq> 1" "\<not> closes h c"
    by (auto simp: closes_def)
  then show ?thesis
    by cases (use ok a m sub same in \<open>auto simp: sync_channel_finalize_def wake_both_or_abort_def os_defs
      drop_calls_def closes_def dropped_def\<close>)
qed

lemma finalize_total:
  assumes ok: "os_ok os" and a: "core h = Some a" "mem w a = Some c" "channel_ok c"
    and i: "i32 (senders c)" "role h = 1 \<Longrightarrow> 0 < senders c"
  shows "sync_channel_finalize os h w \<noteq> None"
  using finalize_ok [OF ok a(1,2) i(1)] i(2) core_release_total [OF ok, of _ a "dropped h c"] a(3) by simp

lemma enter_total:
  assumes inv: "channel_inv cap a D B w (add_mset h H) ps" and may: "channel_may op h"
    and os: "op = Finalize \<Longrightarrow> os_ok os" and room: "op = Share \<Longrightarrow> int (Suc (size H)) < INT32_MAX"
  shows "channel_enter os op h w \<noteq> None"
  using inv
proof (rule channel_inv_live)
  fix c assume *: "mem w a = Some c" "core_inv cap c (add_mset h H)" "channel_ok c" "core h = Some a"
  have sz: "senders_in (add_mset h H) \<le> Suc (size H)"
    using *(2) size_roles [of "add_mset h H"] by (simp add: core_inv_def)
  show ?thesis
  proof (cases op)
    case Share
    then have "i32_add (senders c) 1 \<noteq> None" using sz room *(2)
      by (auto simp: core_inv_def i32_add_def i32_def INT32_MAX_def INT32_MIN_def)
    with Share show ?thesis using * by (auto simp: sync_sender_share_def os_defs)
  next
    case (TrySend v)
    then show ?thesis using * send_commit_total [OF _ *(3), of _ a os v]
      by (auto simp: sync_sender_try_send_def sync_channel_test_take_next_operation_error_def send_back_def os_defs)
  next
    case (Send v)
    then show ?thesis using * send_loop_total [OF _ *(3), of _ a os v]
      by (auto simp: sync_sender_send_start_def os_defs)
  next
    case TryRecv
    then show ?thesis using * receive_loop_total [OF _ *(3), of _ a os]
      by (auto simp: sync_channel_receive_start_def os_defs)
  next
    case Recv
    then show ?thesis using * receive_loop_total [OF _ *(3), of _ a os]
      by (auto simp: sync_channel_receive_start_def os_defs)
  next
    case Finalize
    then show ?thesis using finalize_total [OF os *(4,1,3)] *(2) by (auto simp: core_inv_def)
  qed (use * in \<open>auto simp: sync_sender_close_def sync_receiver_close_def sync_receiver_len_def close_channel_def os_defs\<close>)
qed

lemma resume_total:
  assumes inv: "channel_inv cap a D B w (add_mset h H) ps"
  shows "channel_resume os k h w \<noteq> None"
  using inv
proof (rule channel_inv_live)
  fix c assume *: "mem w a = Some c" "channel_ok c" "core h = Some a"
  show ?thesis
  proof (cases k)
    case (SendK v e)
    then show ?thesis using * send_loop_total [OF _ *(2), of _ a os v]
      by (auto simp: sync_sender_send_wake_def os_defs)
  next
    case (RecvK e)
    then show ?thesis using * receive_loop_total [OF _ *(2), of _ a os]
      by (auto simp: sync_channel_receive_wake_def os_defs)
  qed
qed

subsection \<open>Refinement\<close>

lemma abs_fields [simp]:
  "items (abs_channel c) = queue c" "bound (abs_channel c) = nat (capacity c)"
  "is_open (abs_channel c) = (closed c = 0)" "listening (abs_channel c) = (receiver_alive c \<noteq> 0)"
  "producers (abs_channel c) = nat (senders c)"
  by (simp_all add: abs_channel_def)

lemma abs_pushed: "channel_ok c \<Longrightarrow> count c \<noteq> capacity c \<Longrightarrow> abs_channel (pushed v c) = (abs_channel c)\<lparr>items := queue c @ [v]\<rparr>"
  by (simp add: abs_channel_def pushed_ok)

lemma queue_full: "channel_ok c \<Longrightarrow> length (queue c) = nat (capacity c) \<longleftrightarrow> count c = capacity c"
  using ok_nat(3,4) [of c] by (auto simp: queue_def ring_list_length)

lemma queue_nil: "channel_ok c \<Longrightarrow> count c = 0 \<longleftrightarrow> queue c = []"
  using ok_nat(3,4) [of c] by (auto simp: queue_def ring_list_empty dest: arg_cong [of _ "[]" length] simp: ring_list_length)

lemma send_loop_refines:
  assumes ok: "os_ok os" and c: "mem w a = Some c" "channel_ok c"
    and run: "sync_sender_send_loop os a v 0 w = Some (out, w')"
  shows "\<exists>c'. mem w' a = Some c' \<and> spec_call err h (Send v) (abs_channel c) = (map_option Sent (returned out), abs_channel c')"
  using run c by (auto simp: send_loop_ok [OF ok c] spec_send_def queue_full abs_pushed split: if_splits)

lemma receive_loop_refines:
  assumes ok: "os_ok os" and c: "mem w a = Some c" "channel_ok c" and op: "op = (if block \<noteq> 0 then Recv else TryRecv)"
    and run: "sync_channel_receive_loop os a block 0 w = Some (out, w')"
  shows "\<exists>c'. mem w' a = Some c' \<and> spec_call err h op (abs_channel c) = (map_option Received (returned out), abs_channel c')"
proof (cases "count c = 0")
  case True
  then show ?thesis
    using run c op queue_nil [OF c(2)] by (auto simp: receive_loop_ok [OF ok c] spec_receive_def split: if_splits)
next
  case False
  then obtain v where "slots c ! nat (head c) = Some v" "queue c = v # queue (popped c)"
    using popped_ok [OF c(2)] by blast
  then show ?thesis
    using False run c op by (auto simp: receive_loop_ok [OF ok c] spec_receive_def abs_channel_def)
qed

lemma share_refines:
  assumes ok: "os_ok os" and c: "core h = Some a" "mem w a = Some c" "0 \<le> senders c" "role h = 1"
    and run: "sync_sender_share os h w = Some ((g, st), w')"
  shows "g = Some h" "st = 0" "map_option abs_channel (mem w' a) = Some ((abs_channel c)\<lparr>producers := Suc (nat (senders c))\<rparr>)"
  using run c ok
  by (auto simp: sync_sender_share_def sync_channel_wrap_def os_defs i32_add_def abs_channel_def queue_def nat_add_distrib
      bind_eq_Some_conv split: if_splits)

lemma abs_dropped: "abs_channel ((dropped h c)\<lparr>refs := r\<rparr>) = spec_drop h (abs_channel c)" if "0 \<le> senders c" "role h = 1 \<or> role h = 2"
  using that by (auto simp: dropped_def closes_def spec_drop_def abs_channel_def queue_def nat_diff_distrib)

lemma finalize_refines:
  assumes inv: "channel_inv cap a D B w (add_mset h H) ps" and c: "mem w a = Some c"
    and run: "sync_channel_finalize os h w = Some w'"
  shows "if H = {#} then mem w' a = None else map_option abs_channel (mem w' a) = Some (spec_drop h (abs_channel c))"
proof (cases "H = {#}")
  case True
  then show ?thesis using finalize_inv [OF inv run] by (simp add: channel_inv_def)
next
  case False
  have i: "core_inv cap c (add_mset h H)" "core h = Some a" using inv c by (auto simp: channel_inv_def)
  have "refs (dropped h c) - 1 = of_nat (size H)" "of_nat (size H) \<noteq> (0 :: 32 word)"
    using i(1) core_inv_size [OF i(1)] refs_zero_iff [of "size H"] False by (auto simp: core_inv_def)
  moreover have "sync_channel_core_release os a (w\<lparr>calls := calls w @ drop_calls a h c, mem := (mem w)(a \<mapsto> dropped h c)\<rparr>) = Some w'"
    by (rule finalize_eq [OF i(2) c _ _ run]) (use i(1) in \<open>auto simp: core_inv_def\<close>)
  ultimately have "mem w' a = Some ((dropped h c)\<lparr>refs := refs c - 1\<rparr>)"
    using core_release_live [of _ a "dropped h c" os] by fastforce
  then show ?thesis using i(1) False abs_dropped [of c h] by (auto simp: core_inv_def)
qed

lemma call_refines:
  assumes ok: "os_ok os" and c: "core h = Some a" "mem w a = Some c" "channel_ok c"
    and op: "op \<noteq> Share" "op \<noteq> Finalize" and run: "channel_enter os op h w = Some (out, w')"
  shows "\<exists>c'. mem w' a = Some c' \<and> spec_call (next_operation_error w) h op (abs_channel c) = (returned out, abs_channel c')"
proof (cases op)
  case (TrySend v)
  then show ?thesis using run c ok
    by (auto simp: sync_sender_try_send_def sync_channel_test_take_next_operation_error_def send_back_def os_defs
        send_commit_eq spec_send_def queue_full abs_pushed split: if_splits)
next
  case (Send v)
  then obtain out' where o: "out = map_outcome Sent id out'"
      "sync_sender_send_loop os a v 0 (w\<lparr>calls := calls w @ [(MutexLock a, 0)]\<rparr>) = Some (out', w')"
    using run c ok by (auto simp: sync_sender_send_start_def os_defs)
  then show ?thesis using Send send_loop_refines [OF ok _ c(3) o(2)] c(2) by simp
next
  case TryRecv
  then obtain out' where o: "out = map_outcome Received id out'"
      "sync_channel_receive_loop os a 0 0 (w\<lparr>calls := calls w @ [(MutexLock a, 0)]\<rparr>) = Some (out', w')"
    using run c ok by (auto simp: sync_channel_receive_start_def os_defs)
  then show ?thesis using TryRecv receive_loop_refines [OF ok _ c(3) _ o(2), of TryRecv] c(2) by simp
next
  case Recv
  then obtain out' where o: "out = map_outcome Received id out'"
      "sync_channel_receive_loop os a 1 0 (w\<lparr>calls := calls w @ [(MutexLock a, 0)]\<rparr>) = Some (out', w')"
    using run c ok by (auto simp: sync_channel_receive_start_def os_defs)
  then show ?thesis using Recv receive_loop_refines [OF ok _ c(3) _ o(2), of Recv] c(2) by simp
qed (use op run c ok in \<open>auto simp: sync_sender_close_def sync_receiver_close_def sync_receiver_len_def close_channel_def os_defs
      abs_channel_def queue_def ring_list_length dest!: ok_nat(4)\<close>)

lemma enter_refines:
  assumes ok: "os_ok os" and inv: "channel_inv cap a D B w (add_mset h H) ps" and may: "channel_may op h"
    and c: "mem w a = Some c" and run: "channel_enter os op h w = Some (out, w')"
  shows "\<exists>q. spec_call (next_operation_error w) h op (abs_channel c) = (returned out, q) \<and>
    (if op = Finalize \<and> H = {#} then mem w' a = None else map_option abs_channel (mem w' a) = Some q)"
proof -
  have i: "core_inv cap c (add_mset h H)" "core h = Some a" using inv c by (auto simp: channel_inv_def)
  consider (share) "op = Share" | (drop) "op = Finalize" | (call) "op \<noteq> Share" "op \<noteq> Finalize" by blast
  then show ?thesis
  proof cases
    case share
    then obtain g st where g: "out = Return (Handle g st)" "sync_sender_share os h w = Some ((g, st), w')" using run by auto
    have "0 \<le> senders c" "role h = 1" using i(1) may share by (auto simp: core_inv_def)
    then show ?thesis using share_refines [OF ok i(2) c _ _ g(2)] share g(1) by simp
  next
    case drop
    then have "out = Return Dropped" "sync_channel_finalize os h w = Some w'" using run by auto
    then show ?thesis using finalize_refines [OF inv c, of os w'] drop by simp
  next
    case call
    then show ?thesis using call_refines [OF ok i(2) c _ call run] i(1) by (auto simp: core_inv_def)
  qed
qed

lemma resume_refines:
  assumes ok: "os_ok os" and c: "core h = Some a" "mem w a = Some c" "channel_ok c" and k: "pending_error k = 0"
    and run: "channel_resume os k h w = Some (out, w')"
  shows "\<exists>c'. mem w' a = Some c' \<and> spec_call err h (channel_pending k) (abs_channel c) = (returned out, abs_channel c')"
proof (cases k)
  case (SendK v e)
  then obtain out' where o: "out = map_outcome Sent id out'"
      "sync_sender_send_loop os a v 0 (w\<lparr>calls := calls w @ [(CondWait a Writable, 0)]\<rparr>) = Some (out', w')"
    using run c k ok by (auto simp: sync_sender_send_wake_def os_defs)
  then show ?thesis using SendK send_loop_refines [OF ok _ c(3) o(2)] c(2) by simp
next
  case (RecvK e)
  then obtain out' where o: "out = map_outcome Received id out'"
      "sync_channel_receive_loop os a 1 0 (w\<lparr>calls := calls w @ [(CondWait a Readable, 0)]\<rparr>) = Some (out', w')"
    using run c k ok by (auto simp: sync_channel_receive_wake_def os_defs)
  then show ?thesis using RecvK receive_loop_refines [OF ok _ c(3) _ o(2), of Recv] c(2) by simp
qed

subsection \<open>Concrete runs\<close>

lemmas channel_eval = channel_boot_def sync_channel_new_def sync_channel_receiver_def sync_channel_wrap_def
  sync_array_size_or_abort_def os_defs quiet_os_def posix_status_def empty_world_def
  exec_step_def channel_monitor_def settle_list_def record_past_def new_calls_def others_def wake_one_def
  sync_sender_try_send_def sync_sender_send_start_def sync_sender_send_loop_def send_commit_def send_back_def
  sync_sender_send_wake_def sync_channel_receive_wake_def
  sync_channel_receive_start_def sync_channel_receive_loop_def sync_channel_test_take_next_operation_error_def
  sync_sender_close_def close_channel_def sync_sender_share_def
  cell_set_def cell_get_def i32_add_def i32_sub_def i32_rem_def c_rem_def i32_def INT32_MAX_def INT32_MIN_def
  sync_channel_finalize_def sync_channel_core_release_def wake_both_or_abort_def asleep_on_def

lemma channel_demo_reach:
  assumes "channel_demo xs = Some t" "P quiet_os"
  shows "\<exists>s. channel_boot quiet_os 1 empty_world = Some s \<and> reach P (channel_monitor (fresh empty_world)) s (config_of t)"
proof -
  obtain s where s: "channel_boot quiet_os 1 empty_world = Some s"
      "exec (channel_monitor 0) quiet_os xs
       (wrld s, [(sync_channel_wrap 0 1, Ready), (sync_channel_wrap 0 2, Ready)], []) = Some t"
    using assms by (auto simp: channel_demo_def bind_eq_Some_conv)
  have "s = config_of (wrld s, [(sync_channel_wrap 0 1, Ready), (sync_channel_wrap 0 2, Ready)], [])"
    using s(1) by (auto simp: channel_eval)
  then show ?thesis using s(1) exec_reach [OF s(2), of P] assms(2) by (auto simp: empty_world_def)
qed

lemma channel_demo_ok: "i32 1" "mutex_state (fresh empty_world) empty_world = Some False"
  by (simp_all add: i32_def INT32_MIN_def INT32_MAX_def empty_world_def mutex_state_def)

section \<open>Properties\<close>

text \<open>
  C1. First in, first out, under every schedule, every failure of the operating system
  and every number of senders: in any reachable configuration the messages of the successful
  sends, in the order of the sends, are the messages received so far followed by the contents
  of the buffer, which never holds more than \<open>cap\<close> of them. After the core is freed, what was
  received is still a prefix of what was sent.
\<close>

theorem channel_fifo:
  assumes "channel_boot os cap w = Some s" "i32 cap" "mutex_state (fresh w) w = Some False"
    "reach P (channel_monitor (fresh w)) s t"
  shows "case mem (wrld t) (fresh w) of
      Some c \<Rightarrow> sent_of (past t) = received_of (past t) @ queue c \<and> length (queue c) \<le> nat cap
    | None \<Rightarrow> \<exists>rest. sent_of (past t) = received_of (past t) @ rest"
  using reach_channel_inv [OF assms]
  by (auto simp: channel_inv_def core_inv_def channel_ok_def queue_def ring_list_length 
      dest: ring_okD(7) split: if_splits)

theorem channel_fifo_witness:
  "\<exists>t. channel_demo [Call (TrySend 7) 0, Call (Send 8) 1, Call TryRecv 0, Resume 0] = Some t \<and>
     sent_of (past (config_of t)) = [7, 8] \<and> received_of (past (config_of t)) = [7] \<and>
     (\<exists>c. mem (wrld (config_of t)) 0 = Some c \<and> queue c = [8])"
proof -
  obtain t where t: "channel_demo [Call (TrySend 7) 0, Call (Send 8) 1, Call TryRecv 0, Resume 0] = Some t"
    and p: "sent_of (past (config_of t)) = [7, 8]" "received_of (past (config_of t)) = [7]"
      "mem (wrld (config_of t)) 0 \<noteq> None"
    by (simp add: channel_demo_def channel_eval sent_of_def received_of_def)
  obtain s where s: "channel_boot quiet_os 1 empty_world = Some s"
      "reach (\<lambda>_. True) (channel_monitor (fresh empty_world)) s (config_of t)"
    using channel_demo_reach [OF t, of "\<lambda>_. True"] by blast
  show ?thesis
    using channel_fifo [OF s(1) channel_demo_ok s(2)] t p by (auto simp: empty_world_def)
qed

text \<open>
  C23. Memory. While a handle is left, the core is allocated, its reference count is the
  exact number of handles (without wrapping around), and no queued message has been released.
  When the last handle goes, the core, the buffer, the mutex and both condition variables have
  been given back exactly once, and every message that was sent and not received has had its
  reference count decremented exactly once.
\<close>

theorem channel_lifetime:
  assumes "channel_boot os cap w = Some s" "i32 cap" "mutex_state (fresh w) w = Some False"
    "reach P (channel_monitor (fresh w)) s t"
  shows "case mem (wrld t) (fresh w) of
      Some c \<Rightarrow> agents t \<noteq> {#} \<and> refs c = of_nat (size (agents t)) \<and> size (agents t) < 2 ^ 32 \<and>
        decrefs (calls (wrld t)) = decrefs (calls w) \<and>
        (\<forall>r. balance r (calls (wrld t)) = balance r (calls w) + owning (channel_resources (fresh w)) r)
    | None \<Rightarrow> agents t = {#} \<and> (\<forall>r. balance r (calls (wrld t)) = balance r (calls w)) \<and>
        (\<exists>lost. sent_of (past t) = received_of (past t) @ lost \<and>
          (\<exists>rel. decrefs (calls (wrld t)) = decrefs (calls w) @ rel \<and> mset rel = mset lost))"
proof (cases "agents t = {#}")
  case True
  then show ?thesis using reach_channel_inv [OF assms] by (auto simp: channel_inv_def)
next
  case False
  then obtain c where c: "mem (wrld t) (fresh w) = Some c" "core_inv cap c (image_mset fst (agents t))"
    using reach_channel_inv [OF assms] by (auto simp: channel_inv_def)
  show ?thesis using False c core_inv_size [OF c(2)] reach_channel_inv [OF assms] 
    by (auto simp: channel_inv_def core_inv_def)
qed

theorem channel_lifetime_witness:
  "\<exists>t. channel_demo [Call (TrySend 7) 0, Call Finalize 0, Call Finalize 0] = Some t \<and>
     agents (config_of t) = {#} \<and> decrefs (calls (wrld (config_of t))) = [7] \<and>
     balance (BlockRes CoreBlock) (calls (wrld (config_of t))) = 0"
proof -
  obtain t where t: "channel_demo [Call (TrySend 7) 0, Call Finalize 0, Call Finalize 0] = Some t"
    and p: "sent_of (past (config_of t)) = [7]" "received_of (past (config_of t)) = []"
      "mem (wrld (config_of t)) 0 = None"
    by (simp add: channel_demo_def channel_eval sent_of_def received_of_def)
  obtain s where s: "channel_boot quiet_os 1 empty_world = Some s"
      "reach (\<lambda>_. True) (channel_monitor (fresh empty_world)) s (config_of t)"
    using channel_demo_reach [OF t, of "\<lambda>_. True"] by blast
  show ?thesis
    using channel_lifetime [OF s(1) channel_demo_ok s(2)] t p by (auto simp: empty_world_def)
qed

text \<open>
  C13. No lost wake-up for the receiver: with a working operating system, whenever the
  receiver is asleep in \<open>recv\<close> the channel is open and empty, so a message or a close has never
  been missed.
\<close>

theorem channel_no_lost_receiver:
  assumes boot: "channel_boot os cap w = Some s" "i32 cap" "mutex_state (fresh w) w = Some False"
    and run: "reach os_ok (channel_monitor (fresh w)) s t" and asleep: "0 < sleepers Readable (agents t)"
  shows "\<exists>c. mem (wrld t) (fresh w) = Some c \<and> count c = 0 \<and> closed c = 0"
proof -
  note g = boot_good [OF boot] and inv = reach_channel_inv [OF boot run]
  have a: "readable.awake_enough (fresh w) t"
    by (rule readable.reach_awake [OF run g(1)]) (simp add: readable.awake_enough_def g(2,3))
  have o: "close_readable.sleep_blocked (fresh w) t"
    by (rule close_readable.reach_sleep_blocked [OF run g(1)]) (simp add: close_readable.sleep_blocked_def g(2))
  obtain c where c: "mem (wrld t) (fresh w) = Some c" "closed c = 0"
    using o asleep by (auto simp: close_readable.sleep_blocked_def channel_open_def split: option.splits)
  have "core_inv cap c (image_mset fst (agents t))" using inv c by (auto simp: channel_inv_def split: if_splits)
  then have r: "receivers_in (image_mset fst (agents t)) \<le> 1" and n: "channel_ok c" by (simp_all add: core_inv_def)
  have "roused (\<lambda>k. \<not> is_send k) (agents t) = 0"
    using waiters_are_receivers [of "agents t"] channel.reach_good [OF run g(1)] a r asleep
    by (auto simp: channel.good_iff readable.awake_enough_def)
  then have "ready_of c = 0" using a asleep c by (simp add: readable.awake_enough_def channel_ready_def)
  then show ?thesis using c ok_nat(4) [OF n] by (auto simp: ready_of_def)
qed

theorem channel_no_lost_receiver_witness:
  "\<exists>t c. channel_demo [Call Recv 1] = Some t \<and> sleepers Readable (agents (config_of t)) = 1 \<and>
     mem (wrld (config_of t)) 0 = Some c \<and> count c = 0 \<and> closed c = 0"
proof -
  obtain t where t: "channel_demo [Call Recv 1] = Some t" and p: "sleepers Readable (agents (config_of t)) = 1"
    by (simp add: channel_demo_def channel_eval)
  obtain s where s: "channel_boot quiet_os 1 empty_world = Some s"
      "reach os_ok (channel_monitor (fresh empty_world)) s (config_of t)"
    using channel_demo_reach [OF t, of os_ok] by auto
  show ?thesis
    using channel_no_lost_receiver [OF s(1) channel_demo_ok s(2)] t p by (auto simp: empty_world_def)
qed

text \<open>
  C14. No lost wake-up for senders: whenever a sender is asleep in \<open>send\<close>, the channel is
  open with a live receiver, and for every free cell of the buffer there is a sender that has
  been woken and will use it.
\<close>

theorem channel_no_lost_sender:
  assumes boot: "channel_boot os cap w = Some s" "i32 cap" "mutex_state (fresh w) w = Some False"
    and run: "reach os_ok (channel_monitor (fresh w)) s t" and asleep: "0 < sleepers Writable (agents t)"
  shows "\<exists>c. mem (wrld t) (fresh w) = Some c \<and> closed c = 0 \<and> receiver_alive c \<noteq> 0 \<and>
    cap - count c \<le> int (roused is_send (agents t))"
proof -
  note g = boot_good [OF boot] and inv = reach_channel_inv [OF boot run]
  have a: "writable.awake_enough (fresh w) t"
    by (rule writable.reach_awake [OF run g(1)]) (simp add: writable.awake_enough_def g(2,3))
  have o: "close_writable.sleep_blocked (fresh w) t"
    by (rule close_writable.reach_sleep_blocked [OF run g(1)]) (simp add: close_writable.sleep_blocked_def g(2))
  obtain c where c: "mem (wrld t) (fresh w) = Some c" "closed c = 0" "receiver_alive c \<noteq> 0"
    using o asleep by (auto simp: close_writable.sleep_blocked_def channel_accepting_def split: option.splits)
  then have "free_of c \<le> roused is_send (agents t)"
    using a asleep by (simp add: writable.awake_enough_def channel_free_def)
  moreover have "capacity c = cap" using inv c by (auto simp: channel_inv_def core_inv_def split: if_splits)
  ultimately show ?thesis using c by (auto simp: free_of_def)
qed

theorem channel_no_lost_sender_witness:
  "\<exists>t c. channel_demo [Call (TrySend 7) 0, Call (Send 8) 1] = Some t \<and>
     sleepers Writable (agents (config_of t)) = 1 \<and> mem (wrld (config_of t)) 0 = Some c \<and>
     1 - count c \<le> 0 \<and> receiver_alive c \<noteq> 0"
proof -
  obtain t where t: "channel_demo [Call (TrySend 7) 0, Call (Send 8) 1] = Some t"
    and p: "sleepers Writable (agents (config_of t)) = 1" "roused is_send (agents (config_of t)) = 0"
    by (simp add: channel_demo_def channel_eval)
  obtain s where s: "channel_boot quiet_os 1 empty_world = Some s"
      "reach os_ok (channel_monitor (fresh empty_world)) s (config_of t)"
    using channel_demo_reach [OF t, of os_ok] by auto
  show ?thesis
    using channel_no_lost_sender [OF s(1) channel_demo_ok s(2)] t p by (auto simp: empty_world_def)
qed

text \<open>
  C6. Refinement: take any reachable configuration, reached under any behaviour of the system,
  and the next piece of code of any operation: an operation that a handle starts, the making
  of a further sender and the dropping of a handle included, or the rest of a call that was
  woken. As long as the calls of the system made by this piece succeed, it does to the circular
  buffer exactly what the bounded queue of the specification does, with the same result, and
  blocks exactly when the specification does; an injected error is reported and changes
  nothing. The core is gone exactly when the last handle has been dropped.
\<close>

theorem channel_refines_queue:
  assumes boot: "channel_boot os cap w = Some s" "i32 cap" "mutex_state (fresh w) w = Some False"
    and run: "reach P (channel_monitor (fresh w)) s t" and ok: "os_ok os'" and c: "mem (wrld t) (fresh w) = Some c"
  shows "((h, Ready) \<in># agents t \<longrightarrow> channel_may op h \<longrightarrow> channel_enter os' op h (wrld t) = Some (out, w') \<longrightarrow>
      (\<exists>q. spec_call (next_operation_error (wrld t)) h op (abs_channel c) = (returned out, q) \<and>
        (if op = Finalize \<and> size (agents t) = 1 then mem w' (fresh w) = None
         else map_option abs_channel (mem w' (fresh w)) = Some q))) \<and>
    ((h, Runnable k) \<in># agents t \<longrightarrow> channel_resume os' k h (wrld t) = Some (out, w') \<longrightarrow>
      (\<exists>c'. mem w' (fresh w) = Some c' \<and>
        spec_call (next_operation_error (wrld t)) h (channel_pending k) (abs_channel c) = (returned out, abs_channel c')))"
proof (intro conjI impI)
  note inv = reach_channel_inv [OF boot run] and g = channel.reach_good [OF run boot_good(1) [OF boot]]
  have h: "x \<in># agents t \<Longrightarrow> core (fst x) = Some (fresh w)" for x using inv by (auto simp: channel_inv_def)
  have ok': "channel_ok c" using inv c by (auto simp: channel_inv_def core_inv_def split: if_splits)
  show "\<exists>q. spec_call (next_operation_error (wrld t)) h op (abs_channel c) = (returned out, q) \<and>
      (if op = Finalize \<and> size (agents t) = 1 then mem w' (fresh w) = None
       else map_option abs_channel (mem w' (fresh w)) = Some q)"
    if *: "(h, Ready) \<in># agents t" "channel_may op h" "channel_enter os' op h (wrld t) = Some (out, w')"
  proof -
    obtain A where A: "agents t = add_mset (h, Ready) A" using *(1) by (meson multi_member_split)
    have "size (agents t) = 1 \<longleftrightarrow> image_mset fst A = {#}" by (simp add: A)
    then show ?thesis using enter_refines [OF ok inv [unfolded A image_mset_add_mset fst_conv] *(2) c *(3)] by (simp only:)
  qed
  show "\<exists>c'. mem w' (fresh w) = Some c' \<and>
      spec_call (next_operation_error (wrld t)) h (channel_pending k) (abs_channel c) = (returned out, abs_channel c')"
    if "(h, Runnable k) \<in># agents t" "channel_resume os' k h (wrld t) = Some (out, w')"
  proof -
    have "pending_error k = 0" using g that(1) by (auto simp: channel.good_iff all_pending_def channel_kok_def dest!: bspec)
    then show ?thesis using resume_refines [OF ok _ c ok' _ that(2)] h [OF that(1)] by simp
  qed
qed

theorem channel_refines_queue_witness:
  "\<exists>t c out w'. channel_demo [Call (TrySend 7) 0] = Some t \<and> mem (wrld (config_of t)) 0 = Some c \<and>
     channel_enter quiet_os Finalize (sync_channel_wrap 0 1) (wrld (config_of t)) = Some (out, w') \<and>
     map_option abs_channel (mem w' 0) = Some ((abs_channel c)\<lparr>producers := 0, is_open := False\<rparr>)"
proof -
  obtain t c out w' where t: "channel_demo [Call (TrySend 7) 0] = Some t"
    and p: "mem (wrld (config_of t)) 0 = Some c" "(sync_channel_wrap 0 1, Ready) \<in># agents (config_of t)"
      "size (agents (config_of t)) = 2" "senders c = 1"
      "channel_enter quiet_os Finalize (sync_channel_wrap 0 1) (wrld (config_of t)) = Some (out, w')"
    by (simp add: channel_demo_def channel_eval)
  obtain s where s: "channel_boot quiet_os 1 empty_world = Some s"
      "reach (\<lambda>_. True) (channel_monitor (fresh empty_world)) s (config_of t)"
    using channel_demo_reach [OF t, of "\<lambda>_. True"] by blast
  have "map_option abs_channel (mem w' 0) = Some ((abs_channel c)\<lparr>producers := 0, is_open := False\<rparr>)"
    using channel_refines_queue [OF s(1) channel_demo_ok s(2) quiet_os_ok, of c "sync_channel_wrap 0 1" Finalize out w'] p
    by (auto simp: empty_world_def spec_drop_def sync_channel_wrap_def)
  with t p show ?thesis by blast
qed

text \<open>
  C29. No operation aborts or runs into undefined behaviour: in every reachable
  configuration an idle handle can start every operation of its role and a woken call can go
  on, whatever the operating system reports, with two exceptions. The making of a further
  sender needs fewer than \<open>INT32_MAX\<close> handles, because the code adds 1 to \<open>senders\<close> without a
  check; the dropping of a handle needs calls of the system that succeed, because it aborts
  otherwise.
\<close>

theorem channel_calls_defined:
  assumes boot: "channel_boot os cap w = Some s" "i32 cap" "mutex_state (fresh w) w = Some False"
    and run: "reach P (channel_monitor (fresh w)) s t"
  shows "((h, Ready) \<in># agents t \<longrightarrow> channel_may op h \<longrightarrow> (op = Finalize \<longrightarrow> os_ok os') \<longrightarrow>
      (op = Share \<longrightarrow> int (size (agents t)) < INT32_MAX) \<longrightarrow> channel_enter os' op h (wrld t) \<noteq> None) \<and>
    ((h, Runnable k) \<in># agents t \<longrightarrow> channel_resume os' k h (wrld t) \<noteq> None)"
proof (intro conjI impI)
  note inv = reach_channel_inv [OF boot run]
  show "channel_enter os' op h (wrld t) \<noteq> None"
    if *: "(h, Ready) \<in># agents t" "channel_may op h" "op = Finalize \<longrightarrow> os_ok os'" "op = Share \<longrightarrow> int (size (agents t)) < INT32_MAX"
  proof -
    obtain A where A: "agents t = add_mset (h, Ready) A" using *(1) by (meson multi_member_split)
    show ?thesis
      by (rule enter_total [OF _ *(2)]) (use inv * A in auto)
  qed
  show "channel_resume os' k h (wrld t) \<noteq> None" if *: "(h, Runnable k) \<in># agents t"
  proof -
    obtain A where A: "agents t = add_mset (h, Runnable k) A" using * by (meson multi_member_split)
    show ?thesis by (rule resume_total) (use inv A in auto)
  qed
qed

theorem channel_calls_defined_witness:
  "\<exists>t. channel_demo [Call (TrySend 7) 0] = Some t \<and>
     channel_enter quiet_os Finalize (sync_channel_wrap 0 2) (wrld (config_of t)) \<noteq> None"
proof -
  obtain t where t: "channel_demo [Call (TrySend 7) 0] = Some t"
    and p: "(sync_channel_wrap 0 2, Ready) \<in># agents (config_of t)"
    by (simp add: channel_demo_def channel_eval)
  obtain s where s: "channel_boot quiet_os 1 empty_world = Some s"
      "reach (\<lambda>_. True) (channel_monitor (fresh empty_world)) s (config_of t)"
    using channel_demo_reach [OF t, of "\<lambda>_. True"] by blast
  show ?thesis
    using channel_calls_defined [OF s(1) channel_demo_ok s(2), of "sync_channel_wrap 0 2" Finalize quiet_os] t p by auto
qed

text \<open>
  The constructor reports a failure exactly when it returns no handle, touches no
  other core, and in that case has given everything back that it had acquired; otherwise it
  owns one mutex, two condition variables and two blocks.
\<close>

theorem channel_new_balanced:
  assumes "sync_channel_new os cap w = Some ((g, status), w')"
  shows "(g = None) = (status \<noteq> 0) \<and> (\<forall>b. b \<noteq> fresh w \<longrightarrow> mem w' b = mem w b) \<and>
    (mem w' (fresh w) = None) = (g = None) \<and>
    (\<forall>r. balance r (calls w') = balance r (calls w) +
       (if g = None then 0 else owning (channel_resources (fresh w)) r))"
  using assms
  by (auto simp: sync_channel_new_def os_defs bind_eq_Some_conv channel_resources_def split: if_splits)

theorem channel_new_balanced_witness:
  "\<exists>w'. sync_channel_new quiet_os 2 (empty_world\<lparr>next_init_error := 12\<rparr>) = Some ((None, 12), w') \<and>
     mem w' 0 = None \<and> (\<forall>r. balance r (calls w') = 0)"
proof -
  obtain w' where w': "sync_channel_new quiet_os 2 (empty_world\<lparr>next_init_error := 12\<rparr>) = Some ((None, 12), w')"
    by (simp add: channel_eval)
  show ?thesis
    using channel_new_balanced [OF w'] w' by (auto simp: empty_world_def)
qed

text \<open>
  Lock discipline: at every point of every run no operation has locked the mutex
  twice, unlocked it without holding it, waited without holding it or destroyed it while held,
  and no operation returns with the mutex locked, on any error path.
\<close>

theorem channel_mutex_discipline:
  assumes "channel_boot os cap w = Some s" "i32 cap" "mutex_state (fresh w) w = Some False"
    "reach P (channel_monitor (fresh w)) s t"
  shows "mutex_state (fresh w) (wrld t) = Some False"
  using reach_channel_inv [OF assms] by (simp add: channel_inv_def)

theorem channel_mutex_discipline_witness:
  "\<exists>t. channel_demo [Call Recv 1, Call (Send 7) 0, Resume 0] = Some t \<and>
     length (calls (wrld (config_of t))) = 15 \<and> mutex_state 0 (wrld (config_of t)) = Some False"
proof -
  obtain t where t: "channel_demo [Call Recv 1, Call (Send 7) 0, Resume 0] = Some t"
    and p: "length (calls (wrld (config_of t))) = 15"
    by (simp add: channel_demo_def channel_eval)
  obtain s where s: "channel_boot quiet_os 1 empty_world = Some s"
      "reach (\<lambda>_. True) (channel_monitor (fresh empty_world)) s (config_of t)"
    using channel_demo_reach [OF t, of "\<lambda>_. True"] by blast
  show ?thesis
    using channel_mutex_discipline [OF s(1) channel_demo_ok s(2)] t p by (auto simp: empty_world_def)
qed

text \<open>
  A receive that finds a message takes it out of the queue whatever the later calls report:
  a failure of the signal or of the unlock comes back together with the message.
\<close>

lemma receive_error_takes_message:
  assumes h: "core h = Some a" and c: "mem w a = Some c" "channel_ok c" "count c \<noteq> 0"
    and lock: "posix_status os (MutexLock a) (calls w) = 0"
    and fails: "posix_status os (CondSignal a Writable) (calls w @ [(MutexLock a, 0)]) \<noteq> 0"
  shows "\<exists>v e w'. sync_channel_receive_start os h block w = Some (Return (Some v, 0, e), w') \<and> e \<noteq> 0 \<and>
    mem w' a = Some (popped c) \<and> queue c = v # queue (popped c)"
proof -
  let ?w = "w\<lparr>calls := calls w @ [(MutexLock a, 0)]\<rparr>"
  have m: "mem ?w a = Some c" using c by simp
  obtain v where v: "slots c ! nat (head c) = Some v" "queue c = v # queue (popped c)"
    using popped_ok [OF c(2,3)] by blast
  show ?thesis
    using h lock fails v receive_loop_eq [OF m c(2,3), of os block 0]
    by (simp add: sync_channel_receive_start_def os_defs record_error_def)
qed

end
