(* ===== verification/Sync_OwnedBytes.thy ===== *)
theory Sync_OwnedBytes
  imports Sync_Monitor
begin

text \<open>
  The owned-bytes channel, \<^verbatim>\<open>src/src/channel/native.c\<close>: the bounded channel that copies
  every payload into memory of its own, with a limit on the size of a message and on the
  bytes in the queue. A send checks for room, gives the mutex up to allocate its copy and
  then starts again with the copy at hand, so it may find the channel full or closed after
  all; the pieces of \<open>sync_owned_bytes_submit\<close> below follow that loop.
\<close>

section \<open>State\<close>

type_synonym bytes = "8 word list"

text \<open>A \<open>NULL\<close> pointer to data is \<open>None\<close>.\<close>

record sync_owned_bytes_message_t =
  data :: "bytes option"
  mlength :: int

record sync_owned_bytes_channel_core_t =
  refs :: sync_arc_t
  slots :: "sync_owned_bytes_message_t option list"
  capacity :: int
  max_message_bytes :: int
  max_queued_bytes :: int
  queued_bytes :: int
  head :: int
  tail :: int
  count :: int
  senders :: int
  receiver_alive :: int
  closed :: int

record sync_owned_bytes_channel_handle_t =
  core :: "addr option"
  role :: int

text \<open>No MoonBit object is kept, so the type of objects is \<open>unit\<close>.\<close>

record owned_world = "(unit, sync_owned_bytes_channel_core_t) world" +
  next_init_error :: int
  next_operation_error :: int

section \<open>Messages\<close>

definition sync_owned_bytes_channel_test_take_next_operation_error :: "owned_world \<Rightarrow> int \<times> owned_world" where
  "sync_owned_bytes_channel_test_take_next_operation_error w =
     (let (error, next) = sync_test_atomic_take (next_operation_error w)
      in (error, w\<lparr>next_operation_error := next\<rparr>))"

text \<open>\<open>free\<close> of a pointer that may be \<open>NULL\<close>.\<close>

definition free_data :: "bytes option \<Rightarrow> owned_world \<Rightarrow> owned_world" where
  "free_data p w = (case p of None \<Rightarrow> w | Some bs \<Rightarrow> c_free DataBlock w)"

definition sync_owned_bytes_message_release :: "sync_owned_bytes_message_t option \<Rightarrow> owned_world \<Rightarrow> owned_world" where
  "sync_owned_bytes_message_release message w =
     (case message of None \<Rightarrow> w | Some m \<Rightarrow> c_free MessageBlock (free_data (data m) w))"

text \<open>Copying more bytes than the source has is undefined.\<close>

definition memcpy :: "bytes \<Rightarrow> int \<Rightarrow> bytes option" where
  "memcpy src n = (if 0 \<le> n \<and> nat n \<le> length src then Some (take (nat n) src) else None)"

definition sync_owned_bytes_message_copy ::
  "unit os \<Rightarrow> bytes \<Rightarrow> int \<Rightarrow> owned_world \<Rightarrow> (sync_owned_bytes_message_t \<times> owned_world) option" where
  "sync_owned_bytes_message_copy os bytes len w = do {
     w \<leftarrow> sync_alloc os MessageBlock w;
     if len > 0 then do {
       w \<leftarrow> sync_alloc os DataBlock w;
       bs \<leftarrow> memcpy bytes len;
       Some (\<lparr>data = Some bs, mlength = len\<rparr>, w)
     } else Some (\<lparr>data = None, mlength = len\<rparr>, w)
   }"

definition sync_owned_bytes_has_byte_capacity :: "sync_owned_bytes_channel_core_t \<Rightarrow> int \<Rightarrow> bool option" where
  "sync_owned_bytes_has_byte_capacity c message_length = do {
     room \<leftarrow> i32_sub (max_queued_bytes c) (queued_bytes c);
     Some (message_length \<le> room)
   }"

text \<open>The new MoonBit object has as many bytes as the message; a negative length is undefined.\<close>

definition sync_owned_bytes_into_moonbit ::
  "sync_owned_bytes_message_t \<Rightarrow> owned_world \<Rightarrow> (bytes \<times> owned_world) option" where
  "sync_owned_bytes_into_moonbit m w = do {
     bytes \<leftarrow>
       (if mlength m > 0 then do { bs \<leftarrow> data m; memcpy bs (mlength m) }
        else if mlength m = 0 then Some [] else None);
     Some (bytes, sync_owned_bytes_message_release (Some m) w)
   }"

section \<open>Lifetime\<close>

text \<open>The loop of \<open>sync_owned_bytes_core_release\<close> from \<open>index\<close> on, with \<open>n\<close> iterations left.\<close>

fun release_messages ::
  "sync_owned_bytes_message_t option list \<Rightarrow> nat \<Rightarrow> int \<Rightarrow> owned_world \<Rightarrow> owned_world option" where
  "release_messages cs 0 index w = Some w"
| "release_messages cs (Suc n) index w = do {
     cell \<leftarrow> cell_get cs index;
     release_messages cs n (index + 1) (sync_owned_bytes_message_release cell w)
   }"

definition sync_owned_bytes_core_release :: "unit os \<Rightarrow> addr \<Rightarrow> owned_world \<Rightarrow> owned_world option" where
  "sync_owned_bytes_core_release os a w = do {
     c \<leftarrow> mem w a;
     let r = sync_arc_dec (refs c);
     let w = store a (c\<lparr>refs := r\<rparr>) w;
     if r \<noteq> 0 then Some w else do {
       w \<leftarrow> release_messages (slots c) (nat (capacity c)) 0 w;
       let w = c_free SlotsBlock w;
       w \<leftarrow> abort_if_failed (sync_os_cond_destroy os a Writable w);
       w \<leftarrow> abort_if_failed (sync_os_cond_destroy os a Readable w);
       w \<leftarrow> abort_if_failed (sync_os_mutex_destroy os a w);
       Some (free_core a w)
     }
   }"

text \<open>Both wake-ups of a close that cannot report a failure.\<close>

definition broadcast_both_or_abort :: "unit os \<Rightarrow> addr \<Rightarrow> owned_world \<Rightarrow> owned_world option" where
  "broadcast_both_or_abort os a w = do {
     w \<leftarrow> abort_if_failed (sync_os_cond_broadcast os a Readable w);
     abort_if_failed (sync_os_cond_broadcast os a Writable w)
   }"

definition sync_owned_bytes_finalize ::
  "unit os \<Rightarrow> sync_owned_bytes_channel_handle_t \<Rightarrow> owned_world \<Rightarrow> owned_world option" where
  "sync_owned_bytes_finalize os handle w = (case core handle of None \<Rightarrow> Some w | Some a \<Rightarrow> do {
     w \<leftarrow> abort_if_failed (sync_os_mutex_lock os a w);
     c \<leftarrow> mem w a;
     w \<leftarrow>
       (if role handle = 1 then do {
          n \<leftarrow> i32_sub (senders c) 1;
          if n = 0 then broadcast_both_or_abort os a (store a (c\<lparr>senders := n, closed := 1\<rparr>) w)
          else Some (store a (c\<lparr>senders := n\<rparr>) w)
        } else if role handle = 2 \<and> receiver_alive c \<noteq> 0 then
          broadcast_both_or_abort os a (store a (c\<lparr>receiver_alive := 0, closed := 1\<rparr>) w)
        else Some w);
     w \<leftarrow> abort_if_failed (sync_os_mutex_unlock os a w);
     sync_owned_bytes_core_release os a w
   })"

definition sync_owned_bytes_wrap :: "addr \<Rightarrow> int \<Rightarrow> sync_owned_bytes_channel_handle_t" where
  "sync_owned_bytes_wrap a r = \<lparr>core = Some a, role = r\<rparr>"

definition sync_owned_bytes_channel_new ::
  "unit os \<Rightarrow> int \<Rightarrow> int \<Rightarrow> int \<Rightarrow> owned_world \<Rightarrow>
   ((sync_owned_bytes_channel_handle_t option \<times> int) \<times> owned_world) option" where
  "sync_owned_bytes_channel_new os cap max_message max_queued w = do {
     w \<leftarrow> sync_alloc os CoreBlock w;
     let a = fresh w;
     bytes \<leftarrow> sync_array_size_or_abort (size_max os) cap (pointer_size os);
     w \<leftarrow> sync_alloc os SlotsBlock w;
     let w = store a \<lparr>refs = 1, slots = replicate (nat cap) None, capacity = cap,
       max_message_bytes = max_message, max_queued_bytes = max_queued, queued_bytes = 0,
       head = 0, tail = 0, count = 0, senders = 1, receiver_alive = 0, closed = 0\<rparr> (w\<lparr>fresh := Suc a\<rparr>);
     let (status, next) = sync_test_atomic_take (next_init_error w);
     let w = w\<lparr>next_init_error := next\<rparr>;
     let (status, w) = (if status = 0 then sync_os_mutex_init os a w else (status, w));
     if status \<noteq> 0 then Some ((None, status), free_core a (c_free SlotsBlock w)) else do {
     let (status, w) = sync_os_cond_init os a Readable w;
     if status \<noteq> 0 then do {
       w \<leftarrow> abort_if_failed (sync_os_mutex_destroy os a w);
       Some ((None, status), free_core a (c_free SlotsBlock w))
     } else do {
     let (status, w) = sync_os_cond_init os a Writable w;
     if status \<noteq> 0 then do {
       w \<leftarrow> abort_if_failed (sync_os_cond_destroy os a Readable w);
       w \<leftarrow> abort_if_failed (sync_os_mutex_destroy os a w);
       Some ((None, status), free_core a (c_free SlotsBlock w))
     } else Some ((Some (sync_owned_bytes_wrap a 1), status), w)
     }}
   }"

definition sync_owned_bytes_channel_receiver ::
  "unit os \<Rightarrow> sync_owned_bytes_channel_handle_t \<Rightarrow> owned_world \<Rightarrow>
   ((sync_owned_bytes_channel_handle_t option \<times> int) \<times> owned_world) option" where
  "sync_owned_bytes_channel_receiver os value w = do {
     a \<leftarrow> core value;
     let (status, w) = sync_os_mutex_lock os a w;
     if status \<noteq> 0 then Some ((None, status), w) else do {
       c \<leftarrow> mem w a;
       let w = store a (c\<lparr>receiver_alive := 1, refs := sync_arc_inc (refs c)\<rparr>) w;
       let (st, w) = sync_os_mutex_unlock os a w;
       Some ((Some (sync_owned_bytes_wrap a 2), record_error status st), w)
     }
   }"

definition sync_owned_bytes_sender_share ::
  "unit os \<Rightarrow> sync_owned_bytes_channel_handle_t \<Rightarrow> owned_world \<Rightarrow>
   ((sync_owned_bytes_channel_handle_t option \<times> int) \<times> owned_world) option" where
  "sync_owned_bytes_sender_share os value w = do {
     a \<leftarrow> core value;
     let (status, w) = sync_os_mutex_lock os a w;
     if status \<noteq> 0 then Some ((None, status), w) else do {
       c \<leftarrow> mem w a;
       n \<leftarrow> i32_add (senders c) 1;
       let w = store a (c\<lparr>senders := n, refs := sync_arc_inc (refs c)\<rparr>) w;
       let (st, w) = sync_os_mutex_unlock os a w;
       Some ((Some (sync_owned_bytes_wrap a 1), record_error status st), w)
     }
   }"

section \<open>Sending\<close>

text \<open>
  What a call still has to do when it does not hold the mutex: a send asleep on \<open>writable\<close>,
  a send that has made its copy and is about to lock again, a receive asleep on \<open>readable\<close>.
\<close>

datatype owned_k =
    SubmitWaitK bytes "sync_owned_bytes_message_t option" int
  | SubmitLockK bytes int sync_owned_bytes_message_t
  | RecvK int

type_synonym submit_result = "int \<times> int"

text \<open>Unlock, release the copy, return \<open>result\<close>.\<close>

definition submit_fail ::
  "unit os \<Rightarrow> addr \<Rightarrow> sync_owned_bytes_message_t option \<Rightarrow> int \<Rightarrow> int \<Rightarrow> owned_world \<Rightarrow>
   (submit_result, owned_k) outcome \<times> owned_world" where
  "submit_fail os a message result error w =
     (let (st, w) = sync_os_mutex_unlock os a w
      in (Return (result, record_error error st), sync_owned_bytes_message_release message w))"

definition submit_commit ::
  "unit os \<Rightarrow> addr \<Rightarrow> sync_owned_bytes_message_t \<Rightarrow> int \<Rightarrow> int \<Rightarrow> owned_world \<Rightarrow>
   ((submit_result, owned_k) outcome \<times> owned_world) option" where
  "submit_commit os a m message_length error w = do {
     c \<leftarrow> mem w a;
     cs \<leftarrow> cell_set (slots c) (tail c) (Some m);
     t \<leftarrow> i32_add (tail c) 1;
     t \<leftarrow> i32_rem t (capacity c);
     n \<leftarrow> i32_add (count c) 1;
     q \<leftarrow> i32_add (queued_bytes c) message_length;
     let w = store a (c\<lparr>slots := cs, tail := t, count := n, queued_bytes := q\<rparr>) w;
     let (st, w) = sync_os_cond_signal os a Readable w;
     let error = record_error error st;
     let (st, w) = sync_os_mutex_unlock os a w;
     Some (Return (0, record_error error st), w)
   }"

text \<open>No copy yet: give the mutex up and make one.\<close>

definition submit_copy ::
  "unit os \<Rightarrow> addr \<Rightarrow> bytes \<Rightarrow> int \<Rightarrow> int \<Rightarrow> owned_world \<Rightarrow>
   ((submit_result, owned_k) outcome \<times> owned_world) option" where
  "submit_copy os a bytes block error w = do {
     let (st, w) = sync_os_mutex_unlock os a w;
     let error = record_error error st;
     if error \<noteq> 0 then Some (Return (2, error), w) else do {
       (m, w) \<leftarrow> sync_owned_bytes_message_copy os bytes (int (length bytes)) w;
       Some (Again (SubmitLockK bytes block m), w)
     }
   }"

text \<open>The condition of the wait loop that depends on the queue.\<close>

definition submit_full :: "sync_owned_bytes_channel_core_t \<Rightarrow> int \<Rightarrow> bool option" where
  "submit_full c message_length =
     (if count c = capacity c then Some True
      else map_option Not (sync_owned_bytes_has_byte_capacity c message_length))"

definition sync_owned_bytes_submit_loop ::
  "unit os \<Rightarrow> addr \<Rightarrow> bytes \<Rightarrow> int \<Rightarrow> sync_owned_bytes_message_t option \<Rightarrow> int \<Rightarrow> owned_world \<Rightarrow>
   ((submit_result, owned_k) outcome \<times> owned_world) option" where
  "sync_owned_bytes_submit_loop os a bytes block message error w = do {
     c \<leftarrow> mem w a;
     let message_length = int (length bytes);
     wait \<leftarrow> (if block \<noteq> 0 \<and> closed c = 0 \<and> receiver_alive c \<noteq> 0 then submit_full c message_length
             else Some False);
     if wait then Some (Wait Writable (SubmitWaitK bytes message error), cond_sleep a Writable w)
     else if closed c \<noteq> 0 \<or> receiver_alive c = 0 then Some (submit_fail os a message 2 error w)
     else if count c = capacity c then Some (submit_fail os a message 1 error w)
     else do {
       fits \<leftarrow> sync_owned_bytes_has_byte_capacity c message_length;
       if \<not> fits then Some (submit_fail os a message 4 error w)
       else (case message of
           None \<Rightarrow> submit_copy os a bytes block error w
         | Some m \<Rightarrow> submit_commit os a m message_length error w)
     }
   }"

definition sync_owned_bytes_submit_lock ::
  "unit os \<Rightarrow> addr \<Rightarrow> bytes \<Rightarrow> int \<Rightarrow> sync_owned_bytes_message_t option \<Rightarrow> owned_world \<Rightarrow>
   ((submit_result, owned_k) outcome \<times> owned_world) option" where
  "sync_owned_bytes_submit_lock os a bytes block message w = do {
     let (error, w) = sync_os_mutex_lock os a w;
     if error \<noteq> 0 then Some (Return (2, error), sync_owned_bytes_message_release message w) else do {
       c \<leftarrow> mem w a;
       if int (length bytes) > max_message_bytes c then Some (submit_fail os a message 3 error w)
       else sync_owned_bytes_submit_loop os a bytes block message error w
     }
   }"

text \<open>From the return of the wait.\<close>

definition sync_owned_bytes_submit_wake ::
  "unit os \<Rightarrow> addr \<Rightarrow> bytes \<Rightarrow> sync_owned_bytes_message_t option \<Rightarrow> int \<Rightarrow> owned_world \<Rightarrow>
   ((submit_result, owned_k) outcome \<times> owned_world) option" where
  "sync_owned_bytes_submit_wake os a bytes message error w = do {
     let (wait_status, w) = sync_os_cond_wait os a Writable w;
     if wait_status \<noteq> 0 then Some (submit_fail os a message 2 (record_error error wait_status) w)
     else sync_owned_bytes_submit_loop os a bytes 1 message error w
   }"

definition sync_owned_bytes_submit_start ::
  "unit os \<Rightarrow> sync_owned_bytes_channel_handle_t \<Rightarrow> bytes \<Rightarrow> int \<Rightarrow> owned_world \<Rightarrow>
   ((submit_result, owned_k) outcome \<times> owned_world) option" where
  "sync_owned_bytes_submit_start os value bytes block w = do {
     a \<leftarrow> core value;
     let (error, w) = sync_owned_bytes_channel_test_take_next_operation_error w;
     if error \<noteq> 0 then Some (Return (2, error), w)
     else sync_owned_bytes_submit_lock os a bytes block None w
   }"

text \<open>Closing: the flags, both broadcasts, the unlock.\<close>

definition close_owned ::
  "unit os \<Rightarrow> addr \<Rightarrow> (sync_owned_bytes_channel_core_t \<Rightarrow> sync_owned_bytes_channel_core_t) \<Rightarrow> owned_world \<Rightarrow>
   (int \<times> owned_world) option" where
  "close_owned os a f w = do {
     let (error, w) = sync_os_mutex_lock os a w;
     if error \<noteq> 0 then Some (error, w) else do {
       c \<leftarrow> mem w a;
       let w = store a (f c) w;
       let (st, w) = sync_os_cond_broadcast os a Readable w;
       let error = record_error error st;
       let (st, w) = sync_os_cond_broadcast os a Writable w;
       let error = record_error error st;
       let (st, w) = sync_os_mutex_unlock os a w;
       Some (record_error error st, w)
     }
   }"

definition sync_owned_bytes_sender_close ::
  "unit os \<Rightarrow> sync_owned_bytes_channel_handle_t \<Rightarrow> owned_world \<Rightarrow> (int \<times> owned_world) option" where
  "sync_owned_bytes_sender_close os value w = do {
     a \<leftarrow> core value;
     close_owned os a (\<lambda>c. c\<lparr>closed := 1\<rparr>) w
   }"

section \<open>Receiving\<close>

text \<open>The returned bytes (\<open>NULL\<close>: \<open>None\<close>), \<open>*status\<close> and \<open>*error\<close>.\<close>

type_synonym owned_recv_result = "bytes option \<times> int \<times> int"

definition sync_owned_bytes_receive_loop ::
  "unit os \<Rightarrow> addr \<Rightarrow> int \<Rightarrow> int \<Rightarrow> owned_world \<Rightarrow>
   ((owned_recv_result, owned_k) outcome \<times> owned_world) option" where
  "sync_owned_bytes_receive_loop os a block error w = do {
     c \<leftarrow> mem w a;
     if block \<noteq> 0 \<and> count c = 0 \<and> closed c = 0 then
       Some (Wait Readable (RecvK error), cond_sleep a Readable w)
     else if count c = 0 then do {
       let status = (if closed c \<noteq> 0 then 2 else 1);
       let (st, w) = sync_os_mutex_unlock os a w;
       Some (Return (None, status, record_error error st), w)
     } else do {
       message \<leftarrow> cell_get (slots c) (head c);
       cs \<leftarrow> cell_set (slots c) (head c) None;
       h \<leftarrow> i32_add (head c) 1;
       h \<leftarrow> i32_rem h (capacity c);
       n \<leftarrow> i32_sub (count c) 1;
       m \<leftarrow> message;
       q \<leftarrow> i32_sub (queued_bytes c) (mlength m);
       let w = store a (c\<lparr>slots := cs, head := h, count := n, queued_bytes := q\<rparr>) w;
       let (st, w) = sync_os_cond_signal os a Writable w;
       let error = record_error error st;
       let (st, w) = sync_os_mutex_unlock os a w;
       let error = record_error error st;
       (bytes, w) \<leftarrow> sync_owned_bytes_into_moonbit m w;
       Some (Return (Some bytes, 0, error), w)
     }
   }"

definition sync_owned_bytes_receive_wake ::
  "unit os \<Rightarrow> addr \<Rightarrow> int \<Rightarrow> owned_world \<Rightarrow>
   ((owned_recv_result, owned_k) outcome \<times> owned_world) option" where
  "sync_owned_bytes_receive_wake os a error w = do {
     let (wait_status, w) = sync_os_cond_wait os a Readable w;
     if wait_status \<noteq> 0 then do {
       let error = record_error error wait_status;
       let (st, w) = sync_os_mutex_unlock os a w;
       Some (Return (None, 2, record_error error st), w)
     } else sync_owned_bytes_receive_loop os a 1 error w
   }"

definition sync_owned_bytes_receive_start ::
  "unit os \<Rightarrow> sync_owned_bytes_channel_handle_t \<Rightarrow> int \<Rightarrow> owned_world \<Rightarrow>
   ((owned_recv_result, owned_k) outcome \<times> owned_world) option" where
  "sync_owned_bytes_receive_start os value block w = do {
     a \<leftarrow> core value;
     let (error, w) = sync_os_mutex_lock os a w;
     if error \<noteq> 0 then Some (Return (None, 2, error), w)
     else sync_owned_bytes_receive_loop os a block error w
   }"

definition sync_owned_bytes_receiver_close ::
  "unit os \<Rightarrow> sync_owned_bytes_channel_handle_t \<Rightarrow> owned_world \<Rightarrow> (int \<times> owned_world) option" where
  "sync_owned_bytes_receiver_close os value w = do {
     a \<leftarrow> core value;
     close_owned os a (\<lambda>c. c\<lparr>closed := 1, receiver_alive := 0\<rparr>) w
   }"

definition sync_owned_bytes_receiver_len ::
  "unit os \<Rightarrow> sync_owned_bytes_channel_handle_t \<Rightarrow> owned_world \<Rightarrow> ((int \<times> int) \<times> owned_world) option" where
  "sync_owned_bytes_receiver_len os value w = do {
     a \<leftarrow> core value;
     let (error, w) = sync_os_mutex_lock os a w;
     if error \<noteq> 0 then Some ((0, error), w) else do {
       c \<leftarrow> mem w a;
       let (st, w) = sync_os_mutex_unlock os a w;
       Some ((count c, record_error error st), w)
     }
   }"

definition sync_owned_bytes_receiver_capacity ::
  "sync_owned_bytes_channel_handle_t \<Rightarrow> owned_world \<Rightarrow> int option" where
  "sync_owned_bytes_receiver_capacity value w = do { a \<leftarrow> core value; c \<leftarrow> mem w a; Some (capacity c) }"

definition sync_owned_bytes_channel_test_fail_next_init :: "int \<Rightarrow> owned_world \<Rightarrow> owned_world" where
  "sync_owned_bytes_channel_test_fail_next_init status w =
     w\<lparr>next_init_error := sync_test_atomic_store (next_init_error w) status\<rparr>"

definition sync_owned_bytes_channel_test_fail_next_operation :: "int \<Rightarrow> owned_world \<Rightarrow> owned_world" where
  "sync_owned_bytes_channel_test_fail_next_operation status w =
     w\<lparr>next_operation_error := sync_test_atomic_store (next_operation_error w) status\<rparr>"

section \<open>The channel as a monitor\<close>

datatype owned_op =
    Share | TrySend bytes | Send bytes | SenderClose | TryRecv | Recv | ReceiverClose | Len | Finalize

datatype owned_ret =
    Handle "sync_owned_bytes_channel_handle_t option" int
  | Submitted submit_result
  | Received owned_recv_result
  | Status int
  | Number int int
  | Dropped

text \<open>A MoonBit byte string has a length below \<open>2 ^ 31\<close>.\<close>

fun owned_may :: "owned_op \<Rightarrow> sync_owned_bytes_channel_handle_t \<Rightarrow> bool" where
  "owned_may Finalize h = True"
| "owned_may (TrySend bytes) h = (role h = 1 \<and> i32 (int (length bytes)))"
| "owned_may (Send bytes) h = (role h = 1 \<and> i32 (int (length bytes)))"
| "owned_may TryRecv h = (role h = 2)"
| "owned_may Recv h = (role h = 2)"
| "owned_may ReceiverClose h = (role h = 2)"
| "owned_may Len h = (role h = 2)"
| "owned_may _ h = (role h = 1)"

fun owned_enter ::
  "unit os \<Rightarrow> owned_op \<Rightarrow> sync_owned_bytes_channel_handle_t \<Rightarrow> owned_world \<Rightarrow>
   ((owned_ret, owned_k) outcome \<times> owned_world) option" where
  "owned_enter os Share h w =
     map_option (\<lambda>((g, st), w). (Return (Handle g st), w)) (sync_owned_bytes_sender_share os h w)"
| "owned_enter os (TrySend bytes) h w =
     map_option (\<lambda>(out, w). (map_outcome Submitted id out, w)) (sync_owned_bytes_submit_start os h bytes 0 w)"
| "owned_enter os (Send bytes) h w =
     map_option (\<lambda>(out, w). (map_outcome Submitted id out, w)) (sync_owned_bytes_submit_start os h bytes 1 w)"
| "owned_enter os SenderClose h w =
     map_option (\<lambda>(st, w). (Return (Status st), w)) (sync_owned_bytes_sender_close os h w)"
| "owned_enter os TryRecv h w =
     map_option (\<lambda>(out, w). (map_outcome Received id out, w)) (sync_owned_bytes_receive_start os h 0 w)"
| "owned_enter os Recv h w =
     map_option (\<lambda>(out, w). (map_outcome Received id out, w)) (sync_owned_bytes_receive_start os h 1 w)"
| "owned_enter os ReceiverClose h w =
     map_option (\<lambda>(st, w). (Return (Status st), w)) (sync_owned_bytes_receiver_close os h w)"
| "owned_enter os Len h w =
     map_option (\<lambda>((n, st), w). (Return (Number n st), w)) (sync_owned_bytes_receiver_len os h w)"
| "owned_enter os Finalize h w =
     map_option (\<lambda>w. (Return Dropped, w)) (sync_owned_bytes_finalize os h w)"

text \<open>What a call does when it holds the mutex again.\<close>

fun submit_resume ::
  "unit os \<Rightarrow> addr \<Rightarrow> owned_k \<Rightarrow> owned_world \<Rightarrow> ((submit_result, owned_k) outcome \<times> owned_world) option" where
  "submit_resume os a (SubmitWaitK bytes message error) w = sync_owned_bytes_submit_wake os a bytes message error w"
| "submit_resume os a (SubmitLockK bytes block m) w = sync_owned_bytes_submit_lock os a bytes block (Some m) w"
| "submit_resume os a (RecvK error) w = None"

fun owned_resume ::
  "unit os \<Rightarrow> owned_k \<Rightarrow> sync_owned_bytes_channel_handle_t \<Rightarrow> owned_world \<Rightarrow>
   ((owned_ret, owned_k) outcome \<times> owned_world) option" where
  "owned_resume os (RecvK error) h w = do {
     a \<leftarrow> core h;
     map_option (\<lambda>(out, w). (map_outcome Received id out, w)) (sync_owned_bytes_receive_wake os a error w) }"
| "owned_resume os k h w = do {
     a \<leftarrow> core h;
     map_option (\<lambda>(out, w). (map_outcome Submitted id out, w)) (submit_resume os a k w) }"

fun owned_pending :: "owned_k \<Rightarrow> owned_op" where
  "owned_pending (SubmitWaitK bytes message error) = Send bytes"
| "owned_pending (SubmitLockK bytes block m) = (if block \<noteq> 0 then Send bytes else TrySend bytes)"
| "owned_pending (RecvK error) = Recv"

fun owned_born :: "owned_ret \<Rightarrow> sync_owned_bytes_channel_handle_t option" where
  "owned_born (Handle g st) = g"
| "owned_born _ = None"

definition owned_monitor where
  "owned_monitor a = \<lparr>site = a, may = owned_may, enter = owned_enter, resume = owned_resume,
     pending = owned_pending, drops = (\<lambda>op. op = Finalize), born = owned_born\<rparr>"

section \<open>Whole calls\<close>

definition sync_owned_bytes_submit ::
  "unit os \<Rightarrow> sync_owned_bytes_channel_handle_t \<Rightarrow> bytes \<Rightarrow> int \<Rightarrow> (owned_world \<Rightarrow> owned_world) list \<Rightarrow>
   owned_world \<Rightarrow> (submit_result option \<times> owned_world) option" where
  "sync_owned_bytes_submit os value bytes block env w = do {
     a \<leftarrow> core value;
     x \<leftarrow> sync_owned_bytes_submit_start os value bytes block w;
     finish (\<lambda>os. submit_resume os a) os env x
   }"

definition sync_owned_bytes_sender_try_send ::
  "unit os \<Rightarrow> sync_owned_bytes_channel_handle_t \<Rightarrow> bytes \<Rightarrow> (owned_world \<Rightarrow> owned_world) list \<Rightarrow>
   owned_world \<Rightarrow> (submit_result option \<times> owned_world) option" where
  "sync_owned_bytes_sender_try_send os value bytes env w = sync_owned_bytes_submit os value bytes 0 env w"

definition sync_owned_bytes_sender_send ::
  "unit os \<Rightarrow> sync_owned_bytes_channel_handle_t \<Rightarrow> bytes \<Rightarrow> (owned_world \<Rightarrow> owned_world) list \<Rightarrow>
   owned_world \<Rightarrow> (submit_result option \<times> owned_world) option" where
  "sync_owned_bytes_sender_send os value bytes env w = sync_owned_bytes_submit os value bytes 1 env w"

definition sync_owned_bytes_receive ::
  "unit os \<Rightarrow> sync_owned_bytes_channel_handle_t \<Rightarrow> int \<Rightarrow> (owned_world \<Rightarrow> owned_world) list \<Rightarrow>
   owned_world \<Rightarrow> (owned_recv_result option \<times> owned_world) option" where
  "sync_owned_bytes_receive os value block env w = do {
     a \<leftarrow> core value;
     x \<leftarrow> sync_owned_bytes_receive_start os value block w;
     finish (\<lambda>os k w. case k of RecvK error \<Rightarrow> sync_owned_bytes_receive_wake os a error w | _ \<Rightarrow> None) os env x
   }"

definition sync_owned_bytes_receiver_try_recv ::
  "unit os \<Rightarrow> sync_owned_bytes_channel_handle_t \<Rightarrow> owned_world \<Rightarrow> (owned_recv_result option \<times> owned_world) option" where
  "sync_owned_bytes_receiver_try_recv os value w = sync_owned_bytes_receive os value 0 [] w"

definition sync_owned_bytes_receiver_recv ::
  "unit os \<Rightarrow> sync_owned_bytes_channel_handle_t \<Rightarrow> (owned_world \<Rightarrow> owned_world) list \<Rightarrow>
   owned_world \<Rightarrow> (owned_recv_result option \<times> owned_world) option" where
  "sync_owned_bytes_receiver_recv os value env w = sync_owned_bytes_receive os value 1 env w"

end
