(* ===== verification/Sync_OwnedBytes_Correct.thy ===== *)
theory Sync_OwnedBytes_Correct
  imports Sync_OwnedBytes
begin

text \<open>
  Correctness of the owned-bytes channel. The invariant \<open>owned_inv\<close> ties the core to the live
  handles, to the copies that sends under way hold, and to the results returned so far; it is
  kept by every piece of code (interpretation \<open>owned\<close> of \<open>monitor_keeps\<close>). With a working
  operating system the condition variables satisfy the contracts \<open>signalled\<close> and
  \<open>broadcasting\<close>; for \<open>writable\<close> only in the weaker form that an empty queue is not left alone,
  since one receive may make room for several senders.
\<close>

section \<open>Specification\<close>

text \<open>The native copy of a byte string, and the memory it owns.\<close>

definition copy_message :: "bytes \<Rightarrow> sync_owned_bytes_message_t" where
  "copy_message bytes = \<lparr>data = (if bytes = [] then None else Some bytes), mlength = int (length bytes)\<rparr>"

definition message_resources :: "sync_owned_bytes_message_t \<Rightarrow> resource list" where
  "message_resources m = BlockRes MessageBlock # (if data m = None then [] else [BlockRes DataBlock])"

definition message_balance :: "resource \<Rightarrow> sync_owned_bytes_message_t multiset \<Rightarrow> int" where
  "message_balance r F = sum_mset (image_mset (\<lambda>m. owning (message_resources m) r) F)"

definition owned_resources :: "addr \<Rightarrow> resource list" where
  "owned_resources a = [MutexRes a, CondRes a Readable, CondRes a Writable, BlockRes CoreBlock, BlockRes SlotsBlock]"

text \<open>The byte strings that successful sends put in and that receives handed out.\<close>

fun submitted_by :: "owned_op \<times> owned_ret \<Rightarrow> bytes list" where
  "submitted_by (TrySend bytes, Submitted (result, error)) = (if result = 0 then [bytes] else [])"
| "submitted_by (Send bytes, Submitted (result, error)) = (if result = 0 then [bytes] else [])"
| "submitted_by _ = []"

fun taken_by :: "owned_op \<times> owned_ret \<Rightarrow> bytes list" where
  "taken_by (op, Received (Some bytes, status, error)) = [bytes]"
| "taken_by _ = []"

definition submitted :: "(owned_op \<times> owned_ret) list \<Rightarrow> bytes list" where
  "submitted ps = concat (map submitted_by ps)"

definition taken :: "(owned_op \<times> owned_ret) list \<Rightarrow> bytes list" where
  "taken ps = concat (map taken_by ps)"

definition sender_handles :: "sync_owned_bytes_channel_handle_t multiset \<Rightarrow> nat" where
  "sender_handles H = size (filter_mset (\<lambda>h. role h = 1) H)"

definition receiver_handles :: "sync_owned_bytes_channel_handle_t multiset \<Rightarrow> nat" where
  "receiver_handles H = size (filter_mset (\<lambda>h. role h = 2) H)"

text \<open>
  The invariant: \<open>bs\<close> are the queued byte strings, \<open>H\<close> the live handles, \<open>F\<close> the copies held by
  sends under way, \<open>B\<close> the balance of resources before the channel was made. \<open>owned_inv\<close> holds
  while the mutex is free, \<open>owned_locked\<close> inside a critical section.
\<close>

definition queue_ok :: "int \<Rightarrow> int \<Rightarrow> int \<Rightarrow> sync_owned_bytes_channel_core_t \<Rightarrow> bytes list \<Rightarrow> bool" where
  "queue_ok cap mm mq c bs \<longleftrightarrow>
     ring_ok (slots c) (capacity c) (head c) (tail c) (count c) \<and>
     ring_list (slots c) (head c) (count c) = map copy_message bs \<and>
     capacity c = cap \<and> max_message_bytes c = mm \<and> max_queued_bytes c = mq \<and> mm \<le> mq \<and> i32 mq \<and>
     queued_bytes c = int (sum_list (map length bs)) \<and> queued_bytes c \<le> mq \<and>
     (\<forall>b \<in> set bs. int (length b) \<le> mm)"

definition handles_ok :: "sync_owned_bytes_channel_core_t \<Rightarrow> sync_owned_bytes_channel_handle_t multiset \<Rightarrow> bool" where
  "handles_ok c H \<longleftrightarrow> (\<forall>h \<in># H. role h = 1 \<or> role h = 2) \<and>
     refs c = of_nat (size H) \<and> senders c = int (sender_handles H) \<and> i32 (senders c) \<and>
     receiver_handles H \<le> 1 \<and>
     (closed c = 0 \<longrightarrow> 0 < sender_handles H) \<and> (receiver_alive c \<noteq> 0 \<longrightarrow> receiver_handles H = 1)"

definition owned_live ::
  "int \<Rightarrow> int \<Rightarrow> int \<Rightarrow> addr \<Rightarrow> (resource \<Rightarrow> int) \<Rightarrow> sync_owned_bytes_channel_core_t \<Rightarrow> bytes list \<Rightarrow>
   owned_world \<Rightarrow> sync_owned_bytes_channel_handle_t multiset \<Rightarrow> sync_owned_bytes_message_t multiset \<Rightarrow>
   (owned_op \<times> owned_ret) list \<Rightarrow> bool" where
  "owned_live cap mm mq a B c bs w H F ps \<longleftrightarrow>
     H \<noteq> {#} \<and> (\<forall>h \<in># H. core h = Some a) \<and> mem w a = Some c \<and> queue_ok cap mm mq c bs \<and> handles_ok c H \<and>
     submitted ps = taken ps @ bs \<and>
     (\<forall>r. balance r (calls w) = B r + owning (owned_resources a) r +
        message_balance r (mset (map copy_message bs)) + message_balance r F)"

definition owned_inv ::
  "int \<Rightarrow> int \<Rightarrow> int \<Rightarrow> addr \<Rightarrow> (resource \<Rightarrow> int) \<Rightarrow> owned_world \<Rightarrow>
   sync_owned_bytes_channel_handle_t multiset \<Rightarrow> sync_owned_bytes_message_t multiset \<Rightarrow>
   (owned_op \<times> owned_ret) list \<Rightarrow> bool" where
  "owned_inv cap mm mq a B w H F ps \<longleftrightarrow>
     mutex_state a w = Some False \<and>
     (if H = {#} then mem w a = None \<and> (\<forall>r. balance r (calls w) = B r + message_balance r F) \<and>
        (\<exists>rest. submitted ps = taken ps @ rest)
      else \<exists>c bs. owned_live cap mm mq a B c bs w H F ps)"

definition owned_locked ::
  "int \<Rightarrow> int \<Rightarrow> int \<Rightarrow> addr \<Rightarrow> (resource \<Rightarrow> int) \<Rightarrow> sync_owned_bytes_channel_core_t \<Rightarrow> bytes list \<Rightarrow>
   owned_world \<Rightarrow> sync_owned_bytes_channel_handle_t multiset \<Rightarrow> sync_owned_bytes_message_t multiset \<Rightarrow>
   (owned_op \<times> owned_ret) list \<Rightarrow> bool" where
  "owned_locked cap mm mq a B c bs w H F ps \<longleftrightarrow>
     mutex_state a w = Some True \<and> owned_live cap mm mq a B c bs w H F ps"

text \<open>The copy a suspended call holds.\<close>

fun copy_of :: "owned_k \<Rightarrow> sync_owned_bytes_message_t multiset" where
  "copy_of (SubmitWaitK bytes message error) = mset_set (set_option message)"
| "copy_of (SubmitLockK bytes block m) = {#m#}"
| "copy_of (RecvK error) = {#}"

fun copies :: "('r, owned_k) outcome \<Rightarrow> sync_owned_bytes_message_t multiset" where
  "copies (Return r) = {#}"
| "copies (Wait cv k) = copy_of k"
| "copies (Again k) = copy_of k"

text \<open>The core after a message is stored at the tail, and after one is taken from the head.\<close>

definition enqueued :: "bytes \<Rightarrow> sync_owned_bytes_channel_core_t \<Rightarrow> sync_owned_bytes_channel_core_t" where
  "enqueued b c = c\<lparr>slots := (slots c)[nat (tail c) := Some (copy_message b)],
     tail := (tail c + 1) mod capacity c, count := count c + 1, queued_bytes := queued_bytes c + int (length b)\<rparr>"

definition dequeued :: "bytes \<Rightarrow> sync_owned_bytes_channel_core_t \<Rightarrow> sync_owned_bytes_channel_core_t" where
  "dequeued b c = c\<lparr>slots := (slots c)[nat (head c) := None],
     head := (head c + 1) mod capacity c, count := count c - 1, queued_bytes := queued_bytes c - int (length b)\<rparr>"

definition in_flight :: "(sync_owned_bytes_channel_handle_t \<times> owned_k option) multiset \<Rightarrow> sync_owned_bytes_message_t multiset" where
  "in_flight A = sum_mset (image_mset (\<lambda>x. case snd x of None \<Rightarrow> {#} | Some k \<Rightarrow> copy_of k) A)"

fun owned_kok :: "int \<Rightarrow> sync_owned_bytes_channel_handle_t \<Rightarrow> owned_k \<Rightarrow> bool" where
  "owned_kok mm h (SubmitWaitK b message e) \<longleftrightarrow>
     role h = 1 \<and> e = 0 \<and> int (length b) \<le> mm \<and> (message = None \<or> message = Some (copy_message b))"
| "owned_kok mm h (SubmitLockK b block m) \<longleftrightarrow> role h = 1 \<and> int (length b) \<le> mm \<and> m = copy_message b"
| "owned_kok mm h (RecvK e) \<longleftrightarrow> role h = 2 \<and> e = 0"

definition owned_keeps ::
  "int \<Rightarrow> int \<Rightarrow> int \<Rightarrow> addr \<Rightarrow> (resource \<Rightarrow> int) \<Rightarrow> owned_world \<Rightarrow>
   (sync_owned_bytes_channel_handle_t \<times> owned_k option) multiset \<Rightarrow> (owned_op \<times> owned_ret) list \<Rightarrow> bool" where
  "owned_keeps cap mm mq a B w A ps \<longleftrightarrow>
     owned_inv cap mm mq a B w (image_mset fst A) (in_flight A) ps \<and>
     (\<forall>x \<in># A. case snd x of None \<Rightarrow> True | Some k \<Rightarrow> owned_kok mm (fst x) k)"

definition release_log :: "sync_owned_bytes_message_t list \<Rightarrow> unit history" where
  "release_log ms = concat (map (\<lambda>m. (if data m = None then [] else [(Free DataBlock, 0)]) @ [(Free MessageBlock, 0)]) ms)"

text \<open>What a finalizer does to the core before it gives its reference back.\<close>

definition owned_closes :: "sync_owned_bytes_channel_handle_t \<Rightarrow> sync_owned_bytes_channel_core_t \<Rightarrow> bool" where
  "owned_closes h c \<longleftrightarrow> (if role h = 1 then senders c = 1 else role h = 2 \<and> receiver_alive c \<noteq> 0)"

definition owned_dropped ::
  "sync_owned_bytes_channel_handle_t \<Rightarrow> sync_owned_bytes_channel_core_t \<Rightarrow> sync_owned_bytes_channel_core_t" where
  "owned_dropped h c =
     (if role h = 1 then c\<lparr>senders := senders c - 1, closed := if senders c = 1 then 1 else closed c\<rparr>
      else if owned_closes h c then c\<lparr>receiver_alive := 0, closed := 1\<rparr> else c)"

definition owned_drop_calls :: "addr \<Rightarrow> sync_owned_bytes_channel_handle_t \<Rightarrow> sync_owned_bytes_channel_core_t \<Rightarrow> unit history" where
  "owned_drop_calls a h c = (MutexLock a, 0) #
     (if owned_closes h c then [(CondBroadcast a Readable, 0), (CondBroadcast a Writable, 0)] else []) @
     [(MutexUnlock a, 0)]"

fun is_submit :: "owned_k \<Rightarrow> bool" where
  "is_submit (RecvK e) = False" | "is_submit _ = True"

text \<open>
  How many receives could return; whether the channel is empty and accepting; and what one
  piece of code does to these numbers.
\<close>

definition queued_of :: "sync_owned_bytes_channel_core_t \<Rightarrow> nat" where
  "queued_of c = (if closed c \<noteq> 0 then 0 else nat (count c))"

definition idle_of :: "sync_owned_bytes_channel_core_t \<Rightarrow> nat" where
  "idle_of c = (if closed c = 0 \<and> receiver_alive c \<noteq> 0 \<and> count c = 0 then 1 else 0)"

definition owned_ready :: "addr \<Rightarrow> owned_world \<Rightarrow> nat" where
  "owned_ready a w = (case mem w a of None \<Rightarrow> 0 | Some c \<Rightarrow> queued_of c)"

definition owned_idle :: "addr \<Rightarrow> owned_world \<Rightarrow> nat" where
  "owned_idle a w = (case mem w a of None \<Rightarrow> 0 | Some c \<Rightarrow> idle_of c)"

definition owned_open :: "addr \<Rightarrow> owned_world \<Rightarrow> bool" where
  "owned_open a w = (case mem w a of None \<Rightarrow> False | Some c \<Rightarrow> closed c = 0)"

definition owned_accepting :: "addr \<Rightarrow> owned_world \<Rightarrow> bool" where
  "owned_accepting a w = (case mem w a of None \<Rightarrow> False | Some c \<Rightarrow> closed c = 0 \<and> receiver_alive c \<noteq> 0)"

definition owned_effect ::
  "addr \<Rightarrow> owned_world \<Rightarrow> ('r, owned_k) outcome \<Rightarrow> owned_world \<Rightarrow> bool" where
  "owned_effect a w out w' \<longleftrightarrow>
     (owned_ready a w' \<le> owned_ready a w + signals a Readable (new_calls w w') \<or> owned_ready a w' = 0) \<and>
     (owned_idle a w' \<le> owned_idle a w + signals a Writable (new_calls w w') \<or> owned_idle a w' = 0) \<and>
     (owned_open a w \<longrightarrow> owned_open a w' \<or> broadcasts a Readable (new_calls w w')) \<and>
     (owned_accepting a w \<longrightarrow> owned_accepting a w' \<or> broadcasts a Writable (new_calls w w')) \<and>
     (\<forall>k. out = Wait Readable k \<longrightarrow> owned_ready a w' = 0 \<and> owned_open a w' \<and> \<not> is_submit k) \<and>
     (\<forall>k. out = Wait Writable k \<longrightarrow> owned_idle a w' = 0 \<and> owned_accepting a w' \<and> is_submit k)"

definition owned_progress :: "('r, owned_k) outcome \<Rightarrow> owned_world \<Rightarrow> addr \<Rightarrow> owned_world \<Rightarrow> bool" where
  "owned_progress out w a w' \<longleftrightarrow> owned_idle a w' = 0 \<or> (\<exists>k. out = Again k \<and> is_submit k) \<and> owned_idle a w' = owned_idle a w"

text \<open>A new channel with its receiver.\<close>

definition owned_boot ::
  "unit os \<Rightarrow> int \<Rightarrow> int \<Rightarrow> int \<Rightarrow> owned_world \<Rightarrow>
   (unit, _, owned_op, sync_owned_bytes_channel_handle_t, owned_k, owned_ret) config option" where
  "owned_boot os cap mm mq w = do {
     ((s, status), w) \<leftarrow> sync_owned_bytes_channel_new os cap mm mq w;
     s \<leftarrow> s;
     ((r, status), w) \<leftarrow> sync_owned_bytes_channel_receiver os s w;
     r \<leftarrow> r;
     Some \<lparr>wrld = w, agents = {#(s, Ready), (r, Ready)#}, past = []\<rparr>
   }"

text \<open>The limits the MoonBit constructor accepts.\<close>

definition limits_ok :: "int \<Rightarrow> int \<Rightarrow> int \<Rightarrow> bool" where
  "limits_ok cap mm mq \<longleftrightarrow> 0 < cap \<and> i32 cap \<and> 0 < mm \<and> mm \<le> mq \<and> i32 mq"

text \<open>The result codes a send may return.\<close>

fun result_ok :: "int \<Rightarrow> owned_op \<times> owned_ret \<Rightarrow> bool" where
  "result_ok mm (Send b, Submitted (r, e)) \<longleftrightarrow> r = 0 \<and> int (length b) \<le> mm \<or> r = 2 \<or> r = 3 \<and> int (length b) > mm"
| "result_ok mm (TrySend b, Submitted (r, e)) \<longleftrightarrow>
     (r = 0 \<or> r = 1 \<or> r = 4) \<and> int (length b) \<le> mm \<or> r = 2 \<or> r = 3 \<and> int (length b) > mm"
| "result_ok mm _ \<longleftrightarrow> True"

definition owned_logged ::
  "int \<Rightarrow> int \<Rightarrow> int \<Rightarrow> addr \<Rightarrow> (resource \<Rightarrow> int) \<Rightarrow> owned_world \<Rightarrow>
   (sync_owned_bytes_channel_handle_t \<times> owned_k option) multiset \<Rightarrow> (owned_op \<times> owned_ret) list \<Rightarrow> bool" where
  "owned_logged cap mm mq a B w A ps \<longleftrightarrow> owned_keeps cap mm mq a B w A ps \<and> list_all (result_ok mm) ps"

text \<open>The sends, and the sends under way that have still to make their copy.\<close>

fun sends :: "owned_op \<Rightarrow> bool" where
  "sends (TrySend b) = True" | "sends (Send b) = True" | "sends _ = False"

fun to_copy :: "owned_k \<Rightarrow> bool" where
  "to_copy (SubmitWaitK b message e) = (message = None)" | "to_copy _ = False"

text \<open>The messages in the queue, in order.\<close>

definition queued_messages :: "sync_owned_bytes_channel_core_t \<Rightarrow> sync_owned_bytes_message_t list" where
  "queued_messages c = ring_list (slots c) (head c) (count c)"

text \<open>The answer of a try-send that finds the core \<open>c\<close>: its documented result codes.\<close>

definition try_send_code :: "int \<Rightarrow> int \<Rightarrow> sync_owned_bytes_channel_core_t \<Rightarrow> bytes \<Rightarrow> int" where
  "try_send_code mm mq c b =
     (if int (length b) > mm then 3 else if closed c \<noteq> 0 \<or> receiver_alive c = 0 then 2
      else if count c = capacity c then 1 else if queued_bytes c + int (length b) > mq then 4 else 0)"

text \<open>Concrete runs: capacity 2, two bytes per message and in the queue.\<close>

definition owned_empty_world :: owned_world where
  "owned_empty_world = \<lparr>calls = [], mem = Map.empty, fresh = 0, next_init_error = 0, next_operation_error = 0\<rparr>"

definition owned_demo ::
  "owned_op choice list \<Rightarrow>
   (owned_world \<times> (sync_owned_bytes_channel_handle_t \<times> owned_k mode) list \<times> (owned_op \<times> owned_ret) list) option" where
  "owned_demo xs = do {
     s \<leftarrow> owned_boot quiet_os 2 2 2 owned_empty_world;
     exec (owned_monitor 0) quiet_os xs
       (wrld s, [(sync_owned_bytes_wrap 0 1, Ready), (sync_owned_bytes_wrap 0 2, Ready)], []) }"

section \<open>Lemmas\<close>

lemma owned_past [simp]:
  "submitted [] = []" "taken [] = []"
  "submitted (ps @ [x]) = submitted ps @ submitted_by x" "taken (ps @ [x]) = taken ps @ taken_by x"
  by (simp_all add: submitted_def taken_def)

lemma message_balance_simps [simp]:
  "message_balance r {#} = 0"
  "message_balance r (add_mset m F) = owning (message_resources m) r + message_balance r F"
  "message_balance r (F + G) = message_balance r F + message_balance r G"
  by (simp_all add: message_balance_def)

lemma owned_handles [simp]:
  "sender_handles {#} = 0" "receiver_handles {#} = 0"
  "sender_handles (add_mset h H) = (if role h = 1 then 1 else 0) + sender_handles H"
  "receiver_handles (add_mset h H) = (if role h = 2 then 1 else 0) + receiver_handles H"
  by (simp_all add: sender_handles_def receiver_handles_def)

lemma live_log:
  assumes "owned_live cap mm mq a B c bs w H F ps" "\<forall>r. balance r ks = 0"
  shows "owned_live cap mm mq a B c bs (w\<lparr>calls := calls w @ ks\<rparr>) H F ps"
  using assms by (simp add: owned_live_def)

subsection \<open>The invariant in a critical section\<close>

lemma owned_lock:
  assumes "owned_inv cap mm mq a B w (add_mset h H) F ps" "k = (MutexLock a, 0) \<or> k = (CondWait a cv, st)"
  obtains c bs where "owned_locked cap mm mq a B c bs (w\<lparr>calls := calls w @ [k]\<rparr>) (add_mset h H) F ps"
  using assms by (auto simp: owned_inv_def owned_locked_def mutex_state_def mutex_run_append dest: live_log [where ks = "[k]"])

lemma owned_no_lock:
  assumes "owned_inv cap mm mq a B w (add_mset h H) F ps" "st \<noteq> 0" "submitted_by x = []" "taken_by x = []"
  shows "owned_inv cap mm mq a B (w\<lparr>calls := calls w @ [(MutexLock a, st)]\<rparr>) (add_mset h H) F (ps @ [x])"
  using assms by (auto simp: owned_inv_def owned_live_def mutex_state_def mutex_run_append)

lemma owned_unlock:
  assumes "owned_locked cap mm mq a B c bs w H F ps"
  shows "owned_inv cap mm mq a B (w\<lparr>calls := calls w @ [(MutexUnlock a, st)]\<rparr>) H F ps"
    "owned_inv cap mm mq a B (w\<lparr>calls := calls w @ [(CondSleep a cv, st)]\<rparr>) H F ps"
  using assms by (auto simp: owned_inv_def owned_locked_def owned_live_def mutex_state_def mutex_run_append)

lemma owned_past_nil:
  assumes "owned_inv cap mm mq a B w H F ps" "submitted_by x = []" "taken_by x = []"
  shows "owned_inv cap mm mq a B w H F (ps @ [x])"
  using assms by (auto simp: owned_inv_def owned_live_def)

lemma owned_release:
  assumes "owned_inv cap mm mq a B w H (mset_set (set_option message) + F) ps"
  shows "owned_inv cap mm mq a B (sync_owned_bytes_message_release message w) H F ps"
  using assms
  by (cases message; cases "data (the message)")
    (auto simp: sync_owned_bytes_message_release_def free_data_def os_defs owned_inv_def owned_live_def
      mutex_state_def mutex_run_append message_resources_def)

lemma owned_copy:
  assumes "owned_inv cap mm mq a B w H F ps"
    and "sync_owned_bytes_message_copy os bytes (int (length bytes)) w = Some (m, w')"
  shows "m = copy_message bytes" "owned_inv cap mm mq a B w' H (add_mset m F) ps"
  using assms
  by (cases bytes;
    auto simp: sync_owned_bytes_message_copy_def memcpy_def os_defs owned_inv_def owned_live_def copy_message_def
      mutex_state_def mutex_run_append message_resources_def split: if_splits)+

subsection \<open>The queue\<close>

lemma queue_okD:
  assumes "queue_ok cap mm mq c bs"
  shows "ring_ok (slots c) (capacity c) (head c) (tail c) (count c)" "count c = int (length bs)"
    "0 \<le> queued_bytes c" "queued_bytes c \<le> max_queued_bytes c" "i32 (max_queued_bytes c)"
    "capacity c = cap" "max_message_bytes c = mm" "max_queued_bytes c = mq"
    "queued_bytes c = int (sum_list (map length bs))" "count c \<le> capacity c"
proof -
  show R: "ring_ok (slots c) (capacity c) (head c) (tail c) (count c)" using assms by (auto simp: queue_ok_def)
  have "length (ring_list (slots c) (head c) (count c)) = length bs" using assms by (simp add: queue_ok_def)
  then show "count c = int (length bs)" using ring_okD(6) [OF R] by (simp add: ring_list_length)
  show "0 \<le> queued_bytes c" "queued_bytes c \<le> max_queued_bytes c" "i32 (max_queued_bytes c)"
    "capacity c = cap" "max_message_bytes c = mm" "max_queued_bytes c = mq"
    "queued_bytes c = int (sum_list (map length bs))" "count c \<le> capacity c"
    using assms ring_okD(7) [OF R] by (simp_all add: queue_ok_def)
qed

lemma queue_ok_update [simp]:
  "queue_ok cap mm mq (c\<lparr>refs := r\<rparr>) bs = queue_ok cap mm mq c bs"
  "queue_ok cap mm mq (c\<lparr>senders := n\<rparr>) bs = queue_ok cap mm mq c bs"
  "queue_ok cap mm mq (c\<lparr>receiver_alive := x\<rparr>) bs = queue_ok cap mm mq c bs"
  "queue_ok cap mm mq (c\<lparr>closed := y\<rparr>) bs = queue_ok cap mm mq c bs"
  by (simp_all add: queue_ok_def)

lemma byte_capacity:
  assumes "queue_ok cap mm mq c bs"
  shows "sync_owned_bytes_has_byte_capacity c n = Some (n \<le> mq - queued_bytes c)"
  using queue_okD [OF assms]
  by (simp add: sync_owned_bytes_has_byte_capacity_def i32_sub_def i32_def INT32_MAX_def INT32_MIN_def)

lemma enqueued_ok:
  assumes q: "queue_ok cap mm mq c bs" and room: "count c \<noteq> capacity c"
    and b: "int (length b) \<le> mm" "int (length b) \<le> mq - queued_bytes c"
  shows "queue_ok cap mm mq (enqueued b c) (bs @ [b])"
proof -
  note D = queue_okD [OF q]
  have r: "count c < capacity c" using D(10) room by simp
  show ?thesis
    using q b ring_push_ok [OF D(1) r, of "copy_message b"] ring_push_list [OF D(1) r, of "copy_message b"]
    by (auto simp: queue_ok_def enqueued_def)
qed

lemma dequeued_ok:
  assumes q: "queue_ok cap mm mq c (b # bs)"
  shows "slots c ! nat (head c) = Some (copy_message b)" "queue_ok cap mm mq (dequeued b c) bs"
proof -
  note D = queue_okD [OF q]
  have n: "0 < count c" using D(2) by simp
  obtain v where v: "slots c ! nat (head c) = Some v"
      "ring_list (slots c) (head c) (count c) = v # ring_list (slots c) ((head c + 1) mod capacity c) (count c - 1)"
    using ring_pop_head [OF D(1) n] by blast
  then show "slots c ! nat (head c) = Some (copy_message b)" using q by (simp add: queue_ok_def)
  show "queue_ok cap mm mq (dequeued b c) bs"
    using q v ring_pop_ok [OF D(1) n] ring_list_clear [OF D(1) n] by (auto simp: queue_ok_def dequeued_def)
qed

lemma handles_ok_frame:
  "handles_ok c H \<Longrightarrow> refs c' = refs c \<Longrightarrow> senders c' = senders c \<Longrightarrow>
   (closed c' = 0 \<Longrightarrow> closed c = 0) \<Longrightarrow> (receiver_alive c' \<noteq> 0 \<Longrightarrow> receiver_alive c \<noteq> 0) \<Longrightarrow> handles_ok c' H"
  by (auto simp: handles_ok_def)

lemma moved_fields [simp]:
  "refs (enqueued b c) = refs c" "senders (enqueued b c) = senders c" "closed (enqueued b c) = closed c"
  "receiver_alive (enqueued b c) = receiver_alive c" "count (enqueued b c) = count c + 1"
  "refs (dequeued b c) = refs c" "senders (dequeued b c) = senders c" "closed (dequeued b c) = closed c"
  "receiver_alive (dequeued b c) = receiver_alive c" "count (dequeued b c) = count c - 1"
  by (simp_all add: enqueued_def dequeued_def)

lemma submit_commit_eq:
  assumes m: "mem w a = Some c" and q: "queue_ok cap mm mq c bs" and room: "count c \<noteq> capacity c"
    and b: "int (length b) \<le> mq - queued_bytes c"
  shows "submit_commit os a (copy_message b) (int (length b)) e w =
    (let st1 = posix_status os (CondSignal a Readable) (calls w);
         st2 = posix_status os (MutexUnlock a) (calls w @ [(CondSignal a Readable, st1)])
     in Some (Return (0, record_error (record_error e st1) st2),
       w\<lparr>calls := calls w @ [(CondSignal a Readable, st1), (MutexUnlock a, st2)],
         mem := (mem w)(a \<mapsto> enqueued b c)\<rparr>))"
proof -
  note D = queue_okD [OF q]
  have "i32_add (queued_bytes c) (int (length b)) = Some (queued_bytes c + int (length b))"
    using D(3,5,8) b by (intro i32_add_in_range i32_between [OF D(5)]) auto
  then show ?thesis
    by (simp add: submit_commit_def m ring_push_code [OF D(1) room] os_defs enqueued_def)
qed

lemma into_moonbit_eq:
  "sync_owned_bytes_into_moonbit (copy_message b) w = Some (b, sync_owned_bytes_message_release (Some (copy_message b)) w)"
  by (auto simp: sync_owned_bytes_into_moonbit_def copy_message_def memcpy_def)

lemma owned_receive_eq:
  assumes m: "mem w a = Some c" and q: "queue_ok cap mm mq c (b # bs)"
  shows "sync_owned_bytes_receive_loop os a block e w =
    (let st1 = posix_status os (CondSignal a Writable) (calls w);
         st2 = posix_status os (MutexUnlock a) (calls w @ [(CondSignal a Writable, st1)])
     in Some (Return (Some b, 0, record_error (record_error e st1) st2),
       sync_owned_bytes_message_release (Some (copy_message b))
        (w\<lparr>calls := calls w @ [(CondSignal a Writable, st1), (MutexUnlock a, st2)],
         mem := (mem w)(a \<mapsto> dequeued b c)\<rparr>)))"
proof -
  note D = queue_okD [OF q]
  have n: "count c \<noteq> 0" using D(2) by simp
  have "i32 (queued_bytes c - int (length b))" using D(4,9) by (intro i32_between [OF D(5)]) auto
  then have "i32_sub (queued_bytes c) (mlength (copy_message b)) = Some (queued_bytes c - int (length b))"
    by (simp add: copy_message_def i32_sub_in_range)
  then show ?thesis
    by (simp add: sync_owned_bytes_receive_loop_def m n ring_pop_code [OF D(1) n] dequeued_ok(1) [OF q]
        os_defs dequeued_def into_moonbit_eq)
qed

lemma locked_fail:
  assumes l: "owned_locked cap mm mq a B c bs w H (mset_set (set_option message) + F) ps"
    and run: "submit_fail os a message result e w = (out, w')" and op: "result \<noteq> 0"
  shows "owned_inv cap mm mq a B w' H (copies out + F) (record_past op (map_outcome Submitted id out) ps)"
proof -
  let ?x = "(op, Submitted (result, record_error e (posix_status os (MutexUnlock a) (calls w))))"
  have "submitted_by ?x = []" using op by (cases op) auto
  then have "owned_inv cap mm mq a B (w\<lparr>calls := calls w @ [(MutexUnlock a, posix_status os (MutexUnlock a) (calls w))]\<rparr>)
     H (mset_set (set_option message) + F) (ps @ [?x])"
    by (intro owned_past_nil owned_unlock(1) [OF l]) auto
  from owned_release [OF this] show ?thesis
    using run by (auto simp: submit_fail_def os_defs record_past_def)
qed

lemma submit_loop_eq:
  assumes "mem w a = Some c" "queue_ok cap mm mq c bs"
  shows "sync_owned_bytes_submit_loop os a b block message e w =
    (if block \<noteq> 0 \<and> closed c = 0 \<and> receiver_alive c \<noteq> 0 \<and>
        (count c = capacity c \<or> \<not> int (length b) \<le> mq - queued_bytes c) then
       Some (Wait Writable (SubmitWaitK b message e), cond_sleep a Writable w)
     else if closed c \<noteq> 0 \<or> receiver_alive c = 0 then Some (submit_fail os a message 2 e w)
     else if count c = capacity c then Some (submit_fail os a message 1 e w)
     else if \<not> int (length b) \<le> mq - queued_bytes c then Some (submit_fail os a message 4 e w)
     else case message of None \<Rightarrow> submit_copy os a b block e w
       | Some m \<Rightarrow> submit_commit os a m (int (length b)) e w)"
  using assms(1) by (auto simp: sync_owned_bytes_submit_loop_def byte_capacity [OF assms(2)] submit_full_def Let_def)

lemma locked_submit_loop:
  assumes l: "owned_locked cap mm mq a B c bs w H (mset_set (set_option message) + F) ps"
    and run: "sync_owned_bytes_submit_loop os a b block message e w = Some (out, w')"
    and m: "\<And>m. message = Some m \<Longrightarrow> m = copy_message b" and len: "int (length b) \<le> mm"
    and op: "op = Send b \<or> op = TrySend b"
  shows "owned_inv cap mm mq a B w' H (copies out + F) (record_past op (map_outcome Submitted id out) ps)"
proof -
  have c: "mem w a = Some c" and q: "queue_ok cap mm mq c bs" and h: "handles_ok c H"
    using l by (auto simp: owned_locked_def owned_live_def)
  note f = locked_fail [OF l]
  note eq = submit_loop_eq [OF c q, of os b block message e]
  let ?fits = "int (length b) \<le> mq - queued_bytes c" and ?open = "closed c = 0 \<and> receiver_alive c \<noteq> 0"
  consider (wait) "block \<noteq> 0 \<and> ?open \<and> (count c = capacity c \<or> \<not> ?fits)"
    | (shut) "\<not> ?open" | (full) "?open" "block = 0" "count c = capacity c"
    | (big) "?open" "block = 0" "count c \<noteq> capacity c" "\<not> ?fits"
    | (copy) "?open" "count c \<noteq> capacity c" "?fits" "message = None"
    | (commit) "?open" "count c \<noteq> capacity c" "?fits" "message = Some (copy_message b)"
    using m by (cases message) blast+
  then show ?thesis
  proof cases
    case wait
    then show ?thesis using run owned_unlock(2) [OF l] by (auto simp: eq record_past_def os_defs)
  next
    case copy
    have u: "owned_inv cap mm mq a B (w\<lparr>calls := calls w @ [(MutexUnlock a, st)]\<rparr>) H F ps" for st
      using owned_unlock(1) [OF l, of st] copy(4) by simp
    have "submit_copy os a b block e w = Some (out, w')" using copy run eq by simp
    then show ?thesis
      using owned_copy [OF u] op
      by (auto simp: submit_copy_def os_defs record_past_def bind_eq_Some_conv split: if_splits intro!: owned_past_nil [OF u])
  next
    case commit
    have "queue_ok cap mm mq (enqueued b c) (bs @ [b])" by (rule enqueued_ok [OF q commit(2) len commit(3)])
    moreover have "handles_ok (enqueued b c) H" by (rule handles_ok_frame [OF h]) auto
    moreover have "submit_commit os a (copy_message b) (int (length b)) e w = Some (out, w')"
      using commit run eq by simp
    ultimately show ?thesis
      using commit l op
      by (auto simp: submit_commit_eq [OF c q] Let_def record_past_def owned_inv_def owned_locked_def owned_live_def
          mutex_state_def mutex_run_append intro!: exI [of _ "bs @ [b]"])
  next
    case shut
    then have "submit_fail os a message 2 e w = (out, w')" using run eq by auto
    then show ?thesis by (rule f) simp
  next
    case full
    then have "submit_fail os a message 1 e w = (out, w')" using run eq by auto
    then show ?thesis by (rule f) simp
  next
    case big
    then have "submit_fail os a message 4 e w = (out, w')" using run eq by auto
    then show ?thesis by (rule f) simp
  qed
qed

lemma locked_owned_receive:
  assumes l: "owned_locked cap mm mq a B c bs w H F ps"
    and run: "sync_owned_bytes_receive_loop os a block e w = Some (out, w')" and op: "op = Recv \<or> op = TryRecv"
  shows "owned_inv cap mm mq a B w' H (copies out + F) (record_past op (map_outcome Received id out) ps)"
proof (cases bs)
  case Nil
  have c: "mem w a = Some c" and "count c = 0"
    using l queue_okD(2) Nil by (fastforce simp: owned_locked_def owned_live_def)+
  then show ?thesis using run op
    by (auto simp: sync_owned_bytes_receive_loop_def os_defs record_past_def split: if_splits
        intro!: owned_past_nil owned_unlock [OF l])
next
  case (Cons b bs')
  have c: "mem w a = Some c" and q: "queue_ok cap mm mq c (b # bs')" and h: "handles_ok c H"
    using l Cons by (auto simp: owned_locked_def owned_live_def)
  have "handles_ok (dequeued b c) H" by (rule handles_ok_frame [OF h]) auto
  then have i: "owned_inv cap mm mq a B (w\<lparr>calls := calls w @ [(CondSignal a Writable, st1), (MutexUnlock a, st2)],
      mem := (mem w)(a \<mapsto> dequeued b c)\<rparr>) H (mset_set (set_option (Some (copy_message b))) + F)
      (ps @ [(op, Received (Some b, 0, e'))])" for st1 st2 e'
    using l op dequeued_ok(2) [OF q] Cons
    by (auto simp: owned_inv_def owned_locked_def owned_live_def mutex_state_def mutex_run_append
        intro!: exI [of _ bs'])
  show ?thesis
    using run owned_release [OF i] by (auto simp: owned_receive_eq [OF c q] Let_def record_past_def)
qed

lemma in_flight_simps [simp]:
  "in_flight {#} = {#}"
  "in_flight (add_mset (h, None) A) = in_flight A"
  "in_flight (add_mset (h, Some k) A) = copy_of k + in_flight A"
  "in_flight (A + B) = in_flight A + in_flight B"
  by (simp_all add: in_flight_def)

lemma owned_inv_handle: "owned_inv cap mm mq a B w (add_mset h H) F ps \<Longrightarrow> core h = Some a"
  by (auto simp: owned_inv_def owned_live_def)

lemma record_Return [simp]: "record_past op (Return r) ps = ps @ [(op, r)]"
  by (simp add: record_past_def)

subsection \<open>The operations keep the invariant\<close>

lemma submit_lock_inv:
  assumes inv: "owned_inv cap mm mq a B w (add_mset h H) (mset_set (set_option message) + F) ps"
    and m: "\<And>m. message = Some m \<Longrightarrow> m = copy_message b"
    and op: "op = Send b \<or> op = TrySend b"
    and run: "sync_owned_bytes_submit_lock os a b block message w = Some (out, w')"
  shows "owned_inv cap mm mq a B w' (add_mset h H) (copies out + F) (record_past op (map_outcome Submitted id out) ps)"
proof (cases "posix_status os (MutexLock a) (calls w) = 0")
  case True
  obtain c bs where l: "owned_locked cap mm mq a B c bs (w\<lparr>calls := calls w @ [(MutexLock a, 0)]\<rparr>)
      (add_mset h H) (mset_set (set_option message) + F) ps"
    using owned_lock [OF inv] by blast
  then have c: "mem w a = Some c" "max_message_bytes c = mm"
    by (auto simp: owned_locked_def owned_live_def queue_ok_def)
  show ?thesis
  proof (cases "int (length b) > mm")
    case big: True
    then have "submit_fail os a message 3 0 (w\<lparr>calls := calls w @ [(MutexLock a, 0)]\<rparr>) = (out, w')"
      using run True c by (auto simp: sync_owned_bytes_submit_lock_def os_defs)
    then show ?thesis by (rule locked_fail [OF l]) simp
  next
    case False
    then have "sync_owned_bytes_submit_loop os a b block message 0 (w\<lparr>calls := calls w @ [(MutexLock a, 0)]\<rparr>) = Some (out, w')"
      using run True c by (auto simp: sync_owned_bytes_submit_lock_def os_defs)
    then show ?thesis by (rule locked_submit_loop [OF l _ m]) (use False op in auto)
  qed
next
  case False
  let ?st = "posix_status os (MutexLock a) (calls w)"
  have "owned_inv cap mm mq a B (w\<lparr>calls := calls w @ [(MutexLock a, ?st)]\<rparr>) (add_mset h H)
      (mset_set (set_option message) + F) (ps @ [(op, Submitted (2, ?st))])"
    by (rule owned_no_lock [OF inv False]) (use op in auto)
  from owned_release [OF this] show ?thesis
    using run False by (auto simp: sync_owned_bytes_submit_lock_def os_defs)
qed

lemma submit_start_inv:
  assumes inv: "owned_inv cap mm mq a B w (add_mset h H) F ps" and op: "op = Send b \<or> op = TrySend b"
    and run: "sync_owned_bytes_submit_start os h b block w = Some (out, w')"
  shows "owned_inv cap mm mq a B w' (add_mset h H) (copies out + F) (record_past op (map_outcome Submitted id out) ps)"
proof -
  let ?w = "w\<lparr>next_operation_error := 0\<rparr>"
  have inv': "owned_inv cap mm mq a B ?w (add_mset h H) (mset_set (set_option None) + F) ps"
    using inv by (simp add: owned_inv_def owned_live_def mutex_state_def)
  have a: "core h = Some a" using inv by (rule owned_inv_handle)
  show ?thesis
  proof (cases "next_operation_error w = 0")
    case True
    then have "sync_owned_bytes_submit_lock os a b block None ?w = Some (out, w')"
      using run a by (simp add: sync_owned_bytes_submit_start_def sync_owned_bytes_channel_test_take_next_operation_error_def
          sync_test_atomic_take_def)
    from submit_lock_inv [OF inv' _ op this] show ?thesis by simp
  next
    case False
    then show ?thesis
      using run a op owned_past_nil [OF inv', of "(op, Submitted (2, next_operation_error w))"]
      by (auto simp: sync_owned_bytes_submit_start_def sync_owned_bytes_channel_test_take_next_operation_error_def
          sync_test_atomic_take_def)
  qed
qed

lemma submit_wake_inv:
  assumes inv: "owned_inv cap mm mq a B w (add_mset h H) (mset_set (set_option message) + F) ps"
    and m: "\<And>m. message = Some m \<Longrightarrow> m = copy_message b" and len: "int (length b) \<le> mm"
    and run: "sync_owned_bytes_submit_wake os a b message e w = Some (out, w')"
  shows "owned_inv cap mm mq a B w' (add_mset h H) (copies out + F) (record_past (Send b) (map_outcome Submitted id out) ps)"
proof -
  let ?st = "ret os (calls w) (CondWait a Writable)"
  obtain c bs where l: "owned_locked cap mm mq a B c bs (w\<lparr>calls := calls w @ [(CondWait a Writable, ?st)]\<rparr>)
      (add_mset h H) (mset_set (set_option message) + F) ps"
    using owned_lock [OF inv, of "(CondWait a Writable, ?st)" Writable ?st] by auto
  show ?thesis
  proof (cases "?st = 0")
    case True
    then have "sync_owned_bytes_submit_loop os a b 1 message e (w\<lparr>calls := calls w @ [(CondWait a Writable, ?st)]\<rparr>) = Some (out, w')"
      using run by (simp add: sync_owned_bytes_submit_wake_def os_defs)
    then show ?thesis by (rule locked_submit_loop [OF l _ m len]) auto
  next
    case False
    then have "submit_fail os a message 2 (record_error e ?st) (w\<lparr>calls := calls w @ [(CondWait a Writable, ?st)]\<rparr>) = (out, w')"
      using run by (simp add: sync_owned_bytes_submit_wake_def os_defs)
    then show ?thesis by (rule locked_fail [OF l]) simp
  qed
qed

lemma owned_receive_start_inv:
  assumes inv: "owned_inv cap mm mq a B w (add_mset h H) F ps" and op: "op = Recv \<or> op = TryRecv"
    and run: "sync_owned_bytes_receive_start os h block w = Some (out, w')"
  shows "owned_inv cap mm mq a B w' (add_mset h H) (copies out + F) (record_past op (map_outcome Received id out) ps)"
proof -
  have a: "core h = Some a" using inv by (rule owned_inv_handle)
  obtain c bs where l: "owned_locked cap mm mq a B c bs (w\<lparr>calls := calls w @ [(MutexLock a, 0)]\<rparr>) (add_mset h H) F ps"
    using owned_lock [OF inv] by blast
  show ?thesis
    using run a locked_owned_receive [OF l _ op] owned_no_lock [OF inv] op
    by (auto simp: sync_owned_bytes_receive_start_def os_defs split: if_splits)
qed

lemma owned_receive_wake_inv:
  assumes inv: "owned_inv cap mm mq a B w (add_mset h H) F ps"
    and run: "sync_owned_bytes_receive_wake os a e w = Some (out, w')"
  shows "owned_inv cap mm mq a B w' (add_mset h H) (copies out + F) (record_past Recv (map_outcome Received id out) ps)"
proof -
  let ?st = "ret os (calls w) (CondWait a Readable)"
  obtain c bs where l: "owned_locked cap mm mq a B c bs (w\<lparr>calls := calls w @ [(CondWait a Readable, ?st)]\<rparr>) (add_mset h H) F ps"
    using owned_lock [OF inv, of "(CondWait a Readable, ?st)" Readable ?st] by auto
  show ?thesis
    using run locked_owned_receive [OF l, of os 1 _ _ _ Recv] owned_past_nil [OF owned_unlock(1) [OF l]]
    by (auto simp: sync_owned_bytes_receive_wake_def os_defs split: if_splits)
qed

lemma owned_len_inv:
  assumes inv: "owned_inv cap mm mq a B w (add_mset h H) F ps"
    and run: "sync_owned_bytes_receiver_len os h w = Some ((n, st), w')"
  shows "owned_inv cap mm mq a B w' (add_mset h H) F (ps @ [(Len, Number n st)])"
proof -
  have a: "core h = Some a" using inv by (rule owned_inv_handle)
  obtain c bs where l: "owned_locked cap mm mq a B c bs (w\<lparr>calls := calls w @ [(MutexLock a, 0)]\<rparr>) (add_mset h H) F ps"
    using owned_lock [OF inv] by blast
  then have m: "mem w a = Some c" by (simp add: owned_locked_def owned_live_def)
  show ?thesis
    using run a m owned_past_nil [OF owned_unlock(1) [OF l]] owned_no_lock [OF inv]
    by (auto simp: sync_owned_bytes_receiver_len_def os_defs split: if_splits)
qed

lemma close_owned_inv:
  assumes inv: "owned_inv cap mm mq a B w (add_mset h H) F ps" and run: "close_owned os a f w = Some (st, w')"
    and f: "\<And>c. handles_ok c (add_mset h H) \<Longrightarrow> handles_ok (f c) (add_mset h H)"
      "\<And>c bs. queue_ok cap mm mq c bs \<Longrightarrow> queue_ok cap mm mq (f c) bs"
    and op: "op = SenderClose \<or> op = ReceiverClose"
  shows "owned_inv cap mm mq a B w' (add_mset h H) F (ps @ [(op, Status st)])"
proof (cases "posix_status os (MutexLock a) (calls w) = 0")
  case True
  then show ?thesis
    using run inv f op
    by (auto simp: close_owned_def owned_inv_def owned_live_def os_defs mutex_state_def mutex_run_append)
next
  case False
  then show ?thesis
    using run inv op by (auto simp: close_owned_def os_defs intro!: owned_no_lock)
qed

lemma owned_share_inv:
  assumes inv: "owned_inv cap mm mq a B w (add_mset h H) F ps" and h: "role h = 1"
    and run: "sync_owned_bytes_sender_share os h w = Some ((g, st), w')"
  shows "owned_inv cap mm mq a B w' (add_mset h H + (case g of None \<Rightarrow> {#} | Some x \<Rightarrow> {#x#})) F (ps @ [(Share, Handle g st)])"
proof (cases "posix_status os (MutexLock a) (calls w) = 0")
  case True
  have a: "core h = Some a" using inv by (rule owned_inv_handle)
  obtain c bs where l: "owned_live cap mm mq a B c bs w (add_mset h H) F ps" and mu: "mutex_state a w = Some False"
    using inv by (auto simp: owned_inv_def)
  then have m: "mem w a = Some c" by (simp add: owned_live_def)
  obtain n where n: "i32_add (senders c) 1 = Some n" using run True a m
    by (auto simp: sync_owned_bytes_sender_share_def os_defs split: Option.bind_splits)
  then have n': "n = senders c + 1" "i32 n" by (auto simp: i32_add_def split: if_splits)
  have "handles_ok (c\<lparr>senders := n, refs := refs c + 1\<rparr>) (add_mset (sync_owned_bytes_wrap a 1) (add_mset h H))"
    using l n' h by (auto simp: owned_live_def handles_ok_def sync_owned_bytes_wrap_def)
  moreover have "queue_ok cap mm mq (c\<lparr>senders := n, refs := refs c + 1\<rparr>) bs"
    using l by (simp add: owned_live_def)
  ultimately show ?thesis
    using run l True a n mu
    by (auto simp: sync_owned_bytes_sender_share_def os_defs owned_inv_def owned_live_def mutex_state_def mutex_run_append
        sync_owned_bytes_wrap_def add_mset_commute)
next
  case False
  have a: "core h = Some a" using inv by (rule owned_inv_handle)
  show ?thesis using run inv False a by (auto simp: sync_owned_bytes_sender_share_def os_defs intro!: owned_no_lock)
qed

subsection \<open>Finalizers\<close>

lemma release_log_simps [simp]:
  "release_log [] = []"
  "release_log (m # ms) = (if data m = None then [] else [(Free DataBlock, 0)]) @ [(Free MessageBlock, 0)] @ release_log ms"
  by (simp_all add: release_log_def)

lemma release_log_balance: "balance r (release_log ms) = - message_balance r (mset ms)"
  by (induction ms) (auto simp: message_resources_def)

lemma release_log_mutex: "mutex_run a held (release_log ms) = Some held"
  by (induction ms) (auto simp: mutex_run_append)

lemma release_messages_eq:
  "i + n = length cs \<Longrightarrow> release_messages cs n (int i) w =
     Some (w\<lparr>calls := calls w @ release_log (occupied (drop i cs))\<rparr>)"
proof (induction n arbitrary: i w)
  case (Suc n)
  have d: "drop i cs = cs ! i # drop (Suc i) cs" using Suc.prems by (intro Cons_nth_drop_Suc [symmetric]) simp
  have g: "cell_get cs (int i) = Some (cs ! i)" using Suc.prems by (simp add: cell_get_def)
  have s: "release_messages cs n (int i + 1) x =
      Some (x\<lparr>calls := calls x @ release_log (occupied (drop (Suc i) cs))\<rparr>)" for x
    using Suc.IH [of "Suc i" x] Suc.prems by (simp add: add.commute)
  show ?case
    by (cases "cs ! i"; cases "data (the (cs ! i))")
      (auto simp: g s d sync_owned_bytes_message_release_def free_data_def c_free_def log_call_def)
qed simp

lemma release_all_messages:
  assumes "queue_ok cap mm mq c bs"
  shows "release_messages (slots c) (nat (capacity c)) 0 w = Some (w\<lparr>calls := calls w @ release_log (occupied (slots c))\<rparr>)"
    "mset (occupied (slots c)) = mset (map copy_message bs)"
proof -
  note R = queue_okD(1) [OF assms]
  show "release_messages (slots c) (nat (capacity c)) 0 w = Some (w\<lparr>calls := calls w @ release_log (occupied (slots c))\<rparr>)"
    using release_messages_eq [of 0 "length (slots c)" "slots c" w] ring_okD(3) [OF R] by simp
  show "mset (occupied (slots c)) = mset (map copy_message bs)"
    using mset_occupied [OF R] assms by (simp add: queue_ok_def)
qed

lemma owned_release_live:
  assumes "mem w a = Some c" "refs c - 1 \<noteq> 0"
  shows "sync_owned_bytes_core_release os a w = Some (w\<lparr>mem := (mem w)(a \<mapsto> c\<lparr>refs := refs c - 1\<rparr>)\<rparr>)"
  using assms by (simp add: sync_owned_bytes_core_release_def os_defs)

lemma owned_release_last:
  assumes "mem w a = Some c" "refs c - 1 = 0" "queue_ok cap mm mq c bs"
    "sync_owned_bytes_core_release os a w = Some w'"
  shows "w' = w\<lparr>calls := calls w @ release_log (occupied (slots c)) @
      [(Free SlotsBlock, 0), (CondDestroy a Writable, 0), (CondDestroy a Readable, 0), (MutexDestroy a, 0),
       (Free CoreBlock, 0)], mem := (mem w)(a := None)\<rparr>"
  using assms
  by (auto simp: sync_owned_bytes_core_release_def os_defs release_all_messages(1) [OF assms(3)] split: Option.bind_splits)

lemma owned_finalize_eq:
  assumes a: "core h = Some a" and m: "mem w a = Some c" and i: "i32 (senders c)" "role h = 1 \<Longrightarrow> 0 < senders c"
    and run: "os_ok os \<or> sync_owned_bytes_finalize os h w \<noteq> None"
  shows "sync_owned_bytes_finalize os h w = sync_owned_bytes_core_release os a
     (w\<lparr>calls := calls w @ owned_drop_calls a h c, mem := (mem w)(a \<mapsto> owned_dropped h c)\<rparr>)"
proof -
  have sub: "role h = 1 \<Longrightarrow> i32_sub (senders c) 1 = Some (senders c - 1)"
    using i by (simp add: i32_sub_one)
  have same: "(mem w)(a \<mapsto> c) = mem w" using m by auto
  note defs = sync_owned_bytes_finalize_def broadcast_both_or_abort_def os_defs owned_drop_calls_def owned_closes_def owned_dropped_def
  consider "role h = 1" "senders c = 1" | "role h = 1" "senders c \<noteq> 1"
    | "role h = 2" "receiver_alive c \<noteq> 0" | "role h \<noteq> 1" "\<not> owned_closes h c"
    by (auto simp: owned_closes_def)
  then show ?thesis
  proof cases
    case 1 then show ?thesis using run a m sub by (auto simp: defs abort_if_failed_def split: if_splits)
  next
    case 2 then show ?thesis using run a m sub by (auto simp: defs abort_if_failed_def split: if_splits)
  next
    case 3 then show ?thesis using run a m by (auto simp: defs abort_if_failed_def split: if_splits)
  next
    case 4 then show ?thesis using run a m same by (auto simp: defs abort_if_failed_def split: if_splits)
  qed
qed

lemma owned_dropped_ok:
  assumes "handles_ok c (add_mset h H)" "H \<noteq> {#}"
  shows "handles_ok ((owned_dropped h c)\<lparr>refs := refs c - 1\<rparr>) H"
  using assms
  by (auto simp: handles_ok_def owned_dropped_def owned_closes_def i32_def INT32_MIN_def split: if_splits)

lemma owned_dropped_fields [simp]:
  "refs (owned_dropped h c) = refs c" "slots (owned_dropped h c) = slots c"
  "queue_ok cap mm mq (owned_dropped h c) bs = queue_ok cap mm mq c bs" "count (owned_dropped h c) = count c"
  by (auto simp: owned_dropped_def)

lemma handles_ok_size: "handles_ok c H \<Longrightarrow> size H < 2 ^ 32"
proof -
  have "\<forall>h \<in># H. role h = 1 \<or> role h = 2 \<Longrightarrow> size H = sender_handles H + receiver_handles H"
    by (induction H) auto
  then show "handles_ok c H \<Longrightarrow> size H < 2 ^ 32" by (auto simp: handles_ok_def i32_def INT32_MAX_def)
qed

lemma owned_finalize_inv:
  assumes inv: "owned_inv cap mm mq a B w (add_mset h H) F ps"
    and run: "sync_owned_bytes_finalize os h w = Some w'"
  shows "owned_inv cap mm mq a B w' H F (ps @ [(Finalize, Dropped)])"
proof -
  obtain c bs where l: "owned_live cap mm mq a B c bs w (add_mset h H) F ps" and mu: "mutex_state a w = Some False"
    using inv by (auto simp: owned_inv_def)
  then have m: "mem w a = Some c" and q: "queue_ok cap mm mq c bs" and ho: "handles_ok c (add_mset h H)"
    and a: "core h = Some a" by (auto simp: owned_live_def)
  let ?w = "w\<lparr>calls := calls w @ owned_drop_calls a h c, mem := (mem w)(a \<mapsto> owned_dropped h c)\<rparr>"
  have rel: "sync_owned_bytes_core_release os a ?w = Some w'"
    using owned_finalize_eq [OF a m, of os] run ho by (auto simp: handles_ok_def)
  have sz: "refs c - 1 = of_nat (size H)" using ho by (simp add: handles_ok_def)
  have ms: "mutex_run a False (calls ?w) = Some False"
    using mu by (auto simp: mutex_state_def mutex_run_append owned_drop_calls_def)
  have bl: "balance r (calls ?w) = balance r (calls w)" for r by (auto simp: owned_drop_calls_def)
  have wf: "of_nat (size H) = (0 :: 32 word) \<longleftrightarrow> H = {#}"
    using handles_ok_size [OF ho] refs_zero_iff [of "size H"] by simp
  show ?thesis
  proof (cases "H = {#}")
    case True
    have w': "w' = ?w\<lparr>calls := calls ?w @ release_log (occupied (slots (owned_dropped h c))) @
      [(Free SlotsBlock, 0), (CondDestroy a Writable, 0), (CondDestroy a Readable, 0), (MutexDestroy a, 0),
       (Free CoreBlock, 0)], mem := (mem ?w)(a := None)\<rparr>"
      by (rule owned_release_last [OF _ _ _ rel]) (use q sz True in auto)
    have "balance r (calls w') = B r + message_balance r F" for r
      using l release_all_messages(2) [OF q] bl [of r]
      by (simp add: w' owned_live_def release_log_balance owned_resources_def)
    moreover have "mutex_state a w' = Some False"
      using ms by (auto simp: w' mutex_state_def mutex_run_append release_log_mutex bind_eq_Some_conv)
    ultimately show ?thesis using True l by (auto simp: w' owned_inv_def owned_live_def)
  next
    case False
    have w': "w' = ?w\<lparr>mem := (mem ?w)(a \<mapsto> (owned_dropped h c)\<lparr>refs := refs c - 1\<rparr>)\<rparr>"
      using rel owned_release_live [of ?w a "owned_dropped h c" os] sz wf False by (cases "refs c = 1") auto
    show ?thesis
      using False l ms bl owned_dropped_ok [OF ho False] q
      by (auto simp: w' owned_inv_def owned_live_def mutex_state_def)
  qed
qed

subsection \<open>The channel is a monitor\<close>

lemma settle_owned:
  "settle (owned_monitor a) op h (Return r) =
     (if op = Finalize then {#} else {#(h, Ready)#}) +
     (case owned_born r of None \<Rightarrow> {#} | Some g \<Rightarrow> {#(g, Ready)#})"
  "settle (owned_monitor a) op h (Wait cv k) = {#(h, Asleep cv k)#}"
  "settle (owned_monitor a) op h (Again k) = {#(h, Runnable k)#}"
  by (simp_all add: settle_def owned_monitor_def split: option.splits)

lemma settle_owned_tags:
  assumes "op \<noteq> Finalize"
  shows "image_mset fst (settle (owned_monitor a) op h (map_outcome Submitted f out)) = {#h#}"
    "in_flight (image_mset tag (settle (owned_monitor a) op h (map_outcome Submitted id out))) = copies out"
    "image_mset fst (settle (owned_monitor a) op h (map_outcome Received f out')) = {#h#}"
    "in_flight (image_mset tag (settle (owned_monitor a) op h (map_outcome Received id out'))) = copies out'"
  using assms by (cases out; cases out'; simp add: settle_owned)+

lemma owned_monitor_simps [simp]:
  "site (owned_monitor a) = a" "may (owned_monitor a) = owned_may"
  "enter (owned_monitor a) = owned_enter" "resume (owned_monitor a) = owned_resume"
  "pending (owned_monitor a) = owned_pending" "born (owned_monitor a) = owned_born"
  "drops (owned_monitor a) op = (op = Finalize)"
  by (simp_all add: owned_monitor_def)

lemma handles_ok_close:
  "handles_ok c H \<Longrightarrow> handles_ok (c\<lparr>closed := 1\<rparr>) H"
  "handles_ok c H \<Longrightarrow> handles_ok (c\<lparr>closed := 1, receiver_alive := 0\<rparr>) H"
  by (auto simp: handles_ok_def)

lemma owned_enter_inv:
  assumes inv: "owned_inv cap mm mq a B w (add_mset h H) F ps" and may: "owned_may op h"
    and run: "owned_enter os op h w = Some (out, w')"
  shows "owned_inv cap mm mq a B w' (H + image_mset fst (settle (owned_monitor a) op h out))
     (F + in_flight (image_mset tag (settle (owned_monitor a) op h out))) (record_past op out ps)"
proof (cases op)
  case Share
  then obtain g st where g: "sync_owned_bytes_sender_share os h w = Some ((g, st), w')" "out = Return (Handle g st)"
    using run by auto
  have "role h = 1" using may Share by simp
  from owned_share_inv [OF inv this g(1)] show ?thesis
    using Share g(2) by (cases g) (auto simp: settle_owned)
next
  case (Send b)
  then show ?thesis using run submit_start_inv [OF inv]
    by (auto simp: settle_owned_tags add.commute)
next
  case (TrySend b)
  then show ?thesis using run submit_start_inv [OF inv]
    by (auto simp: settle_owned_tags add.commute)
next
  case Recv
  then show ?thesis using run owned_receive_start_inv [OF inv, of Recv]
    by (auto simp: settle_owned_tags add.commute)
next
  case TryRecv
  then show ?thesis using run owned_receive_start_inv [OF inv, of TryRecv]
    by (auto simp: settle_owned_tags add.commute)
next
  case SenderClose
  then show ?thesis using run owned_inv_handle [OF inv]
    by (auto simp: settle_owned sync_owned_bytes_sender_close_def intro!: close_owned_inv [OF inv] intro: handles_ok_close)
next
  case ReceiverClose
  then show ?thesis using run owned_inv_handle [OF inv]
    by (auto simp: settle_owned sync_owned_bytes_receiver_close_def intro!: close_owned_inv [OF inv] intro: handles_ok_close)
next
  case Len
  then show ?thesis using run owned_len_inv [OF inv] by (auto simp: settle_owned)
next
  case Finalize
  then show ?thesis using run owned_finalize_inv [OF inv] by (auto simp: settle_owned)
qed

lemma owned_resume_inv:
  assumes inv: "owned_inv cap mm mq a B w (add_mset h H) (copy_of k + F) ps" and kok: "owned_kok mm h k"
    and run: "owned_resume os k h w = Some (out, w')"
  shows "owned_inv cap mm mq a B w' (H + image_mset fst (settle (owned_monitor a) (owned_pending k) h out))
     (F + in_flight (image_mset tag (settle (owned_monitor a) (owned_pending k) h out))) (record_past (owned_pending k) out ps)"
proof (cases k)
  case (SubmitWaitK b message e)
  then obtain out' where o: "sync_owned_bytes_submit_wake os a b message e w = Some (out', w')" "out = map_outcome Submitted id out'"
    using run owned_inv_handle [OF inv] by auto
  have "owned_inv cap mm mq a B w' (add_mset h H) (copies out' + F) (record_past (Send b) (map_outcome Submitted id out') ps)"
    by (rule submit_wake_inv [OF _ _ _ o(1)]) (use inv kok SubmitWaitK in auto)
  then show ?thesis using SubmitWaitK o(2) by (simp add: settle_owned_tags add.commute [of F])
next
  case (SubmitLockK b block m)
  then obtain out' where o: "sync_owned_bytes_submit_lock os a b block (Some m) w = Some (out', w')" "out = map_outcome Submitted id out'"
    using run owned_inv_handle [OF inv] by auto
  have "owned_inv cap mm mq a B w' (add_mset h H) (copies out' + F)
      (record_past (if block \<noteq> 0 then Send b else TrySend b) (map_outcome Submitted id out') ps)"
    by (rule submit_lock_inv [OF _ _ _ o(1)]) (use inv kok SubmitLockK in auto)
  then show ?thesis using SubmitLockK o(2) by (simp add: settle_owned_tags add.commute [of F])
next
  case (RecvK e)
  then obtain out' where o: "sync_owned_bytes_receive_wake os a e w = Some (out', w')" "out = map_outcome Received id out'"
    using run owned_inv_handle [OF inv] by auto
  have "owned_inv cap mm mq a B w' (add_mset h H) (copies out' + F) (record_past Recv (map_outcome Received id out') ps)"
    by (rule owned_receive_wake_inv [OF _ o(1)]) (use inv RecvK in auto)
  then show ?thesis using RecvK o(2) by (simp add: settle_owned_tags add.commute [of F])
qed

lemma submit_loop_outcome:
  assumes "mem w a = Some c" "queue_ok cap mm mq c bs"
    "sync_owned_bytes_submit_loop os a b block message e w = Some (out, w')"
  shows "(\<exists>r. out = Return r) \<or> out = Wait Writable (SubmitWaitK b message e) \<or> out = Again (SubmitLockK b block (copy_message b))"
  using assms(3) unfolding submit_loop_eq [OF assms(1,2)]
  by (cases b) (auto simp: submit_fail_def submit_copy_def submit_commit_def sync_owned_bytes_message_copy_def
      memcpy_def copy_message_def os_defs bind_eq_Some_conv split: if_splits option.splits)

lemma owned_receive_outcome:
  "sync_owned_bytes_receive_loop os a block e w = Some (out, w') \<Longrightarrow> (\<exists>r. out = Return r) \<or> out = Wait Readable (RecvK e)"
  by (auto simp: sync_owned_bytes_receive_loop_def os_defs bind_eq_Some_conv split: if_splits)

lemma submit_lock_outcome:
  assumes inv: "owned_inv cap mm mq a B w (add_mset h H) F ps"
    and run: "sync_owned_bytes_submit_lock os a b block message w = Some (out, w')"
  shows "(\<exists>r. out = Return r) \<or>
    int (length b) \<le> mm \<and> (out = Wait Writable (SubmitWaitK b message 0) \<or> out = Again (SubmitLockK b block (copy_message b)))"
proof -
  obtain c bs where c: "mem w a = Some c" "queue_ok cap mm mq c bs" using inv by (auto simp: owned_inv_def owned_live_def)
  then show ?thesis
    using run queue_okD(7) [OF c(2)] submit_loop_outcome [OF _ c(2), of "w\<lparr>calls := calls w @ [(MutexLock a, 0)]\<rparr>" a os b block message 0 out w']
    by (auto simp: sync_owned_bytes_submit_lock_def os_defs submit_fail_def split: if_splits)
qed

lemma submit_wake_outcome:
  assumes c: "mem w a = Some c" "queue_ok cap mm mq c bs"
    and run: "sync_owned_bytes_submit_wake os a b message e w = Some (out, w')"
  shows "(\<exists>r. out = Return r) \<or> out = Wait Writable (SubmitWaitK b message e) \<or> out = Again (SubmitLockK b 1 (copy_message b))"
proof (cases "ret os (calls w) (CondWait a Writable) = 0")
  case True
  then have "sync_owned_bytes_submit_loop os a b 1 message e (w\<lparr>calls := calls w @ [(CondWait a Writable, 0)]\<rparr>) = Some (out, w')"
    using run by (simp add: sync_owned_bytes_submit_wake_def os_defs)
  from submit_loop_outcome [OF _ c(2) this] c(1) show ?thesis by simp
next
  case False
  then show ?thesis using run by (auto simp: sync_owned_bytes_submit_wake_def submit_fail_def os_defs)
qed

lemma owned_enter_kok:
  assumes inv: "owned_inv cap mm mq a B w (add_mset h H) F ps" and may: "owned_may op h"
    and run: "owned_enter os op h w = Some (out, w')"
  shows "all_pending (owned_kok mm) (settle (owned_monitor a) op h out)"
proof -
  have a: "core h = Some a" using inv by (rule owned_inv_handle)
  have sub: "(\<exists>r. out' = Return r) \<or> int (length b) \<le> mm \<and> (out' = Wait Writable (SubmitWaitK b None 0) \<or> out' = Again (SubmitLockK b block (copy_message b)))"
    if "sync_owned_bytes_submit_start os h b block w = Some (out', w')" for b block out'
  proof -
    have "owned_inv cap mm mq a B (w\<lparr>next_operation_error := 0\<rparr>) (add_mset h H) F ps"
      using inv by (simp add: owned_inv_def owned_live_def mutex_state_def)
    from submit_lock_outcome [OF this] that a show ?thesis
      by (auto simp: sync_owned_bytes_submit_start_def sync_owned_bytes_channel_test_take_next_operation_error_def
          sync_test_atomic_take_def split: if_splits)
  qed
  show ?thesis
  proof (cases op)
    case (TrySend b)
    then show ?thesis using run may sub [of b 0] by (auto simp: settle_owned split: option.splits)
  next
    case (Send b)
    then show ?thesis using run may sub [of b 1] by (auto simp: settle_owned split: option.splits)
  next
    case Recv
    then show ?thesis using run may a
      by (auto simp: settle_owned sync_owned_bytes_receive_start_def os_defs split: if_splits dest!: owned_receive_outcome)
  next
    case TryRecv
    then show ?thesis using run may a
      by (auto simp: settle_owned sync_owned_bytes_receive_start_def os_defs split: if_splits dest!: owned_receive_outcome)
  qed (use run in \<open>auto simp: settle_owned split: option.splits\<close>)
qed

lemma owned_resume_kok:
  assumes inv: "owned_inv cap mm mq a B w (add_mset h H) F ps" and kok: "owned_kok mm h k"
    and run: "owned_resume os k h w = Some (out, w')"
  shows "all_pending (owned_kok mm) (settle (owned_monitor a) (owned_pending k) h out)"
proof -
  have a: "core h = Some a" using inv by (rule owned_inv_handle)
  obtain c bs where c: "mem w a = Some c" "queue_ok cap mm mq c bs" using inv by (auto simp: owned_inv_def owned_live_def)
  show ?thesis
  proof (cases k)
    case (SubmitWaitK b message e)
    then obtain out' where o: "sync_owned_bytes_submit_wake os a b message e w = Some (out', w')" "out = map_outcome Submitted id out'"
      using run a by auto
    show ?thesis using submit_wake_outcome [OF c o(1)] kok SubmitWaitK o(2) by (auto simp: settle_owned)
  next
    case (SubmitLockK b block m)
    then obtain out' where o: "sync_owned_bytes_submit_lock os a b block (Some m) w = Some (out', w')" "out = map_outcome Submitted id out'"
      using run a by auto
    show ?thesis using submit_lock_outcome [OF inv o(1)] kok SubmitLockK o(2) by (auto simp: settle_owned)
  next
    case (RecvK e)
    then show ?thesis using run kok a
      by (auto simp: settle_owned sync_owned_bytes_receive_wake_def os_defs split: if_splits dest!: owned_receive_outcome)
  qed
qed

interpretation owned: monitor_keeps P "owned_monitor a" "owned_keeps cap mm mq a B" for P cap mm mq a B
proof (unfold_locales, goal_cases)
  case (1 os op h w A ps out w')
  then have i: "owned_inv cap mm mq a B w (add_mset h (image_mset fst A)) (in_flight A) ps" by (simp add: owned_keeps_def)
  show ?case
    using 1 owned_enter_inv [OF i] owned_enter_kok [OF i] by (simp add: owned_keeps_def all_pending_tags ball_Un)
next
  case (2 os w h k A ps out w')
  then have i: "owned_inv cap mm mq a B w (add_mset h (image_mset fst A)) (copy_of k + in_flight A) ps" and k: "owned_kok mm h k"
    by (simp_all add: owned_keeps_def)
  show ?case
    using 2 owned_resume_inv [OF i k] owned_resume_kok [OF i k] by (simp add: owned_keeps_def all_pending_tags ball_Un)
qed

subsection \<open>Wake-ups\<close>

lemma message_release_eq:
  "sync_owned_bytes_message_release message w =
     w\<lparr>calls := calls w @ release_log (case message of None \<Rightarrow> [] | Some m \<Rightarrow> [m])\<rparr>"
  by (auto simp: sync_owned_bytes_message_release_def free_data_def c_free_def log_call_def split: option.splits)

lemma release_log_quiet [simp]:
  "signals a cv (release_log ms) = 0" "broadcasts a cv (release_log ms) = False"
  by (induction ms) (auto simp: signals_def broadcasts_def)

lemma memcpy_all [simp]: "memcpy b (int (length b)) = Some b"
  by (simp add: memcpy_def)

lemma signals_append [simp]: "signals a cv (xs @ ys) = signals a cv xs + signals a cv ys"
  by (simp add: signals_def)

lemma owned_effectI:
  assumes "calls w' = calls w @ ks" "mem w a = Some c" "mem w' a = Some c'"
    "queued_of c' \<le> queued_of c + signals a Readable ks \<or> queued_of c' = 0"
    "idle_of c' \<le> idle_of c + signals a Writable ks \<or> idle_of c' = 0"
    "closed c' = closed c \<and> receiver_alive c' = receiver_alive c \<or> broadcasts a Readable ks \<and> broadcasts a Writable ks"
    "\<And>k. out = Wait Readable k \<Longrightarrow> queued_of c' = 0 \<and> closed c' = 0 \<and> \<not> is_submit k"
    "\<And>k. out = Wait Writable k \<Longrightarrow> idle_of c' = 0 \<and> closed c' = 0 \<and> receiver_alive c' \<noteq> 0 \<and> is_submit k"
  shows "owned_effect a w out w'"
  using assms
  by (auto simp: owned_effect_def owned_ready_def owned_idle_def owned_open_def owned_accepting_def new_calls_def)

lemma no_room_not_idle:
  assumes q: "queue_ok cap mm mq c bs" and len: "int (length b) \<le> mm"
    and "count c = capacity c \<or> \<not> int (length b) \<le> mq - queued_bytes c"
  shows "count c \<noteq> 0"
proof
  assume z: "count c = 0"
  then have "bs = []" using queue_okD(2) [OF q] by simp
  then have "queued_bytes c = 0" using queue_okD(9) [OF q] by simp
  moreover have "mm \<le> mq" using q by (simp add: queue_ok_def)
  moreover have "0 < capacity c" using ring_okD(1) [OF queue_okD(1) [OF q]] .
  ultimately show False using assms z by simp
qed

lemma submit_loop_effect:
  assumes ok: "os_ok os" and m: "mem w a = Some c" and q: "queue_ok cap mm mq c bs" and len: "int (length b) \<le> mm"
    and x: "x = (MutexLock a, 0) \<or> x = (CondWait a Writable, 0)"
    and k: "\<And>m. message = Some m \<Longrightarrow> m = copy_message b"
    and run: "sync_owned_bytes_submit_loop os a b block message 0 (w\<lparr>calls := calls w @ [x]\<rparr>) = Some (out, w')"
  shows "owned_effect a w out w' \<and> owned_progress out w a w'"
proof -
  have m': "mem (w\<lparr>calls := calls w @ [x]\<rparr>) a = Some c" using m by simp
  note eq = submit_loop_eq [OF m' q, of os b block message 0]
  note nz = no_room_not_idle [OF q len]
  have x0: "signals a cv (x # ks) = signals a cv ks" "broadcasts a cv (x # ks) = broadcasts a cv ks" for cv ks
    using x by (auto simp: signals_def broadcasts_def)
  have fail: ?thesis if f: "submit_fail os a message result 0 (w\<lparr>calls := calls w @ [x]\<rparr>) = (out, w')" and i: "idle_of c = 0" for result
  proof -
    have "calls w' = calls w @ x # (MutexUnlock a, 0) # release_log (case message of None \<Rightarrow> [] | Some m \<Rightarrow> [m])"
      "mem w' a = Some c" "\<exists>r. out = Return r"
      using f ok m by (auto simp: submit_fail_def os_defs message_release_eq)
    then show ?thesis using m i
      by (auto simp: owned_progress_def owned_idle_def intro!: owned_effectI [where c = c and c' = c])
  qed
  let ?fits = "int (length b) \<le> mq - queued_bytes c" and ?open = "closed c = 0 \<and> receiver_alive c \<noteq> 0"
  consider (wait) "block \<noteq> 0 \<and> ?open \<and> (count c = capacity c \<or> \<not> ?fits)"
    | (shut) "\<not> ?open" | (full) "?open" "block = 0" "count c = capacity c"
    | (big) "?open" "block = 0" "count c \<noteq> capacity c" "\<not> ?fits"
    | (copy) "?open" "count c \<noteq> capacity c" "?fits" "message = None"
    | (commit) "?open" "count c \<noteq> capacity c" "?fits" "message = Some (copy_message b)"
    using k by (cases message) blast+
  then show ?thesis
  proof cases
    case wait
    then have "out = Wait Writable (SubmitWaitK b message 0)" "w' = w\<lparr>calls := calls w @ [x, (CondSleep a Writable, 0)]\<rparr>"
      using run eq by (simp_all add: os_defs)
    then show ?thesis using wait m nz
      by (auto simp: owned_progress_def owned_idle_def idle_of_def intro!: owned_effectI [where c = c and c' = c])
  next
    case shut
    then have "submit_fail os a message 2 0 (w\<lparr>calls := calls w @ [x]\<rparr>) = (out, w')" using run eq by auto
    then show ?thesis by (rule fail) (use shut in \<open>auto simp: idle_of_def\<close>)
  next
    case full
    then have "submit_fail os a message 1 0 (w\<lparr>calls := calls w @ [x]\<rparr>) = (out, w')" using run eq by auto
    then show ?thesis by (rule fail) (use full nz in \<open>auto simp: idle_of_def\<close>)
  next
    case big
    then have "submit_fail os a message 4 0 (w\<lparr>calls := calls w @ [x]\<rparr>) = (out, w')" using run eq by auto
    then show ?thesis by (rule fail) (use big nz in \<open>auto simp: idle_of_def\<close>)
  next
    case copy
    then have s: "submit_copy os a b block 0 (w\<lparr>calls := calls w @ [x]\<rparr>) = Some (out, w')" using run eq by simp
    then obtain ks where "calls w' = calls w @ x # (MutexUnlock a, 0) # ks" "signals a Readable ks = 0" "signals a Writable ks = 0"
        "mem w' a = Some c" "\<exists>k. out = Again k \<and> is_submit k"
      using ok m by (cases "b = []") (auto simp: submit_copy_def sync_owned_bytes_message_copy_def os_defs signals_def)
    then show ?thesis using m
      by (auto simp: owned_progress_def owned_idle_def intro!: owned_effectI [where c = c and c' = c])
  next
    case commit
    have s: "submit_commit os a (copy_message b) (int (length b)) 0 (w\<lparr>calls := calls w @ [x]\<rparr>) = Some (out, w')"
      using commit run eq by simp
    have "calls w' = calls w @ [x, (CondSignal a Readable, 0), (MutexUnlock a, 0)]" "mem w' a = Some (enqueued b c)" "\<exists>r. out = Return r"
      using s ok submit_commit_eq [OF m' q commit(2,3), of os 0] by auto
    then show ?thesis using m queue_okD(2) [OF q]
      by (auto simp: owned_progress_def owned_idle_def idle_of_def queued_of_def signals_def intro!: owned_effectI [where c = c and c' = "enqueued b c"])
  qed
qed

lemma submit_lock_effect:
  assumes ok: "os_ok os" and m: "mem w a = Some c" and q: "queue_ok cap mm mq c bs"
    and k: "\<And>m. message = Some m \<Longrightarrow> m = copy_message b"
    and run: "sync_owned_bytes_submit_lock os a b block message w = Some (out, w')"
  shows "owned_effect a w out w'" "int (length b) \<le> mm \<Longrightarrow> owned_progress out w a w'"
proof -
  have "owned_effect a w out w' \<and> (int (length b) \<le> mm \<longrightarrow> owned_progress out w a w')"
  proof (cases "int (length b) \<le> mm")
    case True
    then have "sync_owned_bytes_submit_loop os a b block message 0 (w\<lparr>calls := calls w @ [(MutexLock a, 0)]\<rparr>) = Some (out, w')"
      using run ok m queue_okD(7) [OF q] by (simp add: sync_owned_bytes_submit_lock_def os_defs)
    from submit_loop_effect [OF ok m q True _ k this] show ?thesis by simp
  next
    case False
    then have "calls w' = calls w @ (MutexLock a, 0) # (MutexUnlock a, 0) # release_log (case message of None \<Rightarrow> [] | Some m \<Rightarrow> [m])"
      "mem w' a = Some c" "\<exists>r. out = Return r"
      using run ok m queue_okD(7) [OF q] by (auto simp: sync_owned_bytes_submit_lock_def submit_fail_def os_defs message_release_eq)
    then show ?thesis using m False by (auto intro!: owned_effectI [where c = c and c' = c])
  qed
  then show "owned_effect a w out w'" "int (length b) \<le> mm \<Longrightarrow> owned_progress out w a w'" by auto
qed

lemma owned_receive_ok:
  assumes ok: "os_ok os" and m: "mem w a = Some c" and q: "queue_ok cap mm mq c bs"
  shows "sync_owned_bytes_receive_loop os a block e w = Some
    (case bs of [] \<Rightarrow>
      (if block \<noteq> 0 \<and> closed c = 0 then (Wait Readable (RecvK e), w\<lparr>calls := calls w @ [(CondSleep a Readable, 0)]\<rparr>)
       else (Return (None, if closed c \<noteq> 0 then 2 else 1, e), w\<lparr>calls := calls w @ [(MutexUnlock a, 0)]\<rparr>))
    | b # bs' \<Rightarrow> (Return (Some b, 0, e),
       w\<lparr>calls := calls w @ [(CondSignal a Writable, 0), (MutexUnlock a, 0)] @ release_log [copy_message b],
         mem := (mem w)(a \<mapsto> dequeued b c)\<rparr>))"
proof (cases bs)
  case Nil
  then have "count c = 0" using queue_okD(2) [OF q] by simp
  with Nil assms show ?thesis by (simp add: sync_owned_bytes_receive_loop_def os_defs)
next
  case (Cons b bs')
  with ok q show ?thesis by (simp add: owned_receive_eq [OF m q [unfolded Cons]] message_release_eq)
qed

lemma owned_receive_effect:
  assumes ok: "os_ok os" and m: "mem w a = Some c" and q: "queue_ok cap mm mq c bs"
    and x: "x = (MutexLock a, 0) \<or> x = (CondWait a Readable, 0)"
    and run: "sync_owned_bytes_receive_loop os a block e (w\<lparr>calls := calls w @ [x]\<rparr>) = Some (out, w')"
  shows "owned_effect a w out w' \<and>
    (block \<noteq> 0 \<longrightarrow> Suc (owned_ready a w') \<le> owned_ready a w \<or> owned_ready a w' = 0)"
proof -
  have x0: "signals a cv (x # ks) = signals a cv ks" "broadcasts a cv (x # ks) = broadcasts a cv ks" for cv ks
    using x by (auto simp: signals_def broadcasts_def)
  have m': "mem (w\<lparr>calls := calls w @ [x]\<rparr>) a = Some c" using m by simp
  note eq = owned_receive_ok [OF ok m' q, of block e]
  have n: "count c = int (length bs)" by (rule queue_okD(2) [OF q])
  show ?thesis
  proof (cases bs)
    case Nil
    then have "count c = 0" using n by simp
    with run eq m Nil show ?thesis
      by (auto simp: owned_ready_def queued_of_def idle_of_def split: if_splits intro!: owned_effectI [where c = c and c' = c])
  next
    case (Cons b bs')
    then have "calls w' = calls w @ x # (CondSignal a Writable, 0) # (MutexUnlock a, 0) # release_log [copy_message b]"
      "mem w' a = Some (dequeued b c)" "\<exists>r. out = Return r" using run eq by auto
    moreover have "0 < count c" using n Cons by simp
    ultimately show ?thesis using m
      by (auto simp: owned_ready_def queued_of_def idle_of_def signals_Cons x0 intro!: owned_effectI [where c = c and c' = "dequeued b c"])
  qed
qed

lemma close_owned_effect:
  assumes ok: "os_ok os" and m: "mem w a = Some c" and f: "closed (f c) = 1"
    and run: "close_owned os a f w = Some (st, w')"
  shows "owned_effect a w (Return r) w'"
proof -
  have "calls w' = calls w @ [(MutexLock a, 0), (CondBroadcast a Readable, 0), (CondBroadcast a Writable, 0), (MutexUnlock a, 0)]"
    "mem w' a = Some (f c)"
    using run ok m by (auto simp: close_owned_def os_defs)
  then show ?thesis using m f
    by (auto simp: queued_of_def idle_of_def broadcasts_def intro!: owned_effectI [where c = c and c' = "f c"])
qed

lemma owned_finalize_effect:
  assumes ok: "os_ok os" and l: "owned_live cap mm mq a B c bs w (add_mset h H) F ps"
    and run: "sync_owned_bytes_finalize os h w = Some w'"
  shows "owned_effect a w (Return r) w'"
proof -
  have m: "mem w a = Some c" and q: "queue_ok cap mm mq c bs" and ho: "handles_ok c (add_mset h H)"
    and a: "core h = Some a" using l by (auto simp: owned_live_def)
  let ?w = "w\<lparr>calls := calls w @ owned_drop_calls a h c, mem := (mem w)(a \<mapsto> owned_dropped h c)\<rparr>"
  have rel: "sync_owned_bytes_core_release os a ?w = Some w'"
    using owned_finalize_eq [OF a m, of os] run ho by (auto simp: handles_ok_def)
  show ?thesis
  proof (cases "refs c - 1 = 0")
    case True
    then have "H = {#}" using ho refs_zero_iff [of "size H"] handles_ok_size [OF ho] by (simp add: handles_ok_def)
    then have "closed c = 0 \<Longrightarrow> owned_closes h c \<and> receiver_alive c = 0"
      using ho by (auto simp: handles_ok_def owned_closes_def split: if_splits)
    then show ?thesis
      using True owned_release_last [OF _ _ _ rel, of "owned_dropped h c" cap mm mq bs] m q
      by (auto simp: owned_effect_def owned_ready_def owned_idle_def owned_open_def owned_accepting_def
          new_calls_def broadcasts_def owned_drop_calls_def)
  next
    case False
    then have "w' = ?w\<lparr>mem := (mem ?w)(a \<mapsto> (owned_dropped h c)\<lparr>refs := refs c - 1\<rparr>)\<rparr>"
      using rel owned_release_live [of ?w a "owned_dropped h c" os] by simp
    then show ?thesis
      using m by (intro owned_effectI [of _ _ "owned_drop_calls a h c" _ c "(owned_dropped h c)\<lparr>refs := refs c - 1\<rparr>"])
        (auto simp: queued_of_def idle_of_def broadcasts_def owned_drop_calls_def owned_dropped_def owned_closes_def)
  qed
qed

lemma owned_effect_map [simp]:
  "owned_effect a w (map_outcome f id out) w' = owned_effect a w out w'"
  "owned_progress (map_outcome f id out) w a w' = owned_progress out w a w'"
  by (auto simp: owned_effect_def owned_progress_def)

lemma receive_start_effect:
  assumes ok: "os_ok os" and m: "mem w a = Some c" and q: "queue_ok cap mm mq c bs" and a: "core h = Some a"
    and run: "sync_owned_bytes_receive_start os h block w = Some (out, w')"
  shows "owned_effect a w out w'"
proof -
  have "sync_owned_bytes_receive_loop os a block 0 (w\<lparr>calls := calls w @ [(MutexLock a, 0)]\<rparr>) = Some (out, w')"
    using run ok a by (simp add: sync_owned_bytes_receive_start_def os_defs)
  from owned_receive_effect [OF ok m q _ this] show ?thesis by simp
qed

lemma submit_start_effect:
  assumes ok: "os_ok os" and m: "mem w a = Some c" and q: "queue_ok cap mm mq c bs" and a: "core h = Some a"
    and run: "sync_owned_bytes_submit_start os h b block w = Some (out, w')"
  shows "owned_effect a w out w'"
proof (cases "next_operation_error w = 0")
  case True
  let ?w = "w\<lparr>next_operation_error := 0\<rparr>"
  have e: "?w = w" using True by (cases w) simp
  have "sync_owned_bytes_submit_lock os a b block None ?w = Some (out, w')"
    using run True a by (simp add: sync_owned_bytes_submit_start_def sync_owned_bytes_channel_test_take_next_operation_error_def sync_test_atomic_take_def)
  then have "sync_owned_bytes_submit_lock os a b block None w = Some (out, w')" unfolding e .
  from submit_lock_effect(1) [OF ok m q _ this] show ?thesis by simp
next
  case False
  then show ?thesis using run a m
    by (auto simp: sync_owned_bytes_submit_start_def sync_owned_bytes_channel_test_take_next_operation_error_def sync_test_atomic_take_def
        intro!: owned_effectI [where c = c and c' = c and ks = "[]"])
qed

lemma owned_enter_effect:
  assumes ok: "os_ok os" and inv: "owned_inv cap mm mq a B w (add_mset h H) F ps"
    and run: "owned_enter os op h w = Some (out, w')"
  shows "owned_effect a w out w'"
proof -
  obtain c bs where l: "owned_live cap mm mq a B c bs w (add_mset h H) F ps" using inv by (auto simp: owned_inv_def)
  then have m: "mem w a = Some c" and q: "queue_ok cap mm mq c bs" and a: "core h = Some a" by (auto simp: owned_live_def)
  note rcv = receive_start_effect [OF ok m q a] and sub = submit_start_effect [OF ok m q a]
  show ?thesis
  proof (cases op)
    case Share
    then show ?thesis using run ok m a
      by (auto simp: sync_owned_bytes_sender_share_def os_defs bind_eq_Some_conv queued_of_def idle_of_def intro!: owned_effectI)
  next
    case (TrySend b)
    then show ?thesis using run sub by auto
  next
    case (Send b)
    then show ?thesis using run sub by auto
  next
    case TryRecv
    then show ?thesis using run rcv by auto
  next
    case Recv
    then show ?thesis using run rcv by auto
  next
    case SenderClose
    then show ?thesis using run a by (auto simp: sync_owned_bytes_sender_close_def intro!: close_owned_effect [OF ok m])
  next
    case ReceiverClose
    then show ?thesis using run a by (auto simp: sync_owned_bytes_receiver_close_def intro!: close_owned_effect [OF ok m])
  next
    case Len
    then show ?thesis using run ok m a by (auto simp: sync_owned_bytes_receiver_len_def os_defs intro!: owned_effectI)
  next
    case Finalize
    then show ?thesis using run by (auto intro: owned_finalize_effect [OF ok l])
  qed
qed

lemma owned_resume_effect:
  assumes ok: "os_ok os" and inv: "owned_inv cap mm mq a B w (add_mset h H) F ps" and kok: "owned_kok mm h k"
    and run: "owned_resume os k h w = Some (out, w')"
  shows "owned_effect a w out w'" "is_submit k \<Longrightarrow> owned_progress out w a w'"
    "\<not> is_submit k \<Longrightarrow> (Suc (owned_ready a w') \<le> owned_ready a w \<or> owned_ready a w' = 0)"
proof -
  obtain c bs where m: "mem w a = Some c" and q: "queue_ok cap mm mq c bs" and a: "core h = Some a"
    using inv by (auto simp: owned_inv_def owned_live_def)
  have "owned_effect a w out w' \<and> (is_submit k \<longrightarrow> owned_progress out w a w') \<and>
      (\<not> is_submit k \<longrightarrow> Suc (owned_ready a w') \<le> owned_ready a w \<or> owned_ready a w' = 0)"
  proof (cases k)
    case (SubmitWaitK b message e)
    then obtain out' where o: "out = map_outcome Submitted id out'"
        "sync_owned_bytes_submit_loop os a b 1 message 0 (w\<lparr>calls := calls w @ [(CondWait a Writable, 0)]\<rparr>) = Some (out', w')"
      using run a ok kok by (auto simp: sync_owned_bytes_submit_wake_def os_defs)
    have "owned_effect a w out' w' \<and> owned_progress out' w a w'"
      by (rule submit_loop_effect [OF ok m q _ _ _ o(2)]) (use kok SubmitWaitK in auto)
    then show ?thesis using SubmitWaitK o(1) by simp
  next
    case (SubmitLockK b block x)
    then obtain out' where o: "out = map_outcome Submitted id out'"
        "sync_owned_bytes_submit_lock os a b block (Some x) w = Some (out', w')"
      using run a by auto
    show ?thesis
      using submit_lock_effect [OF ok m q _ o(2)] kok SubmitLockK o(1) by simp
  next
    case (RecvK e)
    then obtain out' where o: "out = map_outcome Received id out'"
        "sync_owned_bytes_receive_loop os a 1 e (w\<lparr>calls := calls w @ [(CondWait a Readable, 0)]\<rparr>) = Some (out', w')"
      using run a ok by (auto simp: sync_owned_bytes_receive_wake_def os_defs)
    show ?thesis using owned_receive_effect [OF ok m q _ o(2)] RecvK o(1) by simp
  qed
  then show "owned_effect a w out w'" "is_submit k \<Longrightarrow> owned_progress out w a w'"
    "\<not> is_submit k \<Longrightarrow> (Suc (owned_ready a w') \<le> owned_ready a w \<or> owned_ready a w' = 0)" by auto
qed

lemma owned_effect_need:
  assumes "owned_effect a w out w'"
  shows "owned_ready a w' \<le> owned_ready a w + signals a Readable (new_calls w w') \<or> owned_ready a w' = 0"
    "owned_idle a w' \<le> owned_idle a w + signals a Writable (new_calls w w') \<or> owned_idle a w' = 0"
    "out = Wait Readable k \<Longrightarrow> owned_ready a w' = 0 \<and> \<not> is_submit k"
    "out = Wait Writable k \<Longrightarrow> owned_idle a w' = 0 \<and> is_submit k"
    "owned_open a w \<Longrightarrow> owned_open a w' \<or> broadcasts a Readable (new_calls w w')"
    "owned_accepting a w \<Longrightarrow> owned_accepting a w' \<or> broadcasts a Writable (new_calls w w')"
    "out = Wait Readable k \<Longrightarrow> owned_open a w'" "out = Wait Writable k \<Longrightarrow> owned_accepting a w'"
  using assms by (auto simp: owned_effect_def)

lemma owned_keepsD:
  assumes "owned_keeps cap mm mq a B w (add_mset (h, x) A) ps"
  shows "\<exists>F. owned_inv cap mm mq a B w (add_mset h (image_mset fst A)) F ps" "x = Some k \<Longrightarrow> owned_kok mm h k"
  using assms by (auto simp: owned_keeps_def)

lemma keeps_enter_effect:
  assumes "os_ok os" "owned_keeps cap mm mq a B w (add_mset (h, None) A) ps" "owned_enter os op h w = Some (out, w')"
  shows "owned_effect a w out w'"
  using owned_keepsD(1) [OF assms(2)] owned_enter_effect [OF assms(1) _ assms(3)] by blast

lemma keeps_resume_effect:
  assumes "os_ok os" "owned_keeps cap mm mq a B w (add_mset (h, Some k) A) ps" "owned_resume os k h w = Some (out, w')"
  shows "owned_effect a w out w'" "is_submit k \<Longrightarrow> owned_progress out w a w'"
    "\<not> is_submit k \<Longrightarrow> (Suc (owned_ready a w') \<le> owned_ready a w \<or> owned_ready a w' = 0)"
proof -
  obtain F where F: "owned_inv cap mm mq a B w (add_mset h (image_mset fst A)) F ps"
    using owned_keepsD(1) [OF assms(2)] by blast
  note e = owned_resume_effect [OF assms(1) F owned_keepsD(2) [OF assms(2) refl] assms(3)]
  show "owned_effect a w out w'" by (rule e(1))
  show "is_submit k \<Longrightarrow> owned_progress out w a w'" by (rule e(2))
  show "\<not> is_submit k \<Longrightarrow> (Suc (owned_ready a w') \<le> owned_ready a w \<or> owned_ready a w' = 0)" by (rule e(3))
qed

interpretation owned_readable: signalled os_ok "owned_monitor a" "owned_keeps cap mm mq a B"
  Readable "owned_ready a" "\<lambda>k. \<not> is_submit k" for cap mm mq a B
proof (unfold_locales, goal_cases)
  case (1 os op h w A ps out w')
  show ?case using owned_effect_need(1) [OF keeps_enter_effect [OF 1(1,3)]] 1(4) by simp blast
next
  case (2 os op h w A ps k w')
  show ?case using owned_effect_need(3) [OF keeps_enter_effect [OF 2(1,3)]] 2(4) by simp
next
  case (3 os w h k A ps out w')
  note e = keeps_resume_effect [OF 3(1,2) 3(3) [simplified]]
  show ?case using owned_effect_need(1) [OF e(1)] e(3) by (cases "is_submit k") (auto split: outcome.splits)
next
  case (4 os w h k A ps k' w')
  show ?case using owned_effect_need(3) [OF keeps_resume_effect(1) [OF 4(1,2)]] 4(3) by simp
qed

interpretation owned_writable: signalled os_ok "owned_monitor a" "owned_keeps cap mm mq a B"
  Writable "owned_idle a" is_submit for cap mm mq a B
proof (unfold_locales, goal_cases)
  case (1 os op h w A ps out w')
  show ?case using owned_effect_need(2) [OF keeps_enter_effect [OF 1(1,3)]] 1(4) by simp blast
next
  case (2 os op h w A ps k w')
  show ?case using owned_effect_need(4) [OF keeps_enter_effect [OF 2(1,3)]] 2(4) by simp
next
  case (3 os w h k A ps out w')
  note e = keeps_resume_effect [OF 3(1,2) 3(3) [simplified]]
  show ?case using owned_effect_need(2) [OF e(1)] e(2) by (cases "is_submit k") (auto simp: owned_progress_def split: outcome.splits)
next
  case (4 os w h k A ps k' w')
  show ?case using owned_effect_need(4) [OF keeps_resume_effect(1) [OF 4(1,2)]] 4(3) by simp
qed

interpretation owned_close_readable: broadcasting os_ok "owned_monitor a" "owned_keeps cap mm mq a B"
  Readable "owned_open a" for cap mm mq a B
proof (unfold_locales, goal_cases)
  case (1 os op h w A ps out w')
  show ?case using owned_effect_need(5) [OF keeps_enter_effect [OF 1(1,3)]] 1(4,5) by simp
next
  case (2 os op h w A ps k w')
  show ?case using owned_effect_need(7) [OF keeps_enter_effect [OF 2(1,3)]] 2(4) by simp
next
  case (3 os w h k A ps out w')
  show ?case using owned_effect_need(5) [OF keeps_resume_effect(1) [OF 3(1,2)]] 3(3,4) by simp
next
  case (4 os w h k A ps k' w')
  show ?case using owned_effect_need(7) [OF keeps_resume_effect(1) [OF 4(1,2)]] 4(3) by simp
qed

interpretation owned_close_writable: broadcasting os_ok "owned_monitor a" "owned_keeps cap mm mq a B"
  Writable "owned_accepting a" for cap mm mq a B
proof (unfold_locales, goal_cases)
  case (1 os op h w A ps out w')
  show ?case using owned_effect_need(6) [OF keeps_enter_effect [OF 1(1,3)]] 1(4,5) by simp
next
  case (2 os op h w A ps k w')
  show ?case using owned_effect_need(8) [OF keeps_enter_effect [OF 2(1,3)]] 2(4) by simp
next
  case (3 os w h k A ps out w')
  show ?case using owned_effect_need(6) [OF keeps_resume_effect(1) [OF 3(1,2)]] 3(3,4) by simp
next
  case (4 os w h k A ps k' w')
  show ?case using owned_effect_need(8) [OF keeps_resume_effect(1) [OF 4(1,2)]] 4(3) by simp
qed

subsection \<open>The first configuration\<close>

lemma owned_boot_good:
  assumes boot: "owned_boot os cap mm mq w = Some s" and lim: "limits_ok cap mm mq"
    and free: "mutex_state (fresh w) w = Some False"
  shows "owned.good cap mm mq (fresh w) (\<lambda>r. balance r (calls w)) s"
    "sleepers cv (agents s) = 0" "\<And>K. sleepers_in cv K (agents s)"
proof -
  have ok: "ring_ok (replicate (nat cap) None) cap 0 0 0" using lim by (simp add: limits_ok_def ring_ok_initial)
  have "owned.good cap mm mq (fresh w) (\<lambda>r. balance r (calls w)) s \<and> sleepers cv (agents s) = 0 \<and> (\<forall>K. sleepers_in cv K (agents s))"
    using boot free ok lim
    by (auto simp: owned_boot_def sync_owned_bytes_channel_new_def sync_owned_bytes_channel_receiver_def os_defs bind_eq_Some_conv
      owned.good_def owned_keeps_def owned_inv_def owned_live_def mutex_state_def mutex_run_append handles_ok_def queue_ok_def
      limits_ok_def sync_owned_bytes_wrap_def i32_def INT32_MAX_def INT32_MIN_def ring_list_empty owned_resources_def
      split: if_splits)
  then show "owned.good cap mm mq (fresh w) (\<lambda>r. balance r (calls w)) s"
    "sleepers cv (agents s) = 0" "\<And>K. sleepers_in cv K (agents s)" by auto
qed

lemma reach_owned:
  assumes "owned_boot os cap mm mq w = Some s" "limits_ok cap mm mq" "mutex_state (fresh w) w = Some False"
    "reach P (owned_monitor (fresh w)) s t"
  shows "owned_inv cap mm mq (fresh w) (\<lambda>r. balance r (calls w)) (wrld t) (image_mset fst (agents t))
      (in_flight (image_mset tag (agents t))) (past t)"
    "all_pending (owned_kok mm) (agents t)"
  using owned.reach_good [OF assms(4) owned_boot_good(1) [OF assms(1-3)]]
  by (simp_all add: owned.good_def owned_keeps_def all_pending_tags)

lemma owned_waiters_are_receivers:
  "all_pending (owned_kok mm) A \<Longrightarrow> sleepers_in Readable (\<lambda>k. \<not> is_submit k) A \<Longrightarrow>
     roused (\<lambda>k. \<not> is_submit k) A + sleepers Readable A \<le> receiver_handles (image_mset fst A)"
proof (induction A rule: mode_induct)
  case (Runnable h k A)
  then show ?case by (cases k) auto
next
  case (Asleep h cv k A)
  then show ?case by (cases k) auto
qed auto

subsection \<open>Results\<close>

lemma submit_loop_result:
  assumes c: "mem w a = Some c" "queue_ok cap mm mq c bs" and len: "int (length b) \<le> mm"
    and run: "sync_owned_bytes_submit_loop os a b block message e w = Some (Return (r, e'), w')"
    and op: "op = (if block \<noteq> 0 then Send b else TrySend b)"
  shows "result_ok mm (op, Submitted (r, e'))"
proof -
  have "r = 0 \<or> r = 2 \<or> block = 0 \<and> (r = 1 \<or> r = 4)"
    using run unfolding submit_loop_eq [OF c]
    by (auto simp: submit_fail_def submit_copy_def submit_commit_def os_defs bind_eq_Some_conv split: if_splits option.splits)
  then show ?thesis using op len by auto
qed

lemma submit_lock_result:
  assumes c: "mem w a = Some c" "queue_ok cap mm mq c bs"
    and run: "sync_owned_bytes_submit_lock os a b block message w = Some (Return (r, e'), w')"
    and op: "op = (if block \<noteq> 0 then Send b else TrySend b)"
  shows "result_ok mm (op, Submitted (r, e'))"
proof (cases "posix_status os (MutexLock a) (calls w) = 0 \<and> int (length b) \<le> mm")
  case True
  then have "sync_owned_bytes_submit_loop os a b block message 0 (w\<lparr>calls := calls w @ [(MutexLock a, 0)]\<rparr>) = Some (Return (r, e'), w')"
    using run c queue_okD(7) [OF c(2)] by (simp add: sync_owned_bytes_submit_lock_def os_defs)
  from submit_loop_result [OF _ c(2) _ this op] True c(1) show ?thesis by simp
next
  case False
  then show ?thesis
    using run c queue_okD(7) [OF c(2)] op
    by (auto simp: sync_owned_bytes_submit_lock_def submit_fail_def os_defs split: if_splits)
qed

lemma submit_wake_result:
  assumes c: "mem w a = Some c" "queue_ok cap mm mq c bs" and len: "int (length b) \<le> mm"
    and run: "sync_owned_bytes_submit_wake os a b message e w = Some (Return (r, e'), w')"
  shows "result_ok mm (Send b, Submitted (r, e'))"
proof (cases "ret os (calls w) (CondWait a Writable) = 0")
  case True
  then have "sync_owned_bytes_submit_loop os a b 1 message e (w\<lparr>calls := calls w @ [(CondWait a Writable, 0)]\<rparr>) = Some (Return (r, e'), w')"
    using run by (simp add: sync_owned_bytes_submit_wake_def os_defs)
  from submit_loop_result [OF _ c(2) len this refl] c(1) show ?thesis by simp
next
  case False
  then show ?thesis using run by (auto simp: sync_owned_bytes_submit_wake_def submit_fail_def os_defs)
qed

lemma record_past_all:
  "list_all Q ps \<Longrightarrow> (\<And>r. out = Return r \<Longrightarrow> Q (op, r)) \<Longrightarrow> list_all Q (record_past op out ps)"
  by (cases out) (auto simp: record_past_def)

lemma owned_enter_result:
  assumes c: "mem w a = Some c" "queue_ok cap mm mq c bs" and a: "core h = Some a"
    and run: "owned_enter os op h w = Some (Return r, w')"
  shows "result_ok mm (op, r)"
proof -
  have sub: "result_ok mm (if block \<noteq> 0 then Send b else TrySend b, Submitted x)"
    if s: "sync_owned_bytes_submit_start os h b block w = Some (Return x, w')" for b block x
  proof (cases "next_operation_error w = 0")
    case True
    have "sync_owned_bytes_submit_lock os a b block None (w\<lparr>next_operation_error := 0\<rparr>) = Some (Return (fst x, snd x), w')"
      using s True a by (simp add: sync_owned_bytes_submit_start_def sync_owned_bytes_channel_test_take_next_operation_error_def sync_test_atomic_take_def)
    from submit_lock_result [OF _ c(2) this refl] c(1) show ?thesis by simp
  next
    case False
    then show ?thesis using s a
      by (auto simp: sync_owned_bytes_submit_start_def sync_owned_bytes_channel_test_take_next_operation_error_def sync_test_atomic_take_def)
  qed
  show ?thesis
  proof (cases op)
    case (Send b)
    then show ?thesis using run sub [of b 1] by auto
  next
    case (TrySend b)
    then show ?thesis using run sub [of b 0] by auto
  qed auto
qed

lemma owned_resume_result:
  assumes c: "mem w a = Some c" "queue_ok cap mm mq c bs" and a: "core h = Some a" and k: "owned_kok mm h k"
    and run: "owned_resume os k h w = Some (Return r, w')"
  shows "result_ok mm (owned_pending k, r)"
proof (cases k)
  case (SubmitWaitK b message e)
  then obtain x where x: "r = Submitted x" "sync_owned_bytes_submit_wake os a b message e w = Some (Return (fst x, snd x), w')"
    using run a by auto
  have "int (length b) \<le> mm" using k SubmitWaitK by simp
  from submit_wake_result [OF c this x(2)] show ?thesis using SubmitWaitK x(1) by simp
next
  case (SubmitLockK b block m)
  then obtain x where x: "r = Submitted x" "sync_owned_bytes_submit_lock os a b block (Some m) w = Some (Return (fst x, snd x), w')"
    using run a by auto
  from submit_lock_result [OF c x(2) refl] show ?thesis using SubmitLockK x(1) by simp
qed auto

interpretation owned_results: monitor_keeps P "owned_monitor a" "owned_logged cap mm mq a B" for P cap mm mq a B
proof (unfold_locales, goal_cases)
  case (1 os op h w A ps out w')
  then have k: "owned_keeps cap mm mq a B w (add_mset (h, None) A) ps" by (simp add: owned_logged_def)
  obtain c bs where c: "mem w a = Some c" "queue_ok cap mm mq c bs" "core h = Some a"
    using k by (auto simp: owned_keeps_def owned_inv_def owned_live_def)
  show ?case
    unfolding owned_logged_def
    by (intro conjI owned.enter_keeps [of P os, OF 1(1,2) k 1(4)] record_past_all) (use 1 owned_enter_result [OF c] in \<open>auto simp: owned_logged_def\<close>)
next
  case (2 os w h k A ps out w')
  then have i: "owned_keeps cap mm mq a B w (add_mset (h, Some k) A) ps" by (simp add: owned_logged_def)
  then have kok: "owned_kok mm h k" by (simp add: owned_keeps_def)
  obtain c bs where c: "mem w a = Some c" "queue_ok cap mm mq c bs" "core h = Some a"
    using i by (auto simp: owned_keeps_def owned_inv_def owned_live_def)
  show ?case
    unfolding owned_logged_def
    by (intro conjI owned.resume_keeps [of P os, OF 2(1) i 2(3)] record_past_all) (use 2 owned_resume_result [OF c kok] in \<open>auto simp: owned_logged_def\<close>)
qed

subsection \<open>Every call is defined\<close>

lemma submit_loop_total:
  assumes "mem w a = Some c" "queue_ok cap mm mq c bs" "\<And>h b. message = None \<Longrightarrow> \<not> calloc_null os h b"
    "\<And>m. message = Some m \<Longrightarrow> m = copy_message b"
  shows "sync_owned_bytes_submit_loop os a b block message e w \<noteq> None"
proof -
  have cp: "message = None \<Longrightarrow> submit_copy os a b block e w \<noteq> None"
    using assms(3) by (simp add: submit_copy_def sync_owned_bytes_message_copy_def os_defs)
  have cm: "submit_commit os a (copy_message b) (int (length b)) e w \<noteq> None"
    if "count c \<noteq> capacity c" "int (length b) \<le> mq - queued_bytes c"
    by (simp add: submit_commit_eq [OF assms(1,2) that] Let_def)
  show ?thesis
    using assms(4) cp cm unfolding submit_loop_eq [OF assms(1,2)] by (cases message) (auto split: if_splits)
qed

lemma submit_lock_total:
  assumes "mem w a = Some c" "queue_ok cap mm mq c bs" "\<And>h b. message = None \<Longrightarrow> \<not> calloc_null os h b"
    "\<And>m. message = Some m \<Longrightarrow> m = copy_message b"
  shows "sync_owned_bytes_submit_lock os a b block message w \<noteq> None"
  using assms(1) submit_loop_total [OF _ assms(2-4)] by (simp add: sync_owned_bytes_submit_lock_def os_defs)

lemma owned_receive_total:
  assumes "mem w a = Some c" "queue_ok cap mm mq c bs"
  shows "sync_owned_bytes_receive_loop os a block e w \<noteq> None"
proof (cases bs)
  case Nil
  then have "count c = 0" using queue_okD(2) [OF assms(2)] by simp
  then show ?thesis using assms by (simp add: sync_owned_bytes_receive_loop_def os_defs)
next
  case (Cons b bs')
  then show ?thesis using owned_receive_eq [of w a c cap mm mq b bs'] assms by (simp add: Let_def)
qed

lemma owned_core_release_total:
  assumes "os_ok os" "mem w a = Some c" "queue_ok cap mm mq c bs"
  shows "sync_owned_bytes_core_release os a w \<noteq> None"
  using assms by (simp add: sync_owned_bytes_core_release_def os_defs release_all_messages(1) [OF assms(3)])

lemma owned_finalize_total:
  assumes ok: "os_ok os" and l: "owned_live cap mm mq a B c bs w (add_mset h H) F ps"
  shows "sync_owned_bytes_finalize os h w \<noteq> None"
proof -
  have m: "mem w a = Some c" and q: "queue_ok cap mm mq c bs" and ho: "handles_ok c (add_mset h H)"
    and a: "core h = Some a" using l by (auto simp: owned_live_def)
  have "sync_owned_bytes_core_release os a
      (w\<lparr>calls := calls w @ owned_drop_calls a h c, mem := (mem w)(a \<mapsto> owned_dropped h c)\<rparr>) \<noteq> None"
    by (rule owned_core_release_total [OF ok, where c = "owned_dropped h c" and bs = bs]) (use q in auto)
  then show ?thesis using owned_finalize_eq [OF a m, of os] ok ho by (auto simp: handles_ok_def)
qed

subsection \<open>The blocks of the messages\<close>

lemma message_balance_blocks:
  "message_balance (BlockRes MessageBlock) F = int (size F)"
  "message_balance (BlockRes DataBlock) F = int (size {#m \<in># F. data m \<noteq> None#})"
  by (induction F) (auto simp: message_resources_def)

lemma queue_ok_bytes:
  assumes "queue_ok cap mm mq c bs"
  shows "queued_bytes c = (\<Sum>m \<leftarrow> queued_messages c. int (length (case data m of None \<Rightarrow> [] | Some bs \<Rightarrow> bs)))"
    "queued_messages c = map copy_message bs" "queued_bytes c \<le> mq"
proof -
  have "(case data (copy_message b) of None \<Rightarrow> [] | Some bs \<Rightarrow> bs) = b" for b by (simp add: copy_message_def)
  then have "(\<Sum>m \<leftarrow> map copy_message bs. int (length (case data m of None \<Rightarrow> [] | Some bs \<Rightarrow> bs))) = int (sum_list (map length bs))"
    by (induction bs) auto
  then show "queued_bytes c = (\<Sum>m \<leftarrow> queued_messages c. int (length (case data m of None \<Rightarrow> [] | Some bs \<Rightarrow> bs)))"
      "queued_messages c = map copy_message bs" "queued_bytes c \<le> mq"
    using assms by (simp_all add: queue_ok_def queued_messages_def)
qed

subsection \<open>The two halves of a try-send\<close>

lemma try_send_enter:
  assumes ok: "os_ok os" and a: "core h = Some a" and m: "mem w a = Some c" and q: "queue_ok cap mm mq c bs"
    and calm: "next_operation_error w = 0"
  shows "\<exists>w'. owned_enter os (TrySend b) h w = Some (if try_send_code mm mq c b = 0 then Again (SubmitLockK b 0 (copy_message b))
      else Return (Submitted (try_send_code mm mq c b, 0)), w') \<and> mem w' = mem w"
proof -
  have mm: "max_message_bytes c = mm" by (rule queue_okD(7) [OF q])
  have m': "mem (w\<lparr>next_operation_error := 0, calls := ks\<rparr>) a = Some c" for ks using m by simp
  note eq = submit_loop_eq [OF m' q]
  show ?thesis
    using ok a m calm mm by (auto simp: sync_owned_bytes_submit_start_def sync_owned_bytes_channel_test_take_next_operation_error_def
        sync_owned_bytes_submit_lock_def os_defs eq submit_copy_def sync_owned_bytes_message_copy_def copy_message_def
        submit_fail_def try_send_code_def message_release_eq)
qed

lemma try_send_resume:
  assumes ok: "os_ok os" and a: "core h = Some a" and m: "mem w a = Some c" and q: "queue_ok cap mm mq c bs"
  shows "\<exists>w'. owned_resume os (SubmitLockK b 0 (copy_message b)) h w = Some (Return (Submitted (try_send_code mm mq c b, 0)), w') \<and>
      mem w' a = Some (if try_send_code mm mq c b = 0 then enqueued b c else c)"
proof -
  have mm: "max_message_bytes c = mm" by (rule queue_okD(7) [OF q])
  have m': "mem (w\<lparr>calls := ks\<rparr>) a = Some c" for ks using m by simp
  note eq = submit_loop_eq [OF m' q]
  show ?thesis
  proof (cases "try_send_code mm mq c b = 0")
    case True
    then have f: "int (length b) \<le> mm" "closed c = 0" "receiver_alive c \<noteq> 0" "count c \<noteq> capacity c" "int (length b) \<le> mq - queued_bytes c"
      by (auto simp: try_send_code_def split: if_splits)
    show ?thesis using f ok a m mm True submit_commit_eq [OF m' q f(4,5)] by (auto simp: sync_owned_bytes_submit_lock_def os_defs eq)
  next
    case False
    then show ?thesis using ok a m mm
      by (auto simp: sync_owned_bytes_submit_lock_def os_defs eq submit_fail_def try_send_code_def message_release_eq split: if_splits)
  qed
qed

lemma try_send_injected:
  assumes "core h = Some a" "next_operation_error w \<noteq> 0"
  shows "owned_enter os (TrySend b) h w =
    Some (Return (Submitted (2, next_operation_error w)), w\<lparr>next_operation_error := 0\<rparr>)"
  using assms by (simp add: sync_owned_bytes_submit_start_def sync_owned_bytes_channel_test_take_next_operation_error_def os_defs)

subsection \<open>A send without interference\<close>

lemma try_send_alone:
  assumes ok: "os_ok os" and a: "core h = Some a" and m: "mem w a = Some c" and q: "queue_ok cap mm mq c bs"
    and calm: "next_operation_error w = 0"
  shows "\<exists>w'. sync_owned_bytes_sender_try_send os h b [\<lambda>w. w] w = Some (Some (try_send_code mm mq c b, 0), w') \<and>
    mem w' a = Some (if try_send_code mm mq c b = 0 then enqueued b c else c)"
proof -
  have mm: "max_message_bytes c = mm" by (rule queue_okD(7) [OF q])
  have m': "mem (w\<lparr>next_operation_error := 0, calls := ks\<rparr>) a = Some c" for ks using m by simp
  note defs = sync_owned_bytes_sender_try_send_def sync_owned_bytes_submit_def sync_owned_bytes_submit_start_def
    sync_owned_bytes_channel_test_take_next_operation_error_def sync_owned_bytes_submit_lock_def os_defs
  note eq = submit_loop_eq [OF m' q]
  consider "int (length b) > mm" | "int (length b) \<le> mm" "closed c \<noteq> 0 \<or> receiver_alive c = 0"
    | "int (length b) \<le> mm" "closed c = 0" "receiver_alive c \<noteq> 0" "count c = capacity c"
    | "int (length b) \<le> mm" "closed c = 0" "receiver_alive c \<noteq> 0" "count c \<noteq> capacity c" "\<not> int (length b) \<le> mq - queued_bytes c"
    | "int (length b) \<le> mm" "closed c = 0" "receiver_alive c \<noteq> 0" "count c \<noteq> capacity c" "int (length b) \<le> mq - queued_bytes c"
    by linarith
  then show ?thesis
  proof cases
    case 5
    let ?ks = "[(MutexLock a, 0), (MutexUnlock a, 0), (Calloc MessageBlock, 0)] @ (if b = [] then [] else [(Calloc DataBlock, 0)])"
    have 1: "sync_owned_bytes_submit_start os h b 0 w = Some (Again (SubmitLockK b 0 (copy_message b)),
        w\<lparr>next_operation_error := 0, calls := calls w @ ?ks\<rparr>)"
      using 5 ok a m calm mm by (simp add: defs eq submit_copy_def sync_owned_bytes_message_copy_def copy_message_def)
    note cm = submit_commit_eq [OF m' q 5(4,5)]
    show ?thesis
      using 5 ok a m mm 1 by (auto simp: sync_owned_bytes_sender_try_send_def sync_owned_bytes_submit_def
          sync_owned_bytes_submit_lock_def os_defs eq cm try_send_code_def)
  qed (use ok a m calm mm in \<open>auto simp: defs eq submit_fail_def try_send_code_def message_release_eq\<close>)
qed

subsection \<open>Concrete runs\<close>

lemmas owned_eval = owned_boot_def sync_owned_bytes_channel_new_def sync_owned_bytes_channel_receiver_def
  sync_owned_bytes_wrap_def sync_array_size_or_abort_def os_defs quiet_os_def posix_status_def owned_empty_world_def
  exec_step_def owned_monitor_def settle_list_def record_past_def new_calls_def others_def wake_one_def asleep_on_def
  sync_owned_bytes_submit_start_def sync_owned_bytes_submit_lock_def sync_owned_bytes_submit_loop_def submit_full_def
  sync_owned_bytes_submit_wake_def submit_copy_def submit_commit_def submit_fail_def
  sync_owned_bytes_has_byte_capacity_def sync_owned_bytes_message_copy_def memcpy_def
  sync_owned_bytes_message_release_def free_data_def sync_owned_bytes_into_moonbit_def
  sync_owned_bytes_channel_test_take_next_operation_error_def
  sync_owned_bytes_receive_start_def sync_owned_bytes_receive_loop_def sync_owned_bytes_receive_wake_def
  sync_owned_bytes_sender_share_def sync_owned_bytes_finalize_def sync_owned_bytes_core_release_def broadcast_both_or_abort_def
  cell_set_def cell_get_def i32_add_def i32_sub_def i32_rem_def c_rem_def i32_def INT32_MAX_def INT32_MIN_def

lemma owned_demo_reach:
  assumes "owned_demo xs = Some t" "P quiet_os"
  shows "\<exists>s. owned_boot quiet_os 2 2 2 owned_empty_world = Some s \<and>
    reach P (owned_monitor (fresh owned_empty_world)) s (config_of t)"
proof -
  obtain s where s: "owned_boot quiet_os 2 2 2 owned_empty_world = Some s"
      "exec (owned_monitor 0) quiet_os xs
       (wrld s, [(sync_owned_bytes_wrap 0 1, Ready), (sync_owned_bytes_wrap 0 2, Ready)], []) = Some t"
    using assms by (auto simp: owned_demo_def bind_eq_Some_conv)
  have "s = config_of (wrld s, [(sync_owned_bytes_wrap 0 1, Ready), (sync_owned_bytes_wrap 0 2, Ready)], [])"
    using s(1) by (auto simp: owned_eval)
  then show ?thesis using s(1) exec_reach [OF s(2), of P] assms(2) by (auto simp: owned_empty_world_def)
qed

lemma owned_demo_ok: "limits_ok 2 2 2" "mutex_state (fresh owned_empty_world) owned_empty_world = Some False"
  by (simp_all add: limits_ok_def i32_def INT32_MIN_def INT32_MAX_def owned_empty_world_def mutex_state_def)

section \<open>Properties\<close>

text \<open>
  C2. First in, first out, with the bytes intact: under every schedule and every failure of
  the operating system, the byte strings of the successful sends are those received so far
  followed by the contents of the queue; the queue never holds more than \<open>cap\<close> messages, more
  than \<open>mq\<close> bytes or a message longer than \<open>mm\<close>, and each queued message is an exact copy.
\<close>

theorem owned_fifo:
  assumes "owned_boot os cap mm mq w = Some s" "limits_ok cap mm mq" "mutex_state (fresh w) w = Some False"
    "reach P (owned_monitor (fresh w)) s t"
  shows "case mem (wrld t) (fresh w) of
      Some c \<Rightarrow> (\<exists>queued. ring_list (slots c) (head c) (count c) = map copy_message queued \<and>
        submitted (past t) = taken (past t) @ queued \<and> int (length queued) \<le> cap \<and>
        int (sum_list (map length queued)) \<le> mq \<and> (\<forall>b \<in> set queued. int (length b) \<le> mm))
    | None \<Rightarrow> \<exists>rest. submitted (past t) = taken (past t) @ rest"
proof (cases "agents t = {#}")
  case True
  then show ?thesis using reach_owned(1) [OF assms] by (auto simp: owned_inv_def)
next
  case False
  then obtain c bs where l: "owned_live cap mm mq (fresh w) (\<lambda>r. balance r (calls w)) c bs (wrld t) (image_mset fst (agents t))
      (in_flight (image_mset tag (agents t))) (past t)"
    using reach_owned(1) [OF assms] by (auto simp: owned_inv_def)
  then have m: "mem (wrld t) (fresh w) = Some c" and q: "queue_ok cap mm mq c bs" and s: "submitted (past t) = taken (past t) @ bs"
    by (auto simp: owned_live_def)
  show ?thesis using q queue_okD(2,6,10) [OF q] s unfolding m
    by (auto simp: queue_ok_def intro!: exI [of _ bs])
qed

theorem owned_fifo_witness:
  "\<exists>t. owned_demo [Call (TrySend [1, 2]) 0, Resume 1, Call TryRecv 0] = Some t \<and>
     submitted (past (config_of t)) = [[1, 2]] \<and> taken (past (config_of t)) = [[1, 2]] \<and>
     (\<exists>c. mem (wrld (config_of t)) 0 = Some c \<and> ring_list (slots c) (head c) (count c) = [])"
proof -
  obtain t where t: "owned_demo [Call (TrySend [1, 2]) 0, Resume 1, Call TryRecv 0] = Some t"
    and p: "submitted (past (config_of t)) = [[1, 2]]" "taken (past (config_of t)) = [[1, 2]]"
      "mem (wrld (config_of t)) 0 \<noteq> None"
    by (simp add: owned_demo_def owned_eval submitted_def taken_def)
  obtain s where s: "owned_boot quiet_os 2 2 2 owned_empty_world = Some s"
      "reach (\<lambda>_. True) (owned_monitor (fresh owned_empty_world)) s (config_of t)"
    using owned_demo_reach [OF t, of "\<lambda>_. True"] by blast
  show ?thesis
    using owned_fifo [OF s(1) owned_demo_ok s(2)] t p by (auto simp: owned_empty_world_def)
qed

text \<open>
  C24. Memory. The reference count is the number of handles; \<open>queued_bytes\<close> is the number of
  bytes in the queue and never exceeds the budget; the message blocks allocated and not yet
  freed are as many as the queued messages and the copies held by sends under way, and the data
  blocks as many as the non-empty ones among these: an early return of a send never leaks its
  copy. When the last handle is gone, for every mutex, condition variable and class of block
  as many have been given back as were acquired. The mutex is free between operations on every
  path.
\<close>

theorem owned_lifetime:
  assumes "owned_boot os cap mm mq w = Some s" "limits_ok cap mm mq" "mutex_state (fresh w) w = Some False"
    "reach P (owned_monitor (fresh w)) s t"
  shows "mutex_state (fresh w) (wrld t) = Some False \<and> (case mem (wrld t) (fresh w) of
      Some c \<Rightarrow> agents t \<noteq> {#} \<and> refs c = of_nat (size (agents t)) \<and> size (agents t) < 2 ^ 32 \<and>
        queued_bytes c = (\<Sum>m \<leftarrow> queued_messages c. int (length (case data m of None \<Rightarrow> [] | Some bs \<Rightarrow> bs))) \<and> queued_bytes c \<le> mq \<and>
        balance (BlockRes MessageBlock) (calls (wrld t)) = balance (BlockRes MessageBlock) (calls w) +
          count c + int (size (in_flight (image_mset tag (agents t)))) \<and>
        balance (BlockRes DataBlock) (calls (wrld t)) = balance (BlockRes DataBlock) (calls w) +
          int (size {#m \<in># mset (queued_messages c) + in_flight (image_mset tag (agents t)). data m \<noteq> None#})
    | None \<Rightarrow> agents t = {#} \<and> (\<forall>r. balance r (calls (wrld t)) = balance r (calls w)))"
proof (cases "agents t = {#}")
  case True
  then show ?thesis using reach_owned(1) [OF assms] by (auto simp: owned_inv_def)
next
  case False
  let ?F = "in_flight (image_mset tag (agents t))"
  obtain c bs where l: "owned_live cap mm mq (fresh w) (\<lambda>r. balance r (calls w)) c bs (wrld t) (image_mset fst (agents t))
      ?F (past t)"
    using False reach_owned(1) [OF assms] by (auto simp: owned_inv_def)
  then have m: "mem (wrld t) (fresh w) = Some c" and q: "queue_ok cap mm mq c bs" and h: "handles_ok c (image_mset fst (agents t))"
    by (auto simp: owned_live_def)
  note b = message_balance_blocks and qb = queue_ok_bytes [OF q]
  have bl: "balance (BlockRes x) (calls (wrld t)) = balance (BlockRes x) (calls w) + owning (owned_resources (fresh w)) (BlockRes x) +
      message_balance (BlockRes x) (mset (queued_messages c)) + message_balance (BlockRes x) ?F" for x
    using l qb(2) by (simp add: owned_live_def)
  show ?thesis
    using False h handles_ok_size [OF h] queue_okD(2) [OF q] reach_owned(1) [OF assms] qb bl [of MessageBlock] bl [of DataBlock] unfolding m
    by (simp add: handles_ok_def b owned_resources_def owned_inv_def)
qed

theorem owned_lifetime_witness:
  "\<exists>t. owned_demo [Call (TrySend [1, 2]) 0, Resume 1, Call Finalize 0, Call Finalize 0] = Some t \<and>
     agents (config_of t) = {#} \<and> balance (BlockRes DataBlock) (calls (wrld (config_of t))) = 0 \<and>
     balance (BlockRes MessageBlock) (calls (wrld (config_of t))) = 0"
proof -
  obtain t where t: "owned_demo [Call (TrySend [1, 2]) 0, Resume 1, Call Finalize 0, Call Finalize 0] = Some t"
    and p: "mem (wrld (config_of t)) 0 = None"
    by (simp add: owned_demo_def owned_eval numeral_2_eq_2)
  obtain s where s: "owned_boot quiet_os 2 2 2 owned_empty_world = Some s"
      "reach (\<lambda>_. True) (owned_monitor (fresh owned_empty_world)) s (config_of t)"
    using owned_demo_reach [OF t, of "\<lambda>_. True"] by blast
  show ?thesis
    using owned_lifetime [OF s(1) owned_demo_ok s(2)] t p by (auto simp: owned_empty_world_def)
qed

text \<open>
  C19. No lost wake-up for the receiver: whenever it is asleep in \<open>recv\<close> the channel is
  open and empty.
\<close>

theorem owned_no_lost_receiver:
  assumes boot: "owned_boot os cap mm mq w = Some s" "limits_ok cap mm mq" "mutex_state (fresh w) w = Some False"
    and run: "reach os_ok (owned_monitor (fresh w)) s t" and asleep: "0 < sleepers Readable (agents t)"
  shows "\<exists>c. mem (wrld t) (fresh w) = Some c \<and> count c = 0 \<and> closed c = 0"
proof -
  note g = owned_boot_good [OF boot] and inv = reach_owned [OF boot run]
  have a: "owned_readable.awake_enough (fresh w) t"
    by (rule owned_readable.reach_awake [OF run g(1)]) (simp add: owned_readable.awake_enough_def g(2,3))
  have o: "owned_close_readable.sleep_blocked (fresh w) t"
    by (rule owned_close_readable.reach_sleep_blocked [OF run g(1)]) (simp add: owned_close_readable.sleep_blocked_def g(2))
  obtain c where c: "mem (wrld t) (fresh w) = Some c" "closed c = 0"
    using o asleep by (auto simp: owned_close_readable.sleep_blocked_def owned_open_def split: option.splits)
  then have r: "receiver_handles (image_mset fst (agents t)) \<le> 1" and n: "0 \<le> count c"
    using inv(1) queue_okD(2) by (force simp: owned_inv_def owned_live_def handles_ok_def split: if_splits)+
  have "roused (\<lambda>k. \<not> is_submit k) (agents t) = 0"
    using owned_waiters_are_receivers [OF inv(2)] a r asleep by (auto simp: owned_readable.awake_enough_def)
  then have "queued_of c = 0" using a asleep c by (simp add: owned_readable.awake_enough_def owned_ready_def)
  then show ?thesis using c n by (auto simp: queued_of_def)
qed

theorem owned_no_lost_receiver_witness:
  "\<exists>t c. owned_demo [Call Recv 1] = Some t \<and> sleepers Readable (agents (config_of t)) = 1 \<and>
     mem (wrld (config_of t)) 0 = Some c \<and> count c = 0 \<and> closed c = 0"
proof -
  obtain t where t: "owned_demo [Call Recv 1] = Some t" and p: "sleepers Readable (agents (config_of t)) = 1"
    by (simp add: owned_demo_def owned_eval)
  obtain s where s: "owned_boot quiet_os 2 2 2 owned_empty_world = Some s"
      "reach os_ok (owned_monitor (fresh owned_empty_world)) s (config_of t)"
    using owned_demo_reach [OF t, of os_ok] by auto
  show ?thesis
    using owned_no_lost_receiver [OF s(1) owned_demo_ok s(2)] t p by (auto simp: owned_empty_world_def)
qed

text \<open>
  C20. Senders cannot get stuck for good: whenever a sender is asleep in \<open>send\<close>, the
  channel is open with a live receiver, and if the queue is empty some sender is awake to
  fill it (otherwise the next receive wakes one).
\<close>

theorem owned_sender_progress:
  assumes boot: "owned_boot os cap mm mq w = Some s" "limits_ok cap mm mq" "mutex_state (fresh w) w = Some False"
    and run: "reach os_ok (owned_monitor (fresh w)) s t" and asleep: "0 < sleepers Writable (agents t)"
  shows "\<exists>c. mem (wrld t) (fresh w) = Some c \<and> closed c = 0 \<and> receiver_alive c \<noteq> 0 \<and>
    (count c = 0 \<longrightarrow> 0 < roused is_submit (agents t))"
proof -
  note g = owned_boot_good [OF boot]
  have a: "owned_writable.awake_enough (fresh w) t"
    by (rule owned_writable.reach_awake [OF run g(1)]) (simp add: owned_writable.awake_enough_def g(2,3))
  have o: "owned_close_writable.sleep_blocked (fresh w) t"
    by (rule owned_close_writable.reach_sleep_blocked [OF run g(1)]) (simp add: owned_close_writable.sleep_blocked_def g(2))
  obtain c where c: "mem (wrld t) (fresh w) = Some c" "closed c = 0" "receiver_alive c \<noteq> 0"
    using o asleep by (auto simp: owned_close_writable.sleep_blocked_def owned_accepting_def split: option.splits)
  then have "idle_of c \<le> roused is_submit (agents t)"
    using a asleep by (simp add: owned_writable.awake_enough_def owned_idle_def)
  then show ?thesis using c by (auto simp: idle_of_def)
qed

theorem owned_sender_progress_witness:
  "\<exists>t c. owned_demo [Call (TrySend [1, 2]) 0, Resume 1, Call (Send [3]) 1, Call TryRecv 0] = Some t \<and>
     mem (wrld (config_of t)) 0 = Some c \<and> count c = 0 \<and> roused is_submit (agents (config_of t)) = 1 \<and>
     (\<exists>t c. owned_demo [Call (TrySend [1, 2]) 0, Resume 1, Call (Send [3]) 1] = Some t \<and>
        sleepers Writable (agents (config_of t)) = 1 \<and> mem (wrld (config_of t)) 0 = Some c \<and>
        closed c = 0 \<and> receiver_alive c \<noteq> 0)"
proof -
  obtain t c where t: "owned_demo [Call (TrySend [1, 2]) 0, Resume 1, Call (Send [3]) 1, Call TryRecv 0] = Some t"
      "mem (wrld (config_of t)) 0 = Some c" "count c = 0" "roused is_submit (agents (config_of t)) = 1"
    by (simp add: owned_demo_def owned_eval)
  obtain u where u: "owned_demo [Call (TrySend [1, 2]) 0, Resume 1, Call (Send [3]) 1] = Some u"
    and p: "sleepers Writable (agents (config_of u)) = 1"
    by (simp add: owned_demo_def owned_eval)
  obtain s where s: "owned_boot quiet_os 2 2 2 owned_empty_world = Some s"
      "reach os_ok (owned_monitor (fresh owned_empty_world)) s (config_of u)"
    using owned_demo_reach [OF u, of os_ok] by auto
  show ?thesis
    using owned_sender_progress [OF s(1) owned_demo_ok s(2)] t u p by (auto simp: owned_empty_world_def)
qed

text \<open>
  Result codes: in every run a blocking send answers sent, closed or too large, never
  full; and both kinds of send answer too large only to a message above the limit.
\<close>

theorem owned_send_results:
  assumes boot: "owned_boot os cap mm mq w = Some s" "limits_ok cap mm mq" "mutex_state (fresh w) w = Some False"
    and run: "reach P (owned_monitor (fresh w)) s t"
  shows "((Send b, Submitted (r, e)) \<in> set (past t) \<longrightarrow> r \<in> {0, 2, 3} \<and> (r = 3 \<longrightarrow> int (length b) > mm)) \<and>
    ((TrySend b, Submitted (r, e)) \<in> set (past t) \<longrightarrow> r \<in> {0, 1, 2, 3, 4} \<and> (r = 3 \<longrightarrow> int (length b) > mm))"
proof -
  have "past s = []" using boot(1) by (auto simp: owned_boot_def bind_eq_Some_conv)
  then have "owned_results.good cap mm mq (fresh w) (\<lambda>r. balance r (calls w)) s"
    using owned_boot_good(1) [OF boot] by (simp add: owned_results.good_def owned_logged_def owned.good_def)
  from owned_results.reach_good [OF run this] have "list_all (result_ok mm) (past t)"
    by (simp add: owned_results.good_def owned_logged_def)
  then show ?thesis by (auto simp: list_all_iff)
qed

theorem owned_send_results_witness:
  "\<exists>t r e. owned_demo [Call (Send [1, 2, 3]) 0] = Some t \<and>
     (Send [1, 2, 3], Submitted (r, e)) \<in> set (past (config_of t)) \<and> r = 3 \<and> r \<in> {0, 2, 3 :: int}"
proof -
  obtain t e where t: "owned_demo [Call (Send [1, 2, 3]) 0] = Some t"
    and p: "(Send [1, 2, 3], Submitted (3, e)) \<in> set (past (config_of t))"
    by (simp add: owned_demo_def owned_eval)
  obtain s where s: "owned_boot quiet_os 2 2 2 owned_empty_world = Some s"
      "reach (\<lambda>_. True) (owned_monitor (fresh owned_empty_world)) s (config_of t)"
    using owned_demo_reach [OF t, of "\<lambda>_. True"] by blast
  show ?thesis
    using owned_send_results [OF s(1) owned_demo_ok s(2), of "[1, 2, 3]" 3 e] t p by blast
qed

text \<open>
  C30. What \<open>try_send\<close> answers, although it gives the mutex up to copy its message. In every
  reachable configuration, as long as the calls of the system made by the step succeed: its
  first part leaves the queue alone, and either returns the documented code (3 too large,
  2 closed, 1 full, 4 over the byte budget) for the state it finds, or, when the message fits,
  goes on with a copy. Its second part decides again, whatever the other threads have done in
  between: it returns the code for the state that it finds, and appends the message exactly when
  this code is 0. A call that nobody interrupts therefore returns the code for the state in
  which it was called. An injected error is reported with code 2 and consumed; nothing else changes.
\<close>

theorem owned_try_send_spec:
  assumes boot: "owned_boot os cap mm mq w = Some s" "limits_ok cap mm mq" "mutex_state (fresh w) w = Some False"
    and run: "reach P (owned_monitor (fresh w)) s t" and ok: "os_ok os'" and c: "mem (wrld t) (fresh w) = Some c"
  shows "((h, Ready) \<in># agents t \<longrightarrow> next_operation_error (wrld t) = 0 \<longrightarrow>
      (\<exists>w'. owned_enter os' (TrySend b) h (wrld t) = Some (if try_send_code mm mq c b = 0 then Again (SubmitLockK b 0 (copy_message b))
          else Return (Submitted (try_send_code mm mq c b, 0)), w') \<and> mem w' = mem (wrld t)) \<and>
      (\<exists>w'. sync_owned_bytes_sender_try_send os' h b [\<lambda>w. w] (wrld t) = Some (Some (try_send_code mm mq c b, 0), w') \<and>
        mem w' (fresh w) = Some (if try_send_code mm mq c b = 0 then enqueued b c else c))) \<and>
    ((h, Ready) \<in># agents t \<longrightarrow> next_operation_error (wrld t) \<noteq> 0 \<longrightarrow> owned_enter os' (TrySend b) h (wrld t) =
        Some (Return (Submitted (2, next_operation_error (wrld t))), wrld t\<lparr>next_operation_error := 0\<rparr>)) \<and>
    ((h, Runnable (SubmitLockK b 0 m)) \<in># agents t \<longrightarrow>
      (\<exists>w'. owned_resume os' (SubmitLockK b 0 m) h (wrld t) = Some (Return (Submitted (try_send_code mm mq c b, 0)), w') \<and>
        mem w' (fresh w) = Some (if try_send_code mm mq c b = 0 then enqueued b c else c)))"
proof -
  note inv = reach_owned [OF boot run]
  have live: "core h = Some (fresh w) \<and> (\<exists>bs. queue_ok cap mm mq c bs)" if "(h, x) \<in># agents t" for x
    using inv(1) c that by (force simp: owned_inv_def owned_live_def split: if_splits)
  have k: "m = copy_message b" if "(h, Runnable (SubmitLockK b 0 m)) \<in># agents t"
    using inv(2) that by (force simp: all_pending_def)
  show ?thesis
  proof (intro conjI impI)
    assume "(h, Ready) \<in># agents t" "next_operation_error (wrld t) = 0"
    then show "\<exists>w'. owned_enter os' (TrySend b) h (wrld t) = Some (if try_send_code mm mq c b = 0 then Again (SubmitLockK b 0 (copy_message b))
          else Return (Submitted (try_send_code mm mq c b, 0)), w') \<and> mem w' = mem (wrld t)"
        "\<exists>w'. sync_owned_bytes_sender_try_send os' h b [\<lambda>w. w] (wrld t) = Some (Some (try_send_code mm mq c b, 0), w') \<and>
        mem w' (fresh w) = Some (if try_send_code mm mq c b = 0 then enqueued b c else c)"
      using live try_send_enter [OF ok _ c] try_send_alone [OF ok _ c] by blast+
  next
    assume "(h, Ready) \<in># agents t" "next_operation_error (wrld t) \<noteq> 0"
    then show "owned_enter os' (TrySend b) h (wrld t) =
        Some (Return (Submitted (2, next_operation_error (wrld t))), wrld t\<lparr>next_operation_error := 0\<rparr>)"
      using live try_send_injected by blast
  next
    assume r: "(h, Runnable (SubmitLockK b 0 m)) \<in># agents t"
    then show "\<exists>w'. owned_resume os' (SubmitLockK b 0 m) h (wrld t) = Some (Return (Submitted (try_send_code mm mq c b, 0)), w') \<and>
        mem w' (fresh w) = Some (if try_send_code mm mq c b = 0 then enqueued b c else c)"
      unfolding k [OF r] using live [OF r] try_send_resume [OF ok _ c] by blast
  qed
qed

theorem owned_try_send_spec_witness:
  "\<exists>t w'. owned_demo [Call Share 0, Call (TrySend [7, 8]) 1, Call (TrySend [9]) 1, Resume 2] = Some t \<and>
     (sync_owned_bytes_wrap 0 1, Runnable (SubmitLockK [7, 8] 0 (copy_message [7, 8]))) \<in># agents (config_of t) \<and>
     owned_resume quiet_os (SubmitLockK [7, 8] 0 (copy_message [7, 8])) (sync_owned_bytes_wrap 0 1) (wrld (config_of t)) =
       Some (Return (Submitted (4, 0)), w')"
proof -
  obtain t c where t: "owned_demo [Call Share 0, Call (TrySend [7, 8]) 1, Call (TrySend [9]) 1, Resume 2] = Some t"
    and p: "mem (wrld (config_of t)) 0 = Some c"
      "(sync_owned_bytes_wrap 0 1, Runnable (SubmitLockK [7, 8] 0 (copy_message [7, 8]))) \<in># agents (config_of t)"
      "try_send_code 2 2 c [7, 8] = 4"
    by (simp add: owned_demo_def owned_eval try_send_code_def copy_message_def)
  obtain s where s: "owned_boot quiet_os 2 2 2 owned_empty_world = Some s"
      "reach (\<lambda>_. True) (owned_monitor (fresh owned_empty_world)) s (config_of t)"
    using owned_demo_reach [OF t, of "\<lambda>_. True"] by blast
  show ?thesis
    using owned_try_send_spec [OF s(1) owned_demo_ok s(2) quiet_os_ok, of c "sync_owned_bytes_wrap 0 1" "[7, 8]" "copy_message [7, 8]"] t p
    by (auto simp: owned_empty_world_def)
qed

text \<open>An operation a handle may start, and one that goes on, is defined.\<close>

lemma owned_enter_total:
  assumes l: "owned_live cap mm mq a B c bs w (add_mset h H) F ps" and mem_ok: "sends op \<Longrightarrow> \<forall>h b. \<not> calloc_null os h b"
    and fin: "op = Finalize \<Longrightarrow> os_ok os" and share: "op = Share \<Longrightarrow> int (size H) + 1 < INT32_MAX"
  shows "owned_enter os op h w \<noteq> None"
proof -
  from l have m: "mem w a = Some c" and q: "queue_ok cap mm mq c bs" and a: "core h = Some a"
    and ho: "handles_ok c (add_mset h H)" by (auto simp: owned_live_def)
  have sub: "sync_owned_bytes_submit_start os h b block w \<noteq> None" if "sends op" for b block
    using a m mem_ok [OF that] submit_lock_total [OF _ q, where message = None and os = os]
    by (auto simp: sync_owned_bytes_submit_start_def sync_owned_bytes_channel_test_take_next_operation_error_def sync_test_atomic_take_def)
  have rcv: "sync_owned_bytes_receive_start os h block w \<noteq> None" for block
    using a m owned_receive_total [OF _ q] by (auto simp: sync_owned_bytes_receive_start_def os_defs)
  have "sender_handles (add_mset h H) \<le> Suc (size H)"
    unfolding sender_handles_def by (rule order_trans [OF size_filter_mset_lesseq]) simp
  then have "op = Share \<Longrightarrow> i32_add (senders c) 1 \<noteq> None"
    using share ho by (auto simp: handles_ok_def i32_add_def i32_def INT32_MIN_def)
  then show ?thesis
    using a m sub rcv owned_finalize_total [OF _ l] fin
    by (cases op) (auto simp: sync_owned_bytes_sender_share_def sync_owned_bytes_sender_close_def
        sync_owned_bytes_receiver_close_def close_owned_def sync_owned_bytes_receiver_len_def os_defs)
qed

lemma owned_resume_total:
  assumes m: "mem w a = Some c" and q: "queue_ok cap mm mq c bs" and a: "core h = Some a" and kok: "owned_kok mm h k"
    and mem_ok: "to_copy k \<Longrightarrow> \<forall>h b. \<not> calloc_null os h b"
  shows "owned_resume os k h w \<noteq> None"
proof (cases k)
  case (SubmitWaitK b message e)
  then have "message = Some x \<Longrightarrow> x = copy_message b" for x using kok by auto
  then show ?thesis using SubmitWaitK a m mem_ok submit_loop_total [OF _ q, where message = message and b = b and os = os]
    by (auto simp: sync_owned_bytes_submit_wake_def os_defs)
next
  case (SubmitLockK b block x)
  have "sync_owned_bytes_submit_lock os a b block (Some x) w \<noteq> None"
    by (rule submit_lock_total [OF m q]) (use kok SubmitLockK in auto)
  then show ?thesis using SubmitLockK a by simp
next
  case (RecvK e)
  then show ?thesis using a m owned_receive_total [OF _ q] by (auto simp: sync_owned_bytes_receive_wake_def os_defs)
qed

text \<open>
  C31. Every operation of a reachable configuration is defined: it neither aborts nor runs into
  undefined behaviour, no index, length, signed addition or copy goes out of range, whatever
  the calls of the system report. There are three conditions, and each belongs to one
  operation. A send that has still to make its copy needs an allocation that succeeds (what
  happens otherwise is not covered: \<open>None\<close> stands for both kinds of failure). The making of a
  further sender needs fewer than \<open>INT32_MAX\<close> handles, because the code adds 1 to \<open>senders\<close>
  without a check. The dropping of a handle needs calls that succeed, because it aborts
  otherwise.
\<close>

theorem owned_calls_defined:
  assumes boot: "owned_boot os cap mm mq w = Some s" "limits_ok cap mm mq" "mutex_state (fresh w) w = Some False"
    and run: "reach P (owned_monitor (fresh w)) s t"
  shows "((h, Ready) \<in># agents t \<longrightarrow> owned_may op h \<longrightarrow> (sends op \<longrightarrow> (\<forall>h b. \<not> calloc_null os' h b)) \<longrightarrow>
      (op = Share \<longrightarrow> int (size (agents t)) < INT32_MAX) \<longrightarrow> (op = Finalize \<longrightarrow> os_ok os') \<longrightarrow> owned_enter os' op h (wrld t) \<noteq> None) \<and>
    ((h, Runnable k) \<in># agents t \<longrightarrow> (to_copy k \<longrightarrow> (\<forall>h b. \<not> calloc_null os' h b)) \<longrightarrow> owned_resume os' k h (wrld t) \<noteq> None)"
proof (intro conjI impI)
  note inv = reach_owned [OF boot run]
  have live: "\<exists>A c bs. agents t = add_mset (h, x) A \<and> owned_live cap mm mq (fresh w) (\<lambda>r. balance r (calls w)) c bs (wrld t)
      (add_mset h (image_mset fst A)) (in_flight (image_mset tag (agents t))) (past t)" if "(h, x) \<in># agents t" for x
    using inv(1) that by (auto simp: owned_inv_def dest!: multi_member_split)
  show "owned_enter os' op h (wrld t) \<noteq> None"
    if *: "(h, Ready) \<in># agents t" "sends op \<longrightarrow> (\<forall>h b. \<not> calloc_null os' h b)" "op = Share \<longrightarrow> int (size (agents t)) < INT32_MAX"
      "op = Finalize \<longrightarrow> os_ok os'"
    using live [OF *(1)] *(2-4) owned_enter_total [of cap mm mq "fresh w" _ _ _ "wrld t" h _ _ _ op os'] by fastforce
  show "owned_resume os' k h (wrld t) \<noteq> None"
    if *: "(h, Runnable k) \<in># agents t" "to_copy k \<longrightarrow> (\<forall>h b. \<not> calloc_null os' h b)"
  proof -
    have "owned_kok mm h k" using inv(2) *(1) by (force simp: all_pending_def)
    then show ?thesis using live [OF *(1)] *(2) owned_resume_total [of "wrld t" "fresh w" _ cap mm mq _ h k os'] by (auto simp: owned_live_def)
  qed
qed

theorem owned_calls_defined_witness:
  "\<exists>t. owned_demo [Call (TrySend [1, 2]) 0, Resume 1] = Some t \<and>
     owned_enter quiet_os Finalize (sync_owned_bytes_wrap 0 2) (wrld (config_of t)) \<noteq> None"
proof -
  obtain t where t: "owned_demo [Call (TrySend [1, 2]) 0, Resume 1] = Some t"
    and p: "(sync_owned_bytes_wrap 0 2, Ready) \<in># agents (config_of t)"
    by (simp add: owned_demo_def owned_eval)
  obtain s where s: "owned_boot quiet_os 2 2 2 owned_empty_world = Some s"
      "reach (\<lambda>_. True) (owned_monitor (fresh owned_empty_world)) s (config_of t)"
    using owned_demo_reach [OF t, of "\<lambda>_. True"] by blast
  show ?thesis
    using owned_calls_defined [OF s(1) owned_demo_ok s(2), of "sync_owned_bytes_wrap 0 2" Finalize quiet_os] t p by auto
qed

text \<open>
  The constructor reports a failure exactly when it returns no handle, and then has
  given back everything it had acquired.
\<close>

theorem owned_new_balanced:
  assumes "sync_owned_bytes_channel_new os cap mm mq w = Some ((g, status), w')"
  shows "(g = None) = (status \<noteq> 0) \<and> (\<forall>b. b \<noteq> fresh w \<longrightarrow> mem w' b = mem w b) \<and>
    (mem w' (fresh w) = None) = (g = None) \<and>
    (\<forall>r. balance r (calls w') = balance r (calls w) +
       (if g = None then 0 else owning (owned_resources (fresh w)) r))"
  using assms
  by (auto simp: sync_owned_bytes_channel_new_def os_defs bind_eq_Some_conv owned_resources_def split: if_splits)

theorem owned_new_balanced_witness:
  "\<exists>w'. sync_owned_bytes_channel_new quiet_os 2 2 2 (owned_empty_world\<lparr>next_init_error := 12\<rparr>) = Some ((None, 12), w') \<and>
     mem w' 0 = None \<and> (\<forall>r. balance r (calls w') = 0)"
proof -
  obtain w' where w': "sync_owned_bytes_channel_new quiet_os 2 2 2 (owned_empty_world\<lparr>next_init_error := 12\<rparr>) = Some ((None, 12), w')"
    by (simp add: owned_eval)
  show ?thesis
    using owned_new_balanced [OF w'] w' by (auto simp: owned_empty_world_def)
qed

text \<open>
  A sender may sleep on although its message fits: one receive can free the room of
  several small messages but signals only one of the waiting senders. Here a system without
  failures reaches a configuration in which a sender is asleep, nobody else is awake, the
  channel is open, and the condition the sender waits for is false. The next receive, a close
  or the dropping of the last sender or of the receiver still wakes it.
\<close>

theorem owned_sender_oversleeps:
  "\<exists>s t c. owned_boot quiet_os 2 2 2 owned_empty_world = Some s \<and>
     reach os_ok (owned_monitor (fresh owned_empty_world)) s t \<and>
     (sync_owned_bytes_wrap 0 1, Asleep Writable (SubmitWaitK [4] None 0)) \<in># agents t \<and>
     roused (\<lambda>_. True) (agents t) = 0 \<and>
     mem (wrld t) 0 = Some c \<and> closed c = 0 \<and> receiver_alive c \<noteq> 0 \<and> submit_full c 1 = Some False"
proof -
  obtain t c where t: "owned_demo [Call Share 0, Call (TrySend [1, 2]) 1, Resume 2, Call (Send [3]) 1,
      Call (Send [4]) 1, Call TryRecv 0, Resume 0, Resume 2] = Some t"
    and p: "(sync_owned_bytes_wrap 0 1, Asleep Writable (SubmitWaitK [4] None 0)) \<in># agents (config_of t)"
      "roused (\<lambda>_. True) (agents (config_of t)) = 0"
      "mem (wrld (config_of t)) 0 = Some c" "closed c = 0" "receiver_alive c \<noteq> 0" "submit_full c 1 = Some False"
    by (simp add: owned_demo_def owned_eval)
  then show ?thesis using owned_demo_reach [OF t, of os_ok] by auto
qed

end
