(* ===== verification/Sync_WaitGroup.thy ===== *)
theory Sync_WaitGroup
  imports Sync_Monitor
begin

text \<open>
  The wait group, \<^verbatim>\<open>src/src/wait_group/native.c\<close>: a counter behind a mutex and a condition
  variable. \<open>add\<close> moves the counter and wakes everybody when it reaches zero; \<open>wait\<close> blocks
  until it is zero.
\<close>

section \<open>State\<close>

record sync_wait_group_core_t =
  refs :: sync_arc_t
  count :: int

record sync_wait_group_handle_t =
  core :: "addr option"

record wg_world = "(unit, sync_wait_group_core_t) world" +
  next_init_error :: int
  next_add_error :: int
  next_wait_error :: int

section \<open>Operations\<close>

text \<open>\<open>sync_wait_group_take_test_error\<close> applied to each of the three cells.\<close>

definition sync_wait_group_take_test_error :: "int \<Rightarrow> int \<times> int" where
  "sync_wait_group_take_test_error next_error = sync_test_atomic_take next_error"

definition sync_wait_group_finalize :: "unit os \<Rightarrow> sync_wait_group_handle_t \<Rightarrow> wg_world \<Rightarrow> wg_world option" where
  "sync_wait_group_finalize os handle w = (case core handle of None \<Rightarrow> Some w | Some a \<Rightarrow> do {
     c \<leftarrow> mem w a;
     let r = sync_arc_dec (refs c);
     let w = store a (c\<lparr>refs := r\<rparr>) w;
     if r \<noteq> 0 then Some w else do {
       w \<leftarrow> abort_if_failed (sync_os_cond_destroy os a Cond w);
       w \<leftarrow> abort_if_failed (sync_os_mutex_destroy os a w);
       Some (free_core a w)
     }
   })"

definition sync_wait_group_wrap :: "addr \<Rightarrow> sync_wait_group_handle_t" where
  "sync_wait_group_wrap a = \<lparr>core = Some a\<rparr>"

definition sync_wait_group_new ::
  "unit os \<Rightarrow> wg_world \<Rightarrow> ((sync_wait_group_handle_t option \<times> int) \<times> wg_world) option" where
  "sync_wait_group_new os w = do {
     w \<leftarrow> sync_alloc os CoreBlock w;
     let a = fresh w;
     let w = store a \<lparr>refs = 1, count = 0\<rparr> (w\<lparr>fresh := Suc a\<rparr>);
     let (status, w) = sync_os_mutex_init os a w;
     if status \<noteq> 0 then Some ((None, status), free_core a w) else do {
     let (injected, next) = sync_wait_group_take_test_error (next_init_error w);
     let w = w\<lparr>next_init_error := next\<rparr>;
     if injected \<noteq> 0 then do {
       w \<leftarrow> abort_if_failed (sync_os_mutex_destroy os a w);
       Some ((None, injected), free_core a w)
     } else do {
     let (status, w) = sync_os_cond_init os a Cond w;
     if status \<noteq> 0 then do {
       w \<leftarrow> abort_if_failed (sync_os_mutex_destroy os a w);
       Some ((None, status), free_core a w)
     } else Some ((Some (sync_wait_group_wrap a), status), w)
     }}
   }"

definition sync_wait_group_share ::
  "sync_wait_group_handle_t \<Rightarrow> wg_world \<Rightarrow> (sync_wait_group_handle_t \<times> wg_world) option" where
  "sync_wait_group_share value w = do {
     a \<leftarrow> core value;
     c \<leftarrow> mem w a;
     Some (sync_wait_group_wrap a, store a (c\<lparr>refs := sync_arc_inc (refs c)\<rparr>) w)
   }"

text \<open>The result (0 or 1) and \<open>*status\<close>.\<close>

definition sync_wait_group_add ::
  "unit os \<Rightarrow> sync_wait_group_handle_t \<Rightarrow> int \<Rightarrow> wg_world \<Rightarrow> ((int \<times> int) \<times> wg_world) option" where
  "sync_wait_group_add os value delta w = do {
     a \<leftarrow> core value;
     let (injected, next) = sync_wait_group_take_test_error (next_add_error w);
     let w = w\<lparr>next_add_error := next\<rparr>;
     if injected \<noteq> 0 then Some ((0, injected), w) else do {
     let (status, w) = sync_os_mutex_lock os a w;
     if status \<noteq> 0 then Some ((0, status), w) else do {
     c \<leftarrow> mem w a;
     next \<leftarrow> i64_add (count c) delta;
     if next < 0 \<or> next > INT32_MAX then do {
       let (st, w) = sync_os_mutex_unlock os a w;
       Some ((0, record_error status st), w)
     } else do {
       let w = store a (c\<lparr>count := next\<rparr>) w;
       let (status, w) =
         (if next = 0 then let (st, w) = sync_os_cond_broadcast os a Cond w in (record_error status st, w)
          else (status, w));
       let (st, w) = sync_os_mutex_unlock os a w;
       let status = record_error status st;
       Some ((if status = 0 then 1 else 0, status), w)
     }}}
   }"

text \<open>The wait loop; a blocked call keeps \<open>*status\<close>.\<close>

definition sync_wait_group_wait_loop ::
  "unit os \<Rightarrow> addr \<Rightarrow> int \<Rightarrow> wg_world \<Rightarrow> ((int, int) outcome \<times> wg_world) option" where
  "sync_wait_group_wait_loop os a status w = do {
     c \<leftarrow> mem w a;
     if count c \<noteq> 0 then Some (Wait Cond status, cond_sleep a Cond w)
     else do {
       let (st, w) = sync_os_mutex_unlock os a w;
       Some (Return (record_error status st), w)
     }
   }"

definition sync_wait_group_wait_wake ::
  "unit os \<Rightarrow> addr \<Rightarrow> int \<Rightarrow> wg_world \<Rightarrow> ((int, int) outcome \<times> wg_world) option" where
  "sync_wait_group_wait_wake os a status w = do {
     let (wait_status, w) = sync_os_cond_wait os a Cond w;
     if wait_status \<noteq> 0 then do {
       let status = record_error status wait_status;
       let (st, w) = sync_os_mutex_unlock os a w;
       Some (Return (record_error status st), w)
     } else sync_wait_group_wait_loop os a status w
   }"

definition sync_wait_group_wait_start ::
  "unit os \<Rightarrow> sync_wait_group_handle_t \<Rightarrow> wg_world \<Rightarrow> ((int, int) outcome \<times> wg_world) option" where
  "sync_wait_group_wait_start os value w = do {
     a \<leftarrow> core value;
     let (injected, next) = sync_wait_group_take_test_error (next_wait_error w);
     let w = w\<lparr>next_wait_error := next\<rparr>;
     if injected \<noteq> 0 then Some (Return injected, w) else do {
       let (status, w) = sync_os_mutex_lock os a w;
       if status \<noteq> 0 then Some (Return status, w)
       else sync_wait_group_wait_loop os a status w
     }
   }"

definition sync_wait_group_wait ::
  "unit os \<Rightarrow> sync_wait_group_handle_t \<Rightarrow> (wg_world \<Rightarrow> wg_world) list \<Rightarrow> wg_world \<Rightarrow> (int option \<times> wg_world) option" where
  "sync_wait_group_wait os value env w = do {
     a \<leftarrow> core value;
     x \<leftarrow> sync_wait_group_wait_start os value w;
     finish (\<lambda>os. sync_wait_group_wait_wake os a) os env x
   }"

definition sync_wait_group_test_fail_next_init :: "int \<Rightarrow> wg_world \<Rightarrow> wg_world" where
  "sync_wait_group_test_fail_next_init status w =
     w\<lparr>next_init_error := sync_test_atomic_store (next_init_error w) status\<rparr>"

definition sync_wait_group_test_fail_next_add :: "int \<Rightarrow> wg_world \<Rightarrow> wg_world" where
  "sync_wait_group_test_fail_next_add status w =
     w\<lparr>next_add_error := sync_test_atomic_store (next_add_error w) status\<rparr>"

definition sync_wait_group_test_fail_next_wait :: "int \<Rightarrow> wg_world \<Rightarrow> wg_world" where
  "sync_wait_group_test_fail_next_wait status w =
     w\<lparr>next_wait_error := sync_test_atomic_store (next_wait_error w) status\<rparr>"

section \<open>The wait group as a monitor\<close>

datatype wg_op = WgShare | WgAdd int | WgWait | WgFinalize

datatype wg_ret = WgHandle sync_wait_group_handle_t | WgAdded int int | WgWaited int | WgDropped

text \<open>The delta is a 32-bit integer.\<close>

fun wg_may :: "wg_op \<Rightarrow> sync_wait_group_handle_t \<Rightarrow> bool" where
  "wg_may (WgAdd delta) h = i32 delta"
| "wg_may _ h = True"

fun wg_enter ::
  "unit os \<Rightarrow> wg_op \<Rightarrow> sync_wait_group_handle_t \<Rightarrow> wg_world \<Rightarrow> ((wg_ret, int) outcome \<times> wg_world) option" where
  "wg_enter os WgShare h w = map_option (\<lambda>(g, w). (Return (WgHandle g), w)) (sync_wait_group_share h w)"
| "wg_enter os (WgAdd delta) h w =
     map_option (\<lambda>((r, st), w). (Return (WgAdded r st), w)) (sync_wait_group_add os h delta w)"
| "wg_enter os WgWait h w =
     map_option (\<lambda>(out, w). (map_outcome WgWaited id out, w)) (sync_wait_group_wait_start os h w)"
| "wg_enter os WgFinalize h w = map_option (\<lambda>w. (Return WgDropped, w)) (sync_wait_group_finalize os h w)"

definition wg_resume ::
  "unit os \<Rightarrow> int \<Rightarrow> sync_wait_group_handle_t \<Rightarrow> wg_world \<Rightarrow> ((wg_ret, int) outcome \<times> wg_world) option" where
  "wg_resume os status h w = do {
     a \<leftarrow> core h;
     map_option (\<lambda>(out, w). (map_outcome WgWaited id out, w)) (sync_wait_group_wait_wake os a status w) }"

fun wg_born :: "wg_ret \<Rightarrow> sync_wait_group_handle_t option" where
  "wg_born (WgHandle g) = Some g"
| "wg_born _ = None"

definition wg_monitor where
  "wg_monitor a = \<lparr>site = a, may = wg_may, enter = wg_enter, resume = wg_resume,
     pending = (\<lambda>_. WgWait), drops = (\<lambda>op. op = WgFinalize), born = wg_born\<rparr>"

end
