(* ===== verification/Sync_WaitGroup_Correct.thy ===== *)
theory Sync_WaitGroup_Correct
  imports Sync_WaitGroup
begin

text \<open>
  Correctness of the wait group: the invariant \<open>wg_inv\<close> is kept by every piece of code, for
  any operating system (interpretation \<open>wg\<close>) and, with the counter equal to the sum of the
  successful additions, for one that works (\<open>wg_exact\<close>); sleepers are never forgotten
  (\<open>wg_sleep\<close>). Handles are counted in 32 bits without a check, so the statements are about
  runs with fewer than \<open>2 ^ 32 - 1\<close> completed operations.
\<close>

section \<open>Specification\<close>

text \<open>The sum of the additions that were reported as done, and the claim that every wait
  that returned without an error did so when the sum was zero.\<close>

fun added_by :: "wg_op \<times> wg_ret \<Rightarrow> int" where
  "added_by (WgAdd d, WgAdded r st) = (if r = 1 then d else 0)"
| "added_by _ = 0"

definition total :: "(wg_op \<times> wg_ret) list \<Rightarrow> int" where
  "total ps = sum_list (map added_by ps)"

definition barrier :: "(wg_op \<times> wg_ret) list \<Rightarrow> bool" where
  "barrier ps \<longleftrightarrow> list_all (\<lambda>i. ps ! i = (WgWait, WgWaited 0) \<longrightarrow> total (take i ps) = 0) [0..<length ps]"

definition wg_resources :: "addr \<Rightarrow> resource list" where
  "wg_resources a = [MutexRes a, CondRes a Cond, BlockRes CoreBlock]"

text \<open>The invariant: \<open>H\<close> are the live handles, \<open>B\<close> the balance of resources before the group
  was made; \<open>exact\<close> adds what holds on a working system.\<close>

definition wg_live ::
  "bool \<Rightarrow> addr \<Rightarrow> (resource \<Rightarrow> int) \<Rightarrow> sync_wait_group_core_t \<Rightarrow> wg_world \<Rightarrow> sync_wait_group_handle_t multiset \<Rightarrow>
   (wg_op \<times> wg_ret) list \<Rightarrow> bool" where
  "wg_live exact a B c w H ps \<longleftrightarrow>
     mem w a = Some c \<and> refs c = of_nat (size H) \<and> 0 \<le> count c \<and> count c \<le> INT32_MAX \<and>
     (exact \<longrightarrow> count c = total ps) \<and>
     (\<forall>r. balance r (calls w) = B r + owning (wg_resources a) r)"

definition wg_inv ::
  "bool \<Rightarrow> addr \<Rightarrow> (resource \<Rightarrow> int) \<Rightarrow> wg_world \<Rightarrow> sync_wait_group_handle_t multiset \<Rightarrow>
   (wg_op \<times> wg_ret) list \<Rightarrow> bool" where
  "wg_inv exact a B w H ps \<longleftrightarrow> (\<forall>h \<in># H. core h = Some a) \<and> (short_run ps \<longrightarrow>
     size H \<le> Suc (length ps) \<and> mutex_state a w = Some False \<and> (exact \<longrightarrow> barrier ps) \<and>
     (if H = {#} then mem w a = None \<and> (\<forall>r. balance r (calls w) = B r)
      else \<exists>c. wg_live exact a B c w H ps))"

text \<open>The condition a waiting thread waits to become false.\<close>

definition wg_busy :: "addr \<Rightarrow> wg_world \<Rightarrow> bool" where
  "wg_busy a w = (case mem w a of None \<Rightarrow> True | Some c \<Rightarrow> count c \<noteq> 0)"

text \<open>The first status in a log that is not zero, or 0.\<close>

primrec first_error :: "'v history \<Rightarrow> int" where
  "first_error [] = 0"
| "first_error (x # ks) = (if snd x \<noteq> 0 then snd x else first_error ks)"

text \<open>A new wait group with its first handle.\<close>

definition wg_boot ::
  "unit os \<Rightarrow> wg_world \<Rightarrow> (unit, _, wg_op, sync_wait_group_handle_t, int, wg_ret) config option" where
  "wg_boot os w = do {
     ((g, status), w) \<leftarrow> sync_wait_group_new os w;
     h \<leftarrow> g;
     Some \<lparr>wrld = w, agents = {#(h, Ready)#}, past = []\<rparr>
   }"

text \<open>Concrete runs.\<close>

definition wg_empty_world :: wg_world where
  "wg_empty_world = \<lparr>calls = [], mem = Map.empty, fresh = 0, next_init_error = 0, next_add_error = 0, next_wait_error = 0\<rparr>"

definition wg_demo ::
  "wg_op choice list \<Rightarrow> (wg_world \<times> (sync_wait_group_handle_t \<times> int mode) list \<times> (wg_op \<times> wg_ret) list) option" where
  "wg_demo xs = do {
     s \<leftarrow> wg_boot quiet_os wg_empty_world;
     exec (wg_monitor 0) quiet_os xs (wrld s, [(sync_wait_group_wrap 0, Ready)], []) }"

section \<open>Lemmas\<close>

lemma total_simps [simp]: "total [] = 0" "total (ps @ [x]) = total ps + added_by x"
  by (simp_all add: total_def)

lemma barrier_simps [simp]:
  "barrier []" "barrier (ps @ [x]) \<longleftrightarrow> barrier ps \<and> (x = (WgWait, WgWaited 0) \<longrightarrow> total ps = 0)"
  by (auto simp: barrier_def list_all_iff nth_append)

lemmas wg_defs = os_defs mutex_state_def mutex_run_append wg_inv_def wg_live_def sync_wait_group_take_test_error_def

subsection \<open>The operations keep the invariant\<close>

lemma wg_inv_mono:
  assumes "wg_inv exact a B w H ps" "short_run ps"
  shows "size H \<le> Suc (length ps)" "mutex_state a w = Some False" "\<forall>h \<in># H. core h = Some a" "exact \<Longrightarrow> barrier ps"
    "H = {#} \<Longrightarrow> mem w a = None \<and> (\<forall>r. balance r (calls w) = B r)"
    "H \<noteq> {#} \<Longrightarrow> \<exists>c. wg_live exact a B c w H ps"
  using assms by (auto simp: wg_inv_def)

lemma wg_big:
  "\<not> short_run ps \<Longrightarrow> \<forall>h \<in># H. core h = Some a \<Longrightarrow> wg_inv exact a B w H (record_past op out ps)"
  using short_run_record [of ps op out] by (simp add: wg_inv_def)

lemma wg_handle: "wg_inv exact a B w H ps \<Longrightarrow> h \<in># H \<Longrightarrow> core h = Some a"
  by (simp add: wg_inv_def)

lemma wg_share_inv:
  assumes inv: "wg_inv exact a B w (add_mset h H) ps" and run: "sync_wait_group_share h w = Some (g, w')"
  shows "wg_inv exact a B w' (add_mset g (add_mset h H)) (ps @ [(WgShare, WgHandle g)])"
  using inv run
  by (cases "short_run ps")
    (auto simp: wg_defs sync_wait_group_share_def sync_wait_group_wrap_def bind_eq_Some_conv)

lemma wg_add_inv:
  assumes inv: "wg_inv exact a B w (add_mset h H) ps" and d: "i32 d" and e: "exact \<Longrightarrow> os_ok os"
    and run: "sync_wait_group_add os h d w = Some ((r, st), w')"
  shows "wg_inv exact a B w' (add_mset h H) (ps @ [(WgAdd d, WgAdded r st)])"
proof (cases "short_run ps")
  case True
  obtain c where l: "wg_live exact a B c w (add_mset h H) ps" and a: "core h = Some a"
    using wg_inv_mono(3,6) [OF inv True] by auto
  have i: "i64_add (count c) d = Some (count c + d)"
    using l d by (intro i64_add_i32) (auto simp: wg_live_def i32_def INT32_MIN_def)
  have m: "mem w a = Some c" using l by (simp add: wg_live_def)
  consider "next_add_error w \<noteq> 0" | "next_add_error w = 0" "posix_status os (MutexLock a) (calls w) \<noteq> 0"
    | "next_add_error w = 0" "posix_status os (MutexLock a) (calls w) = 0" "count c + d < 0 \<or> count c + d > INT32_MAX"
    | "next_add_error w = 0" "posix_status os (MutexLock a) (calls w) = 0" "0 \<le> count c + d" "count c + d \<le> INT32_MAX"
    by linarith
  then show ?thesis
    by cases (use inv l a i m e run in \<open>auto simp: sync_wait_group_add_def wg_defs split: if_splits\<close>)
qed (use inv in \<open>auto simp: wg_inv_def\<close>)

lemma wg_locked_wait:
  assumes inv: "wg_inv exact a B w (add_mset h H) ps" and k: "k = (MutexLock a, 0) \<or> k = (CondWait a Cond, 0)"
    and run: "sync_wait_group_wait_loop os a 0 (w\<lparr>calls := calls w @ [k]\<rparr>) = Some (out, w')"
  shows "wg_inv exact a B w' (add_mset h H) (record_past WgWait (map_outcome WgWaited id out) ps)"
proof (cases "short_run ps")
  case True
  obtain c where l: "wg_live exact a B c w (add_mset h H) ps" using wg_inv_mono(6) [OF inv True] by auto
  then have m: "mem w a = Some c" by (simp add: wg_live_def)
  show ?thesis
    using inv l m k run by (cases "count c = 0") (auto simp: sync_wait_group_wait_loop_def wg_defs record_past_def)
qed (use inv in \<open>auto intro: wg_big wg_handle\<close>)

lemma wg_wait_start_inv:
  assumes inv: "wg_inv exact a B w (add_mset h H) ps" and a: "core h = Some a"
    and run: "sync_wait_group_wait_start os h w = Some (out, w')"
  shows "wg_inv exact a B w' (add_mset h H) (record_past WgWait (map_outcome WgWaited id out) ps)"
proof -
  let ?w = "w\<lparr>next_wait_error := 0\<rparr>"
  have inv': "wg_inv exact a B ?w (add_mset h H) ps" using inv by (simp add: wg_inv_def wg_live_def mutex_state_def)
  consider "next_wait_error w \<noteq> 0" | "next_wait_error w = 0" "posix_status os (MutexLock a) (calls w) \<noteq> 0"
    | "next_wait_error w = 0" "posix_status os (MutexLock a) (calls w) = 0" by blast
  then show ?thesis
  proof cases
    case 3
    then have "sync_wait_group_wait_loop os a 0 (?w\<lparr>calls := calls ?w @ [(MutexLock a, 0)]\<rparr>) = Some (out, w')"
      using run a by (simp add: sync_wait_group_wait_start_def sync_wait_group_take_test_error_def os_defs)
    then show ?thesis by (rule wg_locked_wait [OF inv', rotated]) simp
  qed (use run a inv' in \<open>auto simp: sync_wait_group_wait_start_def wg_defs record_past_def\<close>)
qed

lemma wg_wait_wake_inv:
  assumes inv: "wg_inv exact a B w (add_mset h H) ps" and a: "core h = Some a"
    and run: "sync_wait_group_wait_wake os a 0 w = Some (out, w')"
  shows "wg_inv exact a B w' (add_mset h H) (record_past WgWait (map_outcome WgWaited id out) ps)"
proof (cases "ret os (calls w) (CondWait a Cond) = 0")
  case True
  then have "sync_wait_group_wait_loop os a 0 (w\<lparr>calls := calls w @ [(CondWait a Cond, 0)]\<rparr>) = Some (out, w')"
    using run by (simp add: sync_wait_group_wait_wake_def os_defs)
  then show ?thesis by (rule wg_locked_wait [OF inv, rotated]) simp
next
  case False
  then show ?thesis
    using inv run by (auto simp: sync_wait_group_wait_wake_def wg_defs record_past_def record_error_def)
qed

lemma wg_finalize_inv:
  assumes inv: "wg_inv exact a B w (add_mset h H) ps" and run: "sync_wait_group_finalize os h w = Some w'"
  shows "wg_inv exact a B w' H (ps @ [(WgFinalize, WgDropped)])"
proof (cases "short_run ps")
  case True
  obtain c where l: "wg_live exact a B c w (add_mset h H) ps" and a: "core h = Some a"
    using wg_inv_mono(3,6) [OF inv True] by auto
  have sz: "refs c - 1 = of_nat (size H)" and m: "mem w a = Some c" using l by (simp_all add: wg_live_def)
  have wf: "of_nat (size H) = (0 :: 32 word) \<longleftrightarrow> H = {#}"
    using wg_inv_mono(1) [OF inv True] short_run_refs [OF True, of "size H"] by simp
  show ?thesis
  proof (cases "H = {#}")
    case True
    then show ?thesis using inv l a m sz run
      by (auto simp: sync_wait_group_finalize_def wg_defs wg_resources_def)
  next
    case False
    then show ?thesis using inv l a m sz wf run
      by (auto simp: sync_wait_group_finalize_def wg_defs)
  qed
qed (use inv in \<open>auto simp: wg_inv_def\<close>)

subsection \<open>The wait group is a monitor\<close>

lemma settle_wg:
  "settle (wg_monitor a) op h (Return r) =
     (if op = WgFinalize then {#} else {#(h, Ready)#}) +
     (case wg_born r of None \<Rightarrow> {#} | Some g \<Rightarrow> {#(g, Ready)#})"
  "settle (wg_monitor a) op h (Wait cv k) = {#(h, Asleep cv k)#}"
  "settle (wg_monitor a) op h (Again k) = {#(h, Runnable k)#}"
  by (simp_all add: settle_def wg_monitor_def split: option.splits)

lemma settle_wg_wait:
  "image_mset fst (settle (wg_monitor a) WgWait h (map_outcome WgWaited f out)) = {#h#}"
  by (cases out) (simp_all add: settle_wg)

lemma wg_monitor_simps [simp]:
  "site (wg_monitor a) = a" "may (wg_monitor a) = wg_may"
  "enter (wg_monitor a) = wg_enter" "resume (wg_monitor a) = wg_resume"
  "pending (wg_monitor a) k = WgWait" "born (wg_monitor a) = wg_born"
  "drops (wg_monitor a) op = (op = WgFinalize)"
  by (simp_all add: wg_monitor_def)

lemma wg_enter_inv:
  assumes inv: "wg_inv exact a B w (add_mset h H) ps" and may: "wg_may op h" and e: "exact \<Longrightarrow> os_ok os"
    and run: "wg_enter os op h w = Some (out, w')"
  shows "wg_inv exact a B w' (H + image_mset fst (settle (wg_monitor a) op h out)) (record_past op out ps)"
proof (cases op)
  case WgShare
  then show ?thesis using run wg_share_inv [OF inv]
    by (auto simp: record_past_def settle_wg add_mset_commute)
next
  case (WgAdd d)
  then show ?thesis using run may wg_add_inv [OF inv _ e] by (auto simp: record_past_def settle_wg)
next
  case WgWait
  then show ?thesis using run wg_wait_start_inv [OF inv wg_handle [OF inv]] by (auto simp: settle_wg_wait)
next
  case WgFinalize
  then show ?thesis using run wg_finalize_inv [OF inv] by (auto simp: record_past_def settle_wg)
qed

lemma wg_resume_inv:
  assumes inv: "wg_inv exact a B w (add_mset h H) ps"
    and run: "wg_resume os 0 h w = Some (out, w')"
  shows "wg_inv exact a B w' (H + image_mset fst (settle (wg_monitor a) WgWait h out)) (record_past WgWait out ps)"
proof -
  have a: "core h = Some a" using wg_handle [OF inv] by simp
  show ?thesis using run a wg_wait_wake_inv [OF inv a] by (auto simp: wg_resume_def settle_wg_wait)
qed

lemma wg_loop_outcome:
  "sync_wait_group_wait_loop os a status w = Some (out, w') \<Longrightarrow> (\<exists>r. out = Return r) \<or> out = Wait Cond status"
  by (auto simp: sync_wait_group_wait_loop_def os_defs bind_eq_Some_conv split: if_splits)

lemma wg_enter_kok:
  "wg_enter os op h w = Some (out, w') \<Longrightarrow> all_pending (\<lambda>_ k. k = 0) (settle (wg_monitor a) op h out)"
  by (cases op) (auto simp: settle_wg sync_wait_group_wait_start_def sync_wait_group_take_test_error_def os_defs
      bind_eq_Some_conv split: if_splits option.splits dest!: wg_loop_outcome)

lemma wg_resume_kok:
  "wg_resume os 0 h w = Some (out, w') \<Longrightarrow> all_pending (\<lambda>_ k. k = 0) (settle (wg_monitor a) WgWait h out)"
  by (auto simp: wg_resume_def settle_wg sync_wait_group_wait_wake_def os_defs bind_eq_Some_conv
      split: if_splits dest!: wg_loop_outcome)

text \<open>The same contract twice: for any operating system, and with exact counts for one that works.\<close>

interpretation wg: monitor_inv P "wg_monitor a" "wg_inv False a B" "\<lambda>_ k. k = 0" for P a B
  by unfold_locales (auto intro!: wg_enter_inv wg_resume_inv wg_enter_kok wg_resume_kok)

interpretation wg_exact: monitor_inv os_ok "wg_monitor a" "wg_inv True a B" "\<lambda>_ k. k = 0" for a B
  by unfold_locales (auto intro!: wg_enter_inv wg_resume_inv wg_enter_kok wg_resume_kok)

subsection \<open>Wake-ups\<close>

lemma wg_loop_effect:
  assumes "os_ok os" "sync_wait_group_wait_loop os b 0 w = Some (out, w')"
  shows "mem w' = mem w" "out = Wait Cond k \<Longrightarrow> wg_busy b w'" 
  using assms by (auto simp: sync_wait_group_wait_loop_def os_defs wg_busy_def bind_eq_Some_conv split: if_splits)

lemma wg_add_ok:
  assumes "os_ok os" "core h = Some b" "mem w b = Some c" "i64_add (count c) d = Some n" "next_add_error w = 0"
  shows "sync_wait_group_add os h d w = Some
    (if n < 0 \<or> n > INT32_MAX then
       ((0, 0), w\<lparr>next_add_error := 0, calls := calls w @ [(MutexLock b, 0), (MutexUnlock b, 0)]\<rparr>)
     else ((1, 0), w\<lparr>next_add_error := 0, calls := calls w @ [(MutexLock b, 0)] @
         (if n = 0 then [(CondBroadcast b Cond, 0)] else []) @ [(MutexUnlock b, 0)],
         mem := (mem w)(b \<mapsto> c\<lparr>count := n\<rparr>)\<rparr>))"
  using assms by (auto simp: sync_wait_group_add_def sync_wait_group_take_test_error_def os_defs)

lemma wg_add_any:
  assumes "core h = Some b" "mem w b = Some c" "i64_add (count c) d = Some n"
  shows "\<exists>r e w'. sync_wait_group_add os h d w = Some ((r, e), w') \<and>
    (let injected = next_add_error w; ks = new_calls w w';
         changes = (injected = 0 \<and> fst (sync_os_mutex_lock os b w) = 0 \<and> 0 \<le> n \<and> n \<le> INT32_MAX) in
      mem w' b = Some (if changes then c\<lparr>count := n\<rparr> else c) \<and>
      ((\<exists>st. (CondBroadcast b Cond, st) \<in> set ks) \<longleftrightarrow> changes \<and> n = 0) \<and>
      r = (if changes \<and> first_error ks = 0 then 1 else 0) \<and>
      e = (if injected \<noteq> 0 then injected else first_error ks))"
proof -
  note unf = sync_wait_group_add_def sync_wait_group_take_test_error_def os_defs new_calls_def record_error_def Let_def
  let ?lock = "posix_status os (MutexLock b) (calls w)"
  consider (injected) "next_add_error w \<noteq> 0" | (lock) "next_add_error w = 0" "?lock \<noteq> 0"
    | (range) "next_add_error w = 0" "?lock = 0" "n < 0 \<or> n > INT32_MAX"
    | (zero) "next_add_error w = 0" "?lock = 0" "n = 0" | (add) "next_add_error w = 0" "?lock = 0" "0 < n" "n \<le> INT32_MAX" by linarith
  then show ?thesis by cases (use assms in \<open>auto simp: unf INT32_MAX_def\<close>)
qed

lemma wg_add_cases:
  assumes "os_ok os" "sync_wait_group_add os h d w = Some (x, w')"
  obtains "mem w' = mem w" | b c n where "core h = Some b" "mem w b = Some c" "i64_add (count c) d = Some n"
    "0 \<le> n" "n \<le> INT32_MAX" "x = (1, 0)" "mem w' = (mem w)(b \<mapsto> c\<lparr>count := n\<rparr>)"
    "calls w' = calls w @ [(MutexLock b, 0)] @ (if n = 0 then [(CondBroadcast b Cond, 0)] else []) @ [(MutexUnlock b, 0)]"
proof (cases "next_add_error w = 0")
  case True
  obtain b where b: "core h = Some b" using assms by (auto simp: sync_wait_group_add_def bind_eq_Some_conv)
  obtain c where c: "mem w b = Some c" using assms b True
    by (cases "mem w b") (auto simp: sync_wait_group_add_def sync_wait_group_take_test_error_def os_defs)
  obtain n where n: "i64_add (count c) d = Some n" using assms b c True
    by (cases "i64_add (count c) d") (auto simp: sync_wait_group_add_def sync_wait_group_take_test_error_def os_defs)
  show thesis
    using that assms(2) b c n wg_add_ok [OF assms(1) b c n True]
    by (cases "n < 0 \<or> n > INT32_MAX") auto
next
  case False
  then show thesis using that(1) assms(2)
    by (auto simp: sync_wait_group_add_def sync_wait_group_take_test_error_def sync_test_atomic_take_def bind_eq_Some_conv)
qed

lemma wg_enter_effect:
  assumes ok: "os_ok os" and busy: "wg_busy a w" and run: "wg_enter os op h w = Some (out, w')"
  shows "wg_busy a w' \<or> broadcasts a Cond (new_calls w w')"
proof (cases op)
  case (WgAdd d)
  then obtain x where x: "sync_wait_group_add os h d w = Some (x, w')" using run by auto
  show ?thesis
    by (rule wg_add_cases [OF ok x]) (use busy in \<open>auto simp: wg_busy_def new_calls_def broadcasts_def split: option.splits\<close>)
next
  case WgWait
  then show ?thesis using ok busy run wg_loop_effect(1) [OF ok]
    by (fastforce simp: sync_wait_group_wait_start_def sync_wait_group_take_test_error_def os_defs bind_eq_Some_conv
        wg_busy_def split: if_splits)
next
  case WgFinalize
  then show ?thesis using ok busy run
    by (auto simp: sync_wait_group_finalize_def os_defs bind_eq_Some_conv wg_busy_def split: if_splits option.splits)
next
  case WgShare
  then show ?thesis using busy run
    by (auto simp: sync_wait_group_share_def os_defs bind_eq_Some_conv wg_busy_def split: if_splits option.splits)
qed

lemma wg_sleep_busy:
  assumes ok: "os_ok os" and a: "core h = Some a"
  shows "wg_enter os op h w = Some (Wait Cond k, w') \<Longrightarrow> wg_busy a w'"
    "wg_resume os 0 h w = Some (Wait Cond k, w') \<Longrightarrow> wg_busy a w'"
proof -
  show "wg_enter os op h w = Some (Wait Cond k, w') \<Longrightarrow> wg_busy a w'"
    using a ok wg_loop_effect(2) [OF ok]
    by (cases op) (fastforce simp: sync_wait_group_wait_start_def sync_wait_group_take_test_error_def os_defs bind_eq_Some_conv split: if_splits)+
  show "wg_resume os 0 h w = Some (Wait Cond k, w') \<Longrightarrow> wg_busy a w'"
    using a ok wg_loop_effect(2) [OF ok] by (fastforce simp: wg_resume_def sync_wait_group_wait_wake_def os_defs bind_eq_Some_conv)
qed

lemma wg_resume_effect:
  assumes ok: "os_ok os" and busy: "wg_busy a w" and run: "wg_resume os 0 h w = Some (out, w')"
  shows "wg_busy a w'"
  using busy run ok wg_loop_effect(1) [OF ok]
  by (fastforce simp: wg_resume_def sync_wait_group_wait_wake_def os_defs bind_eq_Some_conv wg_busy_def)

interpretation wg_sleep: broadcasting os_ok "wg_monitor a" "handles_only (wg_inv True a B) (\<lambda>_ k. k = 0)"
  Cond "wg_busy a" for a B
proof (unfold_locales, goal_cases)
  case (1 os op h w A ps out w')
  show ?case using wg_enter_effect [OF 1(1,5)] 1(4) by simp
next
  case (2 os op h w A ps k' w')
  show ?case using wg_sleep_busy(1) [OF 2(1) wg_handle [OF handles_onlyD(1) [OF 2(3)], of h]] 2(4) by simp
next
  case (3 os w h k A ps out w')
  have "k = 0" using handles_onlyD(3) [OF 3(2)] .
  then show ?case using wg_resume_effect [OF 3(1,4)] 3(3) by simp
next
  case (4 os w h k A ps k' w')
  have "k = 0" using handles_onlyD(3) [OF 4(2)] .
  then show ?case using wg_sleep_busy(2) [OF 4(1) wg_handle [OF handles_onlyD(2) [OF 4(2)], of h]] 4(3) by simp
qed

subsection \<open>Reachable configurations\<close>

lemma wg_boot_inv:
  assumes boot: "wg_boot os w = Some s" and free: "mutex_state (fresh w) w = Some False"
  shows "wg_inv exact (fresh w) (\<lambda>r. balance r (calls w)) (wrld s) (image_mset fst (agents s)) (past s)"
    "all_pending (\<lambda>_ k. k = 0) (agents s)" "sleepers cv (agents s) = 0"
  using boot free
  by (auto simp: wg_boot_def sync_wait_group_new_def bind_eq_Some_conv wg_defs sync_wait_group_wrap_def wg_resources_def
      INT32_MAX_def split: if_splits)

lemma wg_reach_exact:
  assumes "wg_boot os w = Some s" "mutex_state (fresh w) w = Some False"
    "reach os_ok (wg_monitor (fresh w)) s t" "short_run (past t)"
  shows "barrier (past t)" "agents t \<noteq> {#} \<Longrightarrow> \<exists>c. mem (wrld t) (fresh w) = Some c \<and> count c = total (past t) \<and>
    0 \<le> count c \<and> count c \<le> INT32_MAX"
proof -
  have "wg_exact.good (fresh w) (\<lambda>r. balance r (calls w)) s"
    using wg_boot_inv [OF assms(1,2)] by (simp add: wg_exact.good_iff)
  from wg_exact.reach_inv [OF assms(3) this]
  show "barrier (past t)" "agents t \<noteq> {#} \<Longrightarrow> \<exists>c. mem (wrld t) (fresh w) = Some c \<and> count c = total (past t) \<and>
    0 \<le> count c \<and> count c \<le> INT32_MAX"
    using assms(4) by (auto simp: wg_inv_def wg_live_def)
qed

subsection \<open>Concrete runs\<close>

lemmas wg_eval = wg_boot_def sync_wait_group_new_def sync_wait_group_take_test_error_def sync_wait_group_wrap_def
  os_defs quiet_os_def posix_status_def wg_empty_world_def
  exec_step_def wg_monitor_def settle_list_def record_past_def new_calls_def others_def wake_one_def asleep_on_def
  sync_wait_group_share_def sync_wait_group_add_def sync_wait_group_wait_start_def sync_wait_group_wait_loop_def
  sync_wait_group_wait_wake_def wg_resume_def sync_wait_group_finalize_def i64_add_def i64_def INT32_MAX_def i32_def INT32_MIN_def

lemma wg_demo_reach:
  assumes "wg_demo xs = Some t" "P quiet_os"
  shows "\<exists>s. wg_boot quiet_os wg_empty_world = Some s \<and> reach P (wg_monitor (fresh wg_empty_world)) s (config_of t)"
proof -
  obtain s where s: "wg_boot quiet_os wg_empty_world = Some s"
      "exec (wg_monitor 0) quiet_os xs (wrld s, [(sync_wait_group_wrap 0, Ready)], []) = Some t"
    using assms by (auto simp: wg_demo_def bind_eq_Some_conv)
  have "s = config_of (wrld s, [(sync_wait_group_wrap 0, Ready)], [])"
    using s(1) by (auto simp: wg_eval)
  then show ?thesis using s(1) exec_reach [OF s(2), of P] assms(2) by (auto simp: wg_empty_world_def)
qed

lemma wg_demo_ok: "mutex_state (fresh wg_empty_world) wg_empty_world = Some False"
  by (simp add: wg_empty_world_def mutex_state_def)

section \<open>Properties\<close>

text \<open>
  C10. The barrier, for runs in which the calls of the system succeed: whenever a \<open>wait\<close>
  returned without an error, the successful additions before its return sum to zero, under
  every schedule. (When a broadcast or an unlock fails, \<open>add\<close> reports a failure although it has
  changed the counter, so the sum of the successful additions is not the counter any more.)
\<close>

theorem wait_group_barrier:
  assumes "wg_boot os w = Some s" "mutex_state (fresh w) w = Some False"
    "reach os_ok (wg_monitor (fresh w)) s t" "short_run (past t)"
    "i < length (past t)" "past t ! i = (WgWait, WgWaited 0)"
  shows "total (take i (past t)) = 0"
  using wg_reach_exact(1) [OF assms(1-4)] assms(5,6) by (auto simp: barrier_def list_all_iff)

theorem wait_group_barrier_witness:
  "\<exists>t. wg_demo [Call WgShare 0, Call (WgAdd 1) 0, Call WgWait 0, Call (WgAdd (- 1)) 0, Resume 0] = Some t \<and>
     past (config_of t) ! 3 = (WgWait, WgWaited 0) \<and> total (take 3 (past (config_of t))) = 0"
proof -
  obtain t where t: "wg_demo [Call WgShare 0, Call (WgAdd 1) 0, Call WgWait 0, Call (WgAdd (- 1)) 0, Resume 0] = Some t"
    and p: "short_run (past (config_of t))" "3 < length (past (config_of t))" "past (config_of t) ! 3 = (WgWait, WgWaited 0)"
    by (simp add: wg_demo_def wg_eval short_run_def)
  obtain s where s: "wg_boot quiet_os wg_empty_world = Some s"
      "reach os_ok (wg_monitor (fresh wg_empty_world)) s (config_of t)"
    using wg_demo_reach [OF t, of os_ok] by auto
  show ?thesis using wait_group_barrier [OF s(1) wg_demo_ok s(2) p] t p(3) by blast
qed

text \<open>
  C21. No lost wake-up: while a thread sleeps in \<open>wait\<close>, the sum of the additions is
  positive, so the addition that makes it zero has not happened yet.
\<close>

theorem wait_group_no_lost_wakeup:
  assumes boot: "wg_boot os w = Some s" and free: "mutex_state (fresh w) w = Some False"
    and run: "reach os_ok (wg_monitor (fresh w)) s t" and small: "short_run (past t)"
    and asleep: "0 < sleepers Cond (agents t)"
  shows "0 < total (past t)"
proof -
  have g: "wg_exact.good (fresh w) (\<lambda>r. balance r (calls w)) s"
    using wg_boot_inv [OF boot free] by (simp add: wg_exact.good_iff)
  have b: "wg_sleep.sleep_blocked (fresh w) t"
    by (rule wg_sleep.reach_sleep_blocked [OF run g]) (simp add: wg_sleep.sleep_blocked_def wg_boot_inv(3) [OF boot free])
  have "agents t \<noteq> {#}" using asleep by auto
  from wg_reach_exact(2) [OF boot free run small this] b asleep show ?thesis
    by (auto simp: wg_sleep.sleep_blocked_def wg_busy_def)
qed

theorem wait_group_no_lost_wakeup_witness:
  "\<exists>t. wg_demo [Call (WgAdd 2) 0, Call WgWait 0] = Some t \<and> sleepers Cond (agents (config_of t)) = 1 \<and>
     0 < total (past (config_of t))"
proof -
  obtain t where t: "wg_demo [Call (WgAdd 2) 0, Call WgWait 0] = Some t"
    and p: "short_run (past (config_of t))" "sleepers Cond (agents (config_of t)) = 1"
    by (simp add: wg_demo_def wg_eval short_run_def)
  obtain s where s: "wg_boot quiet_os wg_empty_world = Some s"
      "reach os_ok (wg_monitor (fresh wg_empty_world)) s (config_of t)"
    using wg_demo_reach [OF t, of os_ok] by auto
  show ?thesis using wait_group_no_lost_wakeup [OF s(1) wg_demo_ok s(2) p(1)] t p(2) by auto
qed

text \<open>
  C37. \<open>add\<close> in every reachable configuration, whatever the system does before and during the
  call. The counter changes exactly when no error was injected, the lock succeeds and the new
  sum lies in 0 to \<open>INT32_MAX\<close>; the 64-bit sum never overflows. The condition variable is
  broadcast exactly when the counter changes to zero. The call returns 1 exactly when the counter
  has changed and each of its calls of the system succeeded, and reports the injected error or
  else the first status that is not zero: so a failing broadcast or unlock makes it return 0
  although the counter has changed. As long as no call of the system has failed, the counter is
  the sum of the successful additions.
\<close>

theorem wait_group_add_spec:
  assumes boot: "wg_boot os w = Some s" and free: "mutex_state (fresh w) w = Some False"
    and run: "reach P (wg_monitor (fresh w)) s t" and small: "short_run (past t)"
    and h: "(h, Ready) \<in># agents t" and d: "i32 d"
  shows "\<exists>c r e w'. mem (wrld t) (fresh w) = Some c \<and> (P = os_ok \<longrightarrow> count c = total (past t)) \<and>
    sync_wait_group_add os' h d (wrld t) = Some ((r, e), w') \<and>
    (let n = count c + d; injected = next_add_error (wrld t); ks = new_calls (wrld t) w';
         changes = (injected = 0 \<and> fst (sync_os_mutex_lock os' (fresh w) (wrld t)) = 0 \<and> 0 \<le> n \<and> n \<le> INT32_MAX) in
      mem w' (fresh w) = Some (if changes then c\<lparr>count := n\<rparr> else c) \<and>
      ((\<exists>st. (CondBroadcast (fresh w) Cond, st) \<in> set ks) \<longleftrightarrow> changes \<and> n = 0) \<and>
      r = (if changes \<and> first_error ks = 0 then 1 else 0) \<and>
      e = (if injected \<noteq> 0 then injected else first_error ks))"
proof -
  have ne: "agents t \<noteq> {#}" using h by auto
  have "wg.good (fresh w) (\<lambda>r. balance r (calls w)) s"
    using wg_boot_inv [OF boot free] by (simp add: wg.good_iff)
  from wg.reach_inv [OF run this] obtain c where a: "core h = Some (fresh w)" and c: "mem (wrld t) (fresh w) = Some c" "0 \<le> count c" "count c \<le> INT32_MAX"
    using h ne small by (force simp: wg_inv_def wg_live_def)
  have x: "count c = total (past t)" if "P = os_ok"
    using wg_reach_exact(2) [OF boot free run [unfolded that] small ne] c(1) by auto
  have n: "i64_add (count c) d = Some (count c + d)"
    using c d by (intro i64_add_i32) (auto simp: i32_def INT32_MIN_def)
  show ?thesis by (rule exI [of _ c]) (use wg_add_any [OF a c(1) n, of os'] c(1) x in \<open>unfold Let_def, blast\<close>)
qed

theorem wait_group_add_spec_witness:
  "\<exists>t c e w'. wg_demo [Call (WgAdd 2) 0] = Some t \<and>
     sync_wait_group_add quiet_os (sync_wait_group_wrap 0) (- 3) (wrld (config_of t)) = Some ((0, e), w') \<and>
     mem w' 0 = Some c \<and> count c = 2"
proof -
  obtain t where t: "wg_demo [Call (WgAdd 2) 0] = Some t"
    and p: "short_run (past (config_of t))" "(sync_wait_group_wrap 0, Ready) \<in># agents (config_of t)"
      "next_add_error (wrld (config_of t)) = 0" "total (past (config_of t)) = 2"
    by (simp add: wg_demo_def wg_eval total_def short_run_def)
  obtain s where s: "wg_boot quiet_os wg_empty_world = Some s"
      "reach os_ok (wg_monitor (fresh wg_empty_world)) s (config_of t)"
    using wg_demo_reach [OF t, of os_ok] by auto
  have d: "i32 (- 3)" by (simp add: i32_def INT32_MIN_def INT32_MAX_def)
  have f: "fresh wg_empty_world = 0" by (simp add: wg_empty_world_def)
  obtain c r e w' where a: "mem (wrld (config_of t)) 0 = Some c" "count c = 2"
      "sync_wait_group_add quiet_os (sync_wait_group_wrap 0) (- 3) (wrld (config_of t)) = Some ((r, e), w')"
      "mem w' 0 = Some c" "r = 0"
    using wait_group_add_spec [OF s(1) wg_demo_ok s(2) p(1,2) d, of quiet_os] p(4) unfolding f Let_def by force
  then show ?thesis using t by auto
qed

text \<open>
  C38. Memory and bounds, under every failure of the system: the reference count is the
  number of handles, the counter stays between 0 and \<open>INT32_MAX\<close>, the last finalizer gives
  back the mutex, the condition variable and the memory, and the mutex is free between
  operations.
\<close>

theorem wait_group_lifetime:
  assumes boot: "wg_boot os w = Some s" and free: "mutex_state (fresh w) w = Some False"
    and run: "reach P (wg_monitor (fresh w)) s t" and small: "short_run (past t)"
  shows "mutex_state (fresh w) (wrld t) = Some False \<and> (case mem (wrld t) (fresh w) of
      Some c \<Rightarrow> agents t \<noteq> {#} \<and> refs c = of_nat (size (agents t)) \<and> 0 \<le> count c \<and> count c \<le> INT32_MAX \<and>
        (\<forall>r. balance r (calls (wrld t)) = balance r (calls w) + owning (wg_resources (fresh w)) r)
    | None \<Rightarrow> agents t = {#} \<and> (\<forall>r. balance r (calls (wrld t)) = balance r (calls w)))"
proof -
  have "wg.good (fresh w) (\<lambda>r. balance r (calls w)) s"
    using wg_boot_inv [OF boot free] by (simp add: wg.good_iff)
  from wg.reach_inv [OF run this] show ?thesis
    using small by (cases "agents t = {#}") (auto simp: wg_inv_def wg_live_def)
qed

theorem wait_group_lifetime_witness:
  "\<exists>t. wg_demo [Call WgShare 0, Call WgFinalize 0, Call WgFinalize 0] = Some t \<and>
     agents (config_of t) = {#} \<and> balance (MutexRes 0) (calls (wrld (config_of t))) = 0"
proof -
  obtain t where t: "wg_demo [Call WgShare 0, Call WgFinalize 0, Call WgFinalize 0] = Some t"
    and p: "mem (wrld (config_of t)) 0 = None" "short_run (past (config_of t))"
    by (simp add: wg_demo_def wg_eval short_run_def)
  obtain s where s: "wg_boot quiet_os wg_empty_world = Some s"
      "reach (\<lambda>_. True) (wg_monitor (fresh wg_empty_world)) s (config_of t)"
    using wg_demo_reach [OF t, of "\<lambda>_. True"] by blast
  show ?thesis using wait_group_lifetime [OF s(1) wg_demo_ok s(2) p(2)] t p by (auto simp: wg_empty_world_def)
qed

text \<open>
  The constructor reports a failure exactly when it returns no handle, and then has
  given back everything it had acquired.
\<close>

theorem wait_group_new_balanced:
  assumes "sync_wait_group_new os w = Some ((g, status), w')"
  shows "(g = None) = (status \<noteq> 0) \<and> (\<forall>b. b \<noteq> fresh w \<longrightarrow> mem w' b = mem w b) \<and>
    (mem w' (fresh w) = None) = (g = None) \<and>
    (\<forall>r. balance r (calls w') = balance r (calls w) + (if g = None then 0 else owning (wg_resources (fresh w)) r))"
  using assms
  by (auto simp: sync_wait_group_new_def sync_wait_group_take_test_error_def os_defs bind_eq_Some_conv wg_resources_def split: if_splits)

theorem wait_group_new_balanced_witness:
  "\<exists>w'. sync_wait_group_new quiet_os (wg_empty_world\<lparr>next_init_error := 5\<rparr>) = Some ((None, 5), w') \<and>
     mem w' 0 = None \<and> (\<forall>r. balance r (calls w') = 0)"
proof -
  obtain w' where w': "sync_wait_group_new quiet_os (wg_empty_world\<lparr>next_init_error := 5\<rparr>) = Some ((None, 5), w')"
    by (simp add: wg_eval)
  show ?thesis using wait_group_new_balanced [OF w'] w' by (auto simp: wg_empty_world_def)
qed

end
