(* ===== verification/Sync_Once.thy ===== *)
theory Sync_Once
  imports Sync_Monitor
begin

text \<open>
  The once-initialisation primitive, \<^verbatim>\<open>src/src/unsafe/once/native.c\<close>: a state (0 fresh,
  1 running, 2 done, 3 poisoned) behind a mutex and a condition variable. \<open>begin\<close> answers 1
  to the caller that has to run the initialiser, 0 when it has been completed and -1 when it
  has been poisoned, and blocks while it is running.
\<close>

section \<open>State\<close>

record sync_once_core_t =
  refs :: sync_arc_t
  state :: int

record sync_once_handle_t =
  core :: "addr option"

record once_world = "(unit, sync_once_core_t) world" +
  next_init_error :: int
  next_begin_error :: int

section \<open>Operations\<close>

definition sync_once_take_test_error :: "int \<Rightarrow> int \<times> int" where
  "sync_once_take_test_error next_error = sync_test_atomic_take next_error"

definition sync_once_finalize :: "unit os \<Rightarrow> sync_once_handle_t \<Rightarrow> once_world \<Rightarrow> once_world option" where
  "sync_once_finalize os handle w = (case core handle of None \<Rightarrow> Some w | Some a \<Rightarrow> do {
     c \<leftarrow> mem w a;
     let r = sync_arc_dec (refs c);
     let w = store a (c\<lparr>refs := r\<rparr>) w;
     if r \<noteq> 0 then Some w else do {
       w \<leftarrow> abort_if_failed (sync_os_cond_destroy os a Cond w);
       w \<leftarrow> abort_if_failed (sync_os_mutex_destroy os a w);
       Some (free_core a w)
     }
   })"

definition sync_once_wrap :: "addr \<Rightarrow> sync_once_handle_t" where
  "sync_once_wrap a = \<lparr>core = Some a\<rparr>"

definition sync_once_new ::
  "unit os \<Rightarrow> once_world \<Rightarrow> ((sync_once_handle_t option \<times> int) \<times> once_world) option" where
  "sync_once_new os w = do {
     w \<leftarrow> sync_alloc os CoreBlock w;
     let a = fresh w;
     let w = store a \<lparr>refs = 1, state = 0\<rparr> (w\<lparr>fresh := Suc a\<rparr>);
     let (status, w) = sync_os_mutex_init os a w;
     if status \<noteq> 0 then Some ((None, status), free_core a w) else do {
     let (injected, next) = sync_once_take_test_error (next_init_error w);
     let w = w\<lparr>next_init_error := next\<rparr>;
     if injected \<noteq> 0 then do {
       w \<leftarrow> abort_if_failed (sync_os_mutex_destroy os a w);
       Some ((None, injected), free_core a w)
     } else do {
     let (status, w) = sync_os_cond_init os a Cond w;
     if status \<noteq> 0 then do {
       w \<leftarrow> abort_if_failed (sync_os_mutex_destroy os a w);
       Some ((None, status), free_core a w)
     } else Some ((Some (sync_once_wrap a), status), w)
     }}
   }"

definition sync_once_share :: "sync_once_handle_t \<Rightarrow> once_world \<Rightarrow> (sync_once_handle_t \<times> once_world) option" where
  "sync_once_share value w = do {
     a \<leftarrow> core value;
     c \<leftarrow> mem w a;
     Some (sync_once_wrap a, store a (c\<lparr>refs := sync_arc_inc (refs c)\<rparr>) w)
   }"

text \<open>The wait loop of \<open>begin\<close> and the code behind it; the result and \<open>*status\<close>.\<close>

definition sync_once_begin_loop ::
  "unit os \<Rightarrow> addr \<Rightarrow> int \<Rightarrow> once_world \<Rightarrow> ((int \<times> int, int) outcome \<times> once_world) option" where
  "sync_once_begin_loop os a status w = do {
     c \<leftarrow> mem w a;
     if state c = 1 then Some (Wait Cond status, cond_sleep a Cond w)
     else do {
       let (result, w) =
         (if state c = 0 then (1, store a (c\<lparr>state := 1\<rparr>) w)
          else (if state c = 2 then 0 else - 1, w));
       let (st, w) = sync_os_mutex_unlock os a w;
       Some (Return (result, record_error status st), w)
     }
   }"

definition sync_once_begin_wake ::
  "unit os \<Rightarrow> addr \<Rightarrow> int \<Rightarrow> once_world \<Rightarrow> ((int \<times> int, int) outcome \<times> once_world) option" where
  "sync_once_begin_wake os a status w = do {
     let (wait_status, w) = sync_os_cond_wait os a Cond w;
     if wait_status \<noteq> 0 then do {
       let (st, w) = sync_os_mutex_unlock os a w;
       Some (Return (0, record_error wait_status st), w)
     } else sync_once_begin_loop os a status w
   }"

definition sync_once_begin_start ::
  "unit os \<Rightarrow> sync_once_handle_t \<Rightarrow> once_world \<Rightarrow> ((int \<times> int, int) outcome \<times> once_world) option" where
  "sync_once_begin_start os value w = do {
     a \<leftarrow> core value;
     let (injected, next) = sync_once_take_test_error (next_begin_error w);
     let w = w\<lparr>next_begin_error := next\<rparr>;
     if injected \<noteq> 0 then Some (Return (0, injected), w) else do {
       let (status, w) = sync_os_mutex_lock os a w;
       if status \<noteq> 0 then Some (Return (0, status), w)
       else sync_once_begin_loop os a status w
     }
   }"

definition sync_once_begin ::
  "unit os \<Rightarrow> sync_once_handle_t \<Rightarrow> (once_world \<Rightarrow> once_world) list \<Rightarrow> once_world \<Rightarrow>
   ((int \<times> int) option \<times> once_world) option" where
  "sync_once_begin os value env w = do {
     a \<leftarrow> core value;
     x \<leftarrow> sync_once_begin_start os value w;
     finish (\<lambda>os. sync_once_begin_wake os a) os env x
   }"

definition sync_once_complete ::
  "unit os \<Rightarrow> sync_once_handle_t \<Rightarrow> once_world \<Rightarrow> (int \<times> once_world) option" where
  "sync_once_complete os value w = do {
     a \<leftarrow> core value;
     let (status, w) = sync_os_mutex_lock os a w;
     if status \<noteq> 0 then Some (status, w) else do {
       c \<leftarrow> mem w a;
       let w = store a (c\<lparr>state := 2\<rparr>) w;
       let (st, w) = sync_os_cond_broadcast os a Cond w;
       let status = record_error status st;
       let (st, w) = sync_os_mutex_unlock os a w;
       Some (record_error status st, w)
     }
   }"

definition sync_once_poison ::
  "unit os \<Rightarrow> sync_once_handle_t \<Rightarrow> once_world \<Rightarrow> (int \<times> once_world) option" where
  "sync_once_poison os value w = do {
     a \<leftarrow> core value;
     let (status, w) = sync_os_mutex_lock os a w;
     if status \<noteq> 0 then Some (status, w) else do {
       c \<leftarrow> mem w a;
       let w = store a (c\<lparr>state := 3\<rparr>) w;
       let (st, w) = sync_os_cond_broadcast os a Cond w;
       let status = record_error status st;
       let (st, w) = sync_os_mutex_unlock os a w;
       Some (record_error status st, w)
     }
   }"

definition sync_once_test_fail_next_init :: "int \<Rightarrow> once_world \<Rightarrow> once_world" where
  "sync_once_test_fail_next_init status w =
     w\<lparr>next_init_error := sync_test_atomic_store (next_init_error w) status\<rparr>"

definition sync_once_test_fail_next_begin :: "int \<Rightarrow> once_world \<Rightarrow> once_world" where
  "sync_once_test_fail_next_begin status w =
     w\<lparr>next_begin_error := sync_test_atomic_store (next_begin_error w) status\<rparr>"

section \<open>The once primitive as a monitor\<close>

datatype once_op = OnceShare | OnceBegin | OnceComplete | OncePoison | OnceFinalize

datatype once_ret = OnceHandle sync_once_handle_t | Began int int | OnceStatus int | OnceDropped

fun once_enter ::
  "unit os \<Rightarrow> once_op \<Rightarrow> sync_once_handle_t \<Rightarrow> once_world \<Rightarrow> ((once_ret, int) outcome \<times> once_world) option" where
  "once_enter os OnceShare h w = map_option (\<lambda>(g, w). (Return (OnceHandle g), w)) (sync_once_share h w)"
| "once_enter os OnceBegin h w =
     map_option (\<lambda>(out, w). (map_outcome (\<lambda>(r, st). Began r st) id out, w)) (sync_once_begin_start os h w)"
| "once_enter os OnceComplete h w =
     map_option (\<lambda>(st, w). (Return (OnceStatus st), w)) (sync_once_complete os h w)"
| "once_enter os OncePoison h w =
     map_option (\<lambda>(st, w). (Return (OnceStatus st), w)) (sync_once_poison os h w)"
| "once_enter os OnceFinalize h w = map_option (\<lambda>w. (Return OnceDropped, w)) (sync_once_finalize os h w)"

definition once_resume ::
  "unit os \<Rightarrow> int \<Rightarrow> sync_once_handle_t \<Rightarrow> once_world \<Rightarrow> ((once_ret, int) outcome \<times> once_world) option" where
  "once_resume os status h w = do {
     a \<leftarrow> core h;
     map_option (\<lambda>(out, w). (map_outcome (\<lambda>(r, st). Began r st) id out, w)) (sync_once_begin_wake os a status w) }"

fun once_born :: "once_ret \<Rightarrow> sync_once_handle_t option" where
  "once_born (OnceHandle g) = Some g"
| "once_born _ = None"

definition once_monitor where
  "once_monitor a = \<lparr>site = a, may = (\<lambda>_ _. True), enter = once_enter, resume = once_resume,
     pending = (\<lambda>_. OnceBegin), drops = (\<lambda>op. op = OnceFinalize), born = once_born\<rparr>"

end
