(* ===== verification/Sync_Once_Correct.thy ===== *)
theory Sync_Once_Correct
  imports Sync_Once
begin

text \<open>
  Correctness of the once primitive: the invariant \<open>once_inv\<close> is kept by every piece of code,
  for any operating system (interpretation \<open>once\<close>), and no sleeper is forgotten by one that
  works (\<open>once_sleep\<close>). As for the wait group, the statements are about runs with fewer than
  \<open>2 ^ 32 - 1\<close> completed operations.
\<close>

section \<open>Specification\<close>

text \<open>How often \<open>begin\<close> told its caller to run the initialiser.\<close>

definition wins :: "(once_op \<times> once_ret) list \<Rightarrow> nat" where
  "wins ps = length (filter (\<lambda>x. \<exists>st. x = (OnceBegin, Began 1 st)) ps)"

text \<open>Operation \<open>op\<close> was called and has returned.\<close>

definition happened :: "once_op \<Rightarrow> (once_op \<times> once_ret) list \<Rightarrow> bool" where
  "happened op ps \<longleftrightarrow> list_ex (\<lambda>x. fst x = op) ps"

text \<open>Every answer of a \<open>begin\<close> is justified by what happened before it.\<close>

definition justified :: "(once_op \<times> once_ret) list \<Rightarrow> bool" where
  "justified ps \<longleftrightarrow> list_all (\<lambda>i.
     (ps ! i = (OnceBegin, Began 0 0) \<longrightarrow> happened OnceComplete (take i ps)) \<and>
     (\<forall>st. ps ! i = (OnceBegin, Began (- 1) st) \<longrightarrow> happened OncePoison (take i ps))) [0..<length ps]"

definition once_resources :: "addr \<Rightarrow> resource list" where
  "once_resources a = [MutexRes a, CondRes a Cond, BlockRes CoreBlock]"

text \<open>The invariant: \<open>H\<close> are the live handles, \<open>B\<close> the balance of resources before the
  primitive was made.\<close>

definition once_live ::
  "addr \<Rightarrow> (resource \<Rightarrow> int) \<Rightarrow> sync_once_core_t \<Rightarrow> once_world \<Rightarrow> sync_once_handle_t multiset \<Rightarrow>
   (once_op \<times> once_ret) list \<Rightarrow> bool" where
  "once_live a B c w H ps \<longleftrightarrow>
     mem w a = Some c \<and> refs c = of_nat (size H) \<and> state c \<in> {0, 1, 2, 3} \<and>
     wins ps \<le> (if state c = 0 then 0 else 1) \<and>
     (state c = 2 \<longrightarrow> happened OnceComplete ps) \<and> (state c = 3 \<longrightarrow> happened OncePoison ps) \<and>
     (\<forall>r. balance r (calls w) = B r + owning (once_resources a) r)"

definition once_inv ::
  "addr \<Rightarrow> (resource \<Rightarrow> int) \<Rightarrow> once_world \<Rightarrow> sync_once_handle_t multiset \<Rightarrow> (once_op \<times> once_ret) list \<Rightarrow> bool" where
  "once_inv a B w H ps \<longleftrightarrow> (\<forall>h \<in># H. core h = Some a) \<and> (short_run ps \<longrightarrow>
     size H \<le> Suc (length ps) \<and> mutex_state a w = Some False \<and> justified ps \<and> wins ps \<le> 1 \<and>
     (if H = {#} then mem w a = None \<and> (\<forall>r. balance r (calls w) = B r)
      else \<exists>c. once_live a B c w H ps))"

text \<open>The condition a thread in \<open>begin\<close> waits to become false.\<close>

definition once_running :: "addr \<Rightarrow> once_world \<Rightarrow> bool" where
  "once_running a w = (case mem w a of None \<Rightarrow> True | Some c \<Rightarrow> state c = 1)"

text \<open>A new primitive with its first handle.\<close>

definition once_boot ::
  "unit os \<Rightarrow> once_world \<Rightarrow> (unit, _, once_op, sync_once_handle_t, int, once_ret) config option" where
  "once_boot os w = do {
     ((g, status), w) \<leftarrow> sync_once_new os w;
     h \<leftarrow> g;
     Some \<lparr>wrld = w, agents = {#(h, Ready)#}, past = []\<rparr>
   }"

text \<open>Concrete runs.\<close>

definition once_empty_world :: once_world where
  "once_empty_world = \<lparr>calls = [], mem = Map.empty, fresh = 0, next_init_error = 0, next_begin_error = 0\<rparr>"

definition once_demo ::
  "once_op choice list \<Rightarrow> (once_world \<times> (sync_once_handle_t \<times> int mode) list \<times> (once_op \<times> once_ret) list) option" where
  "once_demo xs = do {
     s \<leftarrow> once_boot quiet_os once_empty_world;
     exec (once_monitor 0) quiet_os xs (wrld s, [(sync_once_wrap 0, Ready)], []) }"

text \<open>A system that reports a failure of every unlock of core 0.\<close>

definition stuck_os :: "unit os" where
  "stuck_os = quiet_os\<lparr>ret := (\<lambda>_ c. if c = MutexUnlock 0 then 1 else 0)\<rparr>"

section \<open>Lemmas\<close>

subsection \<open>The operations keep the invariant\<close>

lemma once_past [simp]:
  "wins [] = 0" "wins (ps @ [x]) = wins ps + (if \<exists>st. x = (OnceBegin, Began 1 st) then 1 else 0)"
  "\<not> happened op []" "happened op (ps @ [x]) \<longleftrightarrow> happened op ps \<or> fst x = op"
  by (auto simp: wins_def happened_def)

lemma justified_simps [simp]:
  "justified []" "justified (ps @ [x]) \<longleftrightarrow> justified ps \<and>
     (x = (OnceBegin, Began 0 0) \<longrightarrow> happened OnceComplete ps) \<and>
     (\<forall>st. x = (OnceBegin, Began (- 1) st) \<longrightarrow> happened OncePoison ps)"
  by (auto simp: justified_def list_all_iff nth_append)

lemmas once_defs = os_defs mutex_state_def mutex_run_append once_inv_def once_live_def sync_once_take_test_error_def

lemma once_invD:
  assumes "once_inv a B w H ps" "short_run ps"
  shows "size H \<le> Suc (length ps)" "mutex_state a w = Some False" "justified ps" "wins ps \<le> 1"
    "H \<noteq> {#} \<Longrightarrow> \<exists>c. once_live a B c w H ps"
  using assms by (auto simp: once_inv_def)

lemma once_handle: "once_inv a B w H ps \<Longrightarrow> h \<in># H \<Longrightarrow> core h = Some a"
  by (simp add: once_inv_def)

lemma once_big:
  "\<not> short_run ps \<Longrightarrow> \<forall>h \<in># H. core h = Some a \<Longrightarrow> once_inv a B w H (record_past op out ps)"
  using short_run_record [of ps op out] by (simp add: once_inv_def)

lemma once_share_inv:
  assumes inv: "once_inv a B w (add_mset h H) ps" and run: "sync_once_share h w = Some (g, w')"
  shows "once_inv a B w' (add_mset g (add_mset h H)) (ps @ [(OnceShare, OnceHandle g)])"
  using inv run
  by (cases "short_run ps")
    (auto simp: once_defs sync_once_share_def sync_once_wrap_def bind_eq_Some_conv)

lemma once_append:
  assumes inv: "once_inv a B w (add_mset h H) ps" and sh: "short_run ps" and l: "once_live a B c w (add_mset h H) ps"
    and c': "mem w' a = Some c'" "refs c' = refs c" and log: "calls w' = calls w @ ks" "\<forall>r. balance r ks = 0"
      "mutex_run a False ks = Some False"
    and x: "justified (ps @ [x])" "wins (ps @ [x]) \<le> (if state c' = 0 then 0 else 1)" "state c' \<in> {0, 1, 2, 3}"
      "state c' = 2 \<Longrightarrow> happened OnceComplete (ps @ [x])" "state c' = 3 \<Longrightarrow> happened OncePoison (ps @ [x])"
  shows "once_inv a B w' (add_mset h H) (ps @ [x])"
proof -
  have "wins (ps @ [x]) \<le> 1" using x(2) by (simp split: if_splits)
  moreover have "once_live a B c' w' (add_mset h H) (ps @ [x])"
    using l c' log(1,2) x(2-5) by (simp add: once_live_def)
  moreover have "mutex_state a w' = Some False"
    using once_invD(2) [OF inv sh] log by (simp add: mutex_state_def mutex_run_append)
  ultimately show ?thesis
    using inv once_invD(1) [OF inv sh] x(1) by (auto simp: once_inv_def)
qed

lemma once_set_inv:
  assumes inv: "once_inv a B w (add_mset h H) ps"
    and run: "op = OnceComplete \<and> sync_once_complete os h w = Some (st, w') \<or>
      op = OncePoison \<and> sync_once_poison os h w = Some (st, w')"
  shows "once_inv a B w' (add_mset h H) (ps @ [(op, OnceStatus st)])"
proof (cases "short_run ps")
  case sh: True
  obtain c where l: "once_live a B c w (add_mset h H) ps" using once_invD(5) [OF inv sh] by auto
  have a: "core h = Some a" using once_handle [OF inv] by simp
  have m: "mem w a = Some c" using l by (simp add: once_live_def)
  note j = once_invD(3,4) [OF inv sh]
  show ?thesis
  proof (cases "posix_status os (MutexLock a) (calls w) = 0")
    case True
    obtain st1 st2 where w': "calls w' = calls w @ [(MutexLock a, 0), (CondBroadcast a Cond, st1), (MutexUnlock a, st2)]"
      "mem w' a = Some (c\<lparr>state := if op = OnceComplete then 2 else 3\<rparr>)"
      using True a m run by (auto simp: sync_once_complete_def sync_once_poison_def os_defs)
    show ?thesis
      by (rule once_append [OF inv sh l w'(2) _ w'(1)]) (use run j in auto)
  next
    case False
    then have "w' = w\<lparr>calls := calls w @ [(MutexLock a, st)]\<rparr>" "st \<noteq> 0"
      using a m run by (auto simp: sync_once_complete_def sync_once_poison_def os_defs)
    then show ?thesis using l m run j
      by (intro once_append [OF inv sh l, of _ c "[(MutexLock a, st)]"]) (auto simp: once_live_def)
  qed
qed (use inv in \<open>auto simp: once_inv_def\<close>)

lemma once_locked_begin:
  assumes inv: "once_inv a B w (add_mset h H) ps" and k: "k = (MutexLock a, 0) \<or> k = (CondWait a Cond, 0)"
    and run: "sync_once_begin_loop os a 0 (w\<lparr>calls := calls w @ [k]\<rparr>) = Some (out, w')"
  shows "once_inv a B w' (add_mset h H) (record_past OnceBegin (map_outcome (\<lambda>(r, st). Began r st) id out) ps)"
proof (cases "short_run ps")
  case True
  obtain c where l: "once_live a B c w (add_mset h H) ps" using once_invD(5) [OF inv True] by auto
  then have m: "mem w a = Some c" and s: "state c \<in> {0, 1, 2, 3}" by (simp_all add: once_live_def)
  note j = once_invD(3,4) [OF inv True]
  show ?thesis
  proof (cases "state c = 1")
    case True
    then have "out = Wait Cond 0" "w' = w\<lparr>calls := calls w @ [k, (CondSleep a Cond, 0)]\<rparr>"
      using run m by (simp_all add: sync_once_begin_loop_def os_defs)
    then show ?thesis using inv l k by (auto simp: once_inv_def once_live_def mutex_state_def mutex_run_append record_past_def)
  next
    case False
    let ?r = "if state c = 0 then 1 else if state c = 2 then 0 else - 1"
    obtain st where w': "calls w' = calls w @ [k, (MutexUnlock a, st)]" "out = Return (?r, st)"
      "mem w' a = Some (if state c = 0 then c\<lparr>state := 1\<rparr> else c)"
      using False run m
      by (cases "state c = 0") (auto simp: sync_once_begin_loop_def os_defs record_error_def split: if_splits)
    have "once_inv a B w' (add_mset h H) (ps @ [(OnceBegin, Began ?r st)])"
      by (rule once_append [OF inv True l w'(3) _ w'(1)]) (use False l k j s in \<open>auto simp: once_live_def split: if_splits\<close>)
    then show ?thesis using w'(2) by (simp add: record_past_def)
  qed
qed (use inv in \<open>auto intro: once_big once_handle\<close>)

lemma once_begin_start_inv:
  assumes inv: "once_inv a B w (add_mset h H) ps" and a: "core h = Some a"
    and run: "sync_once_begin_start os h w = Some (out, w')"
  shows "once_inv a B w' (add_mset h H) (record_past OnceBegin (map_outcome (\<lambda>(r, st). Began r st) id out) ps)"
proof -
  let ?w = "w\<lparr>next_begin_error := 0\<rparr>"
  have inv': "once_inv a B ?w (add_mset h H) ps" using inv by (simp add: once_inv_def once_live_def mutex_state_def)
  consider "next_begin_error w \<noteq> 0" | "next_begin_error w = 0" "posix_status os (MutexLock a) (calls w) \<noteq> 0"
    | "next_begin_error w = 0" "posix_status os (MutexLock a) (calls w) = 0" by blast
  then show ?thesis
  proof cases
    case 3
    then have "sync_once_begin_loop os a 0 (?w\<lparr>calls := calls ?w @ [(MutexLock a, 0)]\<rparr>) = Some (out, w')"
      using run a by (simp add: sync_once_begin_start_def sync_once_take_test_error_def os_defs)
    then show ?thesis by (rule once_locked_begin [OF inv', rotated]) simp
  qed (use run a inv' in \<open>auto simp: sync_once_begin_start_def once_defs record_past_def\<close>)
qed

lemma once_begin_wake_inv:
  assumes inv: "once_inv a B w (add_mset h H) ps" and a: "core h = Some a"
    and run: "sync_once_begin_wake os a 0 w = Some (out, w')"
  shows "once_inv a B w' (add_mset h H) (record_past OnceBegin (map_outcome (\<lambda>(r, st). Began r st) id out) ps)"
proof (cases "ret os (calls w) (CondWait a Cond) = 0")
  case True
  then have "sync_once_begin_loop os a 0 (w\<lparr>calls := calls w @ [(CondWait a Cond, 0)]\<rparr>) = Some (out, w')"
    using run by (simp add: sync_once_begin_wake_def os_defs)
  then show ?thesis by (rule once_locked_begin [OF inv, rotated]) simp
next
  case False
  then show ?thesis
    using inv run by (auto simp: sync_once_begin_wake_def once_defs record_past_def record_error_def)
qed

lemma once_finalize_inv:
  assumes inv: "once_inv a B w (add_mset h H) ps" and run: "sync_once_finalize os h w = Some w'"
  shows "once_inv a B w' H (ps @ [(OnceFinalize, OnceDropped)])"
proof (cases "short_run ps")
  case True
  obtain c where l: "once_live a B c w (add_mset h H) ps" using once_invD(5) [OF inv True] by auto
  have a: "core h = Some a" using once_handle [OF inv] by simp
  have sz: "refs c - 1 = of_nat (size H)" and m: "mem w a = Some c" using l by (simp_all add: once_live_def)
  have wf: "of_nat (size H) = (0 :: 32 word) \<longleftrightarrow> H = {#}"
    using once_invD(1) [OF inv True] short_run_refs [OF True, of "size H"] by simp
  show ?thesis
  proof (cases "H = {#}")
    case True
    then show ?thesis using inv l a m sz run
      by (auto simp: sync_once_finalize_def once_defs once_resources_def)
  next
    case False
    then show ?thesis using inv l a m sz wf run
      by (auto simp: sync_once_finalize_def once_defs)
  qed
qed (use inv in \<open>auto simp: once_inv_def\<close>)

subsection \<open>The once primitive is a monitor\<close>

lemma settle_once:
  "settle (once_monitor a) op h (Return r) =
     (if op = OnceFinalize then {#} else {#(h, Ready)#}) +
     (case once_born r of None \<Rightarrow> {#} | Some g \<Rightarrow> {#(g, Ready)#})"
  "settle (once_monitor a) op h (Wait cv k) = {#(h, Asleep cv k)#}"
  "settle (once_monitor a) op h (Again k) = {#(h, Runnable k)#}"
  by (simp_all add: settle_def once_monitor_def split: option.splits)

lemma settle_once_begin:
  "image_mset fst (settle (once_monitor a) OnceBegin h (map_outcome (\<lambda>(r, st). Began r st) f out)) = {#h#}"
  by (cases out) (simp_all add: settle_once split: prod.splits)

lemma once_monitor_simps [simp]:
  "site (once_monitor a) = a" "may (once_monitor a) = (\<lambda>_ _. True)"
  "enter (once_monitor a) = once_enter" "resume (once_monitor a) = once_resume"
  "pending (once_monitor a) k = OnceBegin" "born (once_monitor a) = once_born"
  "drops (once_monitor a) op = (op = OnceFinalize)"
  by (simp_all add: once_monitor_def)

lemma once_enter_inv:
  assumes inv: "once_inv a B w (add_mset h H) ps" and run: "once_enter os op h w = Some (out, w')"
  shows "once_inv a B w' (H + image_mset fst (settle (once_monitor a) op h out)) (record_past op out ps)"
proof (cases op)
  case OnceShare
  then show ?thesis using run once_share_inv [OF inv]
    by (auto simp: record_past_def settle_once add_mset_commute)
next
  case OnceBegin
  then show ?thesis using run once_begin_start_inv [OF inv once_handle [OF inv]] by (auto simp: settle_once_begin)
next
  case OnceComplete
  then show ?thesis using run once_set_inv [OF inv] by (auto simp: record_past_def settle_once)
next
  case OncePoison
  then show ?thesis using run once_set_inv [OF inv] by (auto simp: record_past_def settle_once)
next
  case OnceFinalize
  then show ?thesis using run once_finalize_inv [OF inv] by (auto simp: record_past_def settle_once)
qed

lemma once_resume_inv:
  assumes inv: "once_inv a B w (add_mset h H) ps" and run: "once_resume os 0 h w = Some (out, w')"
  shows "once_inv a B w' (H + image_mset fst (settle (once_monitor a) OnceBegin h out)) (record_past OnceBegin out ps)"
proof -
  have a: "core h = Some a" using once_handle [OF inv] by simp
  show ?thesis using run a once_begin_wake_inv [OF inv a] by (auto simp: once_resume_def settle_once_begin)
qed

lemma once_loop_outcome:
  assumes "sync_once_begin_loop os a status w = Some (out, w')"
  shows "(\<exists>r. out = Return r) \<or> out = Wait Cond status"
proof -
  obtain c where "mem w a = Some c" using assms by (auto simp: sync_once_begin_loop_def bind_eq_Some_conv)
  then show ?thesis using assms
    by (cases "state c = 0") (auto simp: sync_once_begin_loop_def os_defs split: if_splits)
qed

lemma once_enter_kok:
  "once_enter os op h w = Some (out, w') \<Longrightarrow> all_pending (\<lambda>_ k. k = 0) (settle (once_monitor a) op h out)"
  by (cases op) (auto simp: settle_once sync_once_begin_start_def sync_once_take_test_error_def os_defs
      bind_eq_Some_conv split: if_splits option.splits dest!: once_loop_outcome)

lemma once_resume_kok:
  "once_resume os 0 h w = Some (out, w') \<Longrightarrow> all_pending (\<lambda>_ k. k = 0) (settle (once_monitor a) OnceBegin h out)"
  by (auto simp: once_resume_def settle_once sync_once_begin_wake_def os_defs bind_eq_Some_conv
      split: if_splits dest!: once_loop_outcome)

interpretation once: monitor_inv P "once_monitor a" "once_inv a B" "\<lambda>_ k. k = 0" for P a B
  by unfold_locales (auto intro!: once_enter_inv once_resume_inv once_enter_kok once_resume_kok)

subsection \<open>Wake-ups\<close>

lemma once_loop_running:
  assumes "sync_once_begin_loop os b 0 w = Some (out, w')"
  shows "once_running a w \<Longrightarrow> once_running a w'" "out = Wait Cond k \<Longrightarrow> once_running b w'"
proof -
  obtain c where c: "mem w b = Some c" using assms by (auto simp: sync_once_begin_loop_def bind_eq_Some_conv)
  show "once_running a w \<Longrightarrow> once_running a w'" "out = Wait Cond k \<Longrightarrow> once_running b w'"
    using assms c by (cases "state c = 0";
      auto simp: sync_once_begin_loop_def os_defs once_running_def split: if_splits option.splits)+
qed

lemma once_set_effect:
  assumes "os_ok os" "sync_once_complete os h w = Some (st, w') \<or> sync_once_poison os h w = Some (st, w')"
    "once_running a w"
  shows "once_running a w' \<or> broadcasts a Cond (new_calls w w')"
  using assms by (auto simp: sync_once_complete_def sync_once_poison_def os_defs bind_eq_Some_conv once_running_def
      new_calls_def broadcasts_def split: option.splits if_splits)

lemma once_enter_effect:
  assumes ok: "os_ok os" and busy: "once_running a w" and run: "once_enter os op h w = Some (out, w')"
  shows "once_running a w' \<or> broadcasts a Cond (new_calls w w')"
proof (cases op)
  case OnceBegin
  then obtain b out' where b: "core h = Some b" "sync_once_begin_start os h w = Some (out', w')"
    using run by (auto simp: sync_once_begin_start_def bind_eq_Some_conv)
  have "once_running a w'"
  proof (cases "next_begin_error w = 0")
    case True
    then have "sync_once_begin_loop os b 0 (w\<lparr>next_begin_error := 0, calls := calls w @ [(MutexLock b, 0)]\<rparr>) = Some (out', w')"
      using b ok by (simp add: sync_once_begin_start_def sync_once_take_test_error_def os_defs)
    from once_loop_running(1) [OF this, of a] show ?thesis using busy by (simp add: once_running_def)
  qed (use b busy in \<open>auto simp: sync_once_begin_start_def sync_once_take_test_error_def os_defs once_running_def\<close>)
  then show ?thesis by simp
next
  case OnceFinalize
  then show ?thesis using ok busy run
    by (auto simp: sync_once_finalize_def os_defs bind_eq_Some_conv once_running_def split: if_splits option.splits)
next
  case OnceShare
  then show ?thesis using busy run
    by (auto simp: sync_once_share_def os_defs bind_eq_Some_conv once_running_def split: if_splits option.splits)
qed (use once_set_effect [OF ok _ busy, of h] run in auto)

lemma once_sleep_running:
  assumes ok: "os_ok os" and a: "core h = Some a"
  shows "once_enter os op h w = Some (Wait Cond k, w') \<Longrightarrow> once_running a w'"
    "once_resume os 0 h w = Some (Wait Cond k, w') \<Longrightarrow> once_running a w'"
proof -
  show "once_enter os op h w = Some (Wait Cond k, w') \<Longrightarrow> once_running a w'"
    using a ok once_loop_running(2)
    by (cases op) (fastforce simp: sync_once_begin_start_def sync_once_take_test_error_def os_defs bind_eq_Some_conv split: if_splits)+
  show "once_resume os 0 h w = Some (Wait Cond k, w') \<Longrightarrow> once_running a w'"
    using a ok once_loop_running(2) by (fastforce simp: once_resume_def sync_once_begin_wake_def os_defs bind_eq_Some_conv)
qed

lemma once_resume_effect:
  assumes "os_ok os" "once_running a w" "once_resume os 0 h w = Some (out, w')"
  shows "once_running a w'"
proof -
  obtain b out' where "sync_once_begin_loop os b 0 (w\<lparr>calls := calls w @ [(CondWait b Cond, 0)]\<rparr>) = Some (out', w')"
    using assms by (auto simp: once_resume_def sync_once_begin_wake_def os_defs bind_eq_Some_conv)
  from once_loop_running(1) [OF this, of a] show ?thesis using assms(2) by (simp add: once_running_def)
qed

interpretation once_sleep: broadcasting os_ok "once_monitor a" "handles_only (once_inv a B) (\<lambda>_ k. k = 0)"
  Cond "once_running a" for a B
proof (unfold_locales, goal_cases)
  case (1 os op h w A ps out w')
  show ?case using once_enter_effect [OF 1(1,5)] 1(4) by simp
next
  case (2 os op h w A ps k' w')
  show ?case using once_sleep_running(1) [OF 2(1) once_handle [OF handles_onlyD(1) [OF 2(3)], of h]] 2(4) by simp
next
  case (3 os w h k A ps out w')
  have "k = 0" using handles_onlyD(3) [OF 3(2)] .
  then show ?case using once_resume_effect [OF 3(1,4)] 3(3) by simp
next
  case (4 os w h k A ps k' w')
  have "k = 0" using handles_onlyD(3) [OF 4(2)] .
  then show ?case using once_sleep_running(2) [OF 4(1) once_handle [OF handles_onlyD(2) [OF 4(2)], of h]] 4(3) by simp
qed

subsection \<open>Reachable configurations\<close>

lemma once_boot_inv:
  assumes boot: "once_boot os w = Some s" and free: "mutex_state (fresh w) w = Some False"
  shows "once_inv (fresh w) (\<lambda>r. balance r (calls w)) (wrld s) (image_mset fst (agents s)) (past s)"
    "all_pending (\<lambda>_ k. k = 0) (agents s)" "sleepers cv (agents s) = 0"
  using boot free
  by (auto simp: once_boot_def sync_once_new_def bind_eq_Some_conv once_defs sync_once_wrap_def once_resources_def
      split: if_splits)

lemma once_reach:
  assumes "once_boot os w = Some s" "mutex_state (fresh w) w = Some False" "reach P (once_monitor (fresh w)) s t"
  shows "once_inv (fresh w) (\<lambda>r. balance r (calls w)) (wrld t) (image_mset fst (agents t)) (past t)"
proof -
  have "once.good (fresh w) (\<lambda>r. balance r (calls w)) s"
    using once_boot_inv [OF assms(1,2)] by (simp add: once.good_iff)
  from once.reach_inv [OF assms(3) this] show ?thesis by simp
qed

subsection \<open>Concrete runs\<close>

lemmas once_eval = once_boot_def sync_once_new_def sync_once_take_test_error_def sync_once_wrap_def
  os_defs quiet_os_def posix_status_def once_empty_world_def
  exec_step_def once_monitor_def settle_list_def record_past_def new_calls_def others_def wake_one_def asleep_on_def
  sync_once_share_def sync_once_complete_def sync_once_poison_def sync_once_begin_start_def sync_once_begin_loop_def
  sync_once_begin_wake_def once_resume_def sync_once_finalize_def

lemma once_demo_reach:
  assumes "once_demo xs = Some t" "P quiet_os"
  shows "\<exists>s. once_boot quiet_os once_empty_world = Some s \<and> reach P (once_monitor (fresh once_empty_world)) s (config_of t)"
proof -
  obtain s where s: "once_boot quiet_os once_empty_world = Some s"
      "exec (once_monitor 0) quiet_os xs (wrld s, [(sync_once_wrap 0, Ready)], []) = Some t"
    using assms by (auto simp: once_demo_def bind_eq_Some_conv)
  have "s = config_of (wrld s, [(sync_once_wrap 0, Ready)], [])"
    using s(1) by (auto simp: once_eval)
  then show ?thesis using s(1) exec_reach [OF s(2), of P] assms(2) by (auto simp: once_empty_world_def)
qed

lemma once_demo_ok: "mutex_state (fresh once_empty_world) once_empty_world = Some False"
  by (simp add: once_empty_world_def mutex_state_def)

section \<open>Properties\<close>

text \<open>
  C9. At most one caller of \<open>begin\<close> is ever told to run the initialiser, whatever the
  schedule and whatever the operating system reports.
\<close>

theorem once_at_most_one:
  assumes boot: "once_boot os w = Some s" and free: "mutex_state (fresh w) w = Some False"
    and run: "reach P (once_monitor (fresh w)) s t" and small: "short_run (past t)"
  shows "wins (past t) \<le> 1"
  using once_invD(4) [OF once_reach [OF boot free run] small] .

theorem once_at_most_one_witness:
  "\<exists>t. once_demo [Call OnceShare 0, Call OnceBegin 0, Call OnceBegin 0, Call OnceComplete 0, Resume 0] = Some t \<and>
     length (past (config_of t)) = 4 \<and> wins (past (config_of t)) \<le> 1"
proof -
  obtain t where t: "once_demo [Call OnceShare 0, Call OnceBegin 0, Call OnceBegin 0, Call OnceComplete 0, Resume 0] = Some t"
    and p: "short_run (past (config_of t))" "length (past (config_of t)) = 4"
    by (simp add: once_demo_def once_eval short_run_def)
  obtain s where s: "once_boot quiet_os once_empty_world = Some s"
      "reach os_ok (once_monitor (fresh once_empty_world)) s (config_of t)"
    using once_demo_reach [OF t, of os_ok] by auto
  show ?thesis using once_at_most_one [OF s(1) once_demo_ok s(2) p(1)] t p by blast
qed

text \<open>
  C39. \<open>begin\<close> says that the value is ready only after a \<open>complete\<close>, and that it is
  poisoned only after a \<open>poison\<close>.
\<close>

theorem once_answers_justified:
  assumes boot: "once_boot os w = Some s" and free: "mutex_state (fresh w) w = Some False"
    and run: "reach P (once_monitor (fresh w)) s t" and small: "short_run (past t)"
    and i: "i < length (past t)" "past t ! i = (OnceBegin, Began r st)"
  shows "(r = 0 \<and> st = 0 \<longrightarrow> happened OnceComplete (take i (past t))) \<and>
    (r = - 1 \<longrightarrow> happened OncePoison (take i (past t)))"
  using once_invD(3) [OF once_reach [OF boot free run] small] i by (auto simp: justified_def list_all_iff)

theorem once_answers_justified_witness:
  "\<exists>t. once_demo [Call OnceShare 0, Call OnceBegin 0, Call OnceBegin 0, Call OnceComplete 0, Resume 0] = Some t \<and>
     past (config_of t) ! 3 = (OnceBegin, Began 0 0) \<and> happened OnceComplete (take 3 (past (config_of t)))"
proof -
  obtain t where t: "once_demo [Call OnceShare 0, Call OnceBegin 0, Call OnceBegin 0, Call OnceComplete 0, Resume 0] = Some t"
    and p: "short_run (past (config_of t))" "3 < length (past (config_of t))" "past (config_of t) ! 3 = (OnceBegin, Began 0 0)"
    by (simp add: once_demo_def once_eval short_run_def)
  obtain s where s: "once_boot quiet_os once_empty_world = Some s"
      "reach os_ok (once_monitor (fresh once_empty_world)) s (config_of t)"
    using once_demo_reach [OF t, of os_ok] by auto
  show ?thesis using once_answers_justified [OF s(1) once_demo_ok s(2) p] t p(3) by blast
qed

text \<open>
  C22. A thread sleeps in \<open>begin\<close> only while the initialiser is running: both ways to end
  it wake every sleeper.
\<close>

theorem once_no_lost_wakeup:
  assumes boot: "once_boot os w = Some s" and free: "mutex_state (fresh w) w = Some False"
    and run: "reach os_ok (once_monitor (fresh w)) s t" and small: "short_run (past t)"
    and asleep: "0 < sleepers Cond (agents t)"
  shows "\<exists>c. mem (wrld t) (fresh w) = Some c \<and> state c = 1"
proof -
  have g: "once.good (fresh w) (\<lambda>r. balance r (calls w)) s"
    using once_boot_inv [OF boot free] by (simp add: once.good_iff)
  have b: "once_sleep.sleep_blocked (fresh w) t"
    by (rule once_sleep.reach_sleep_blocked [OF run g]) (simp add: once_sleep.sleep_blocked_def once_boot_inv(3) [OF boot free])
  have "agents t \<noteq> {#}" using asleep by auto
  with once_invD(5) [OF once_reach [OF boot free run] small] b asleep show ?thesis
    by (auto simp: once_sleep.sleep_blocked_def once_running_def once_live_def)
qed

theorem once_no_lost_wakeup_witness:
  "\<exists>t c. once_demo [Call OnceShare 0, Call OnceBegin 0, Call OnceBegin 0] = Some t \<and>
     sleepers Cond (agents (config_of t)) = 1 \<and> mem (wrld (config_of t)) 0 = Some c \<and> state c = 1"
proof -
  obtain t where t: "once_demo [Call OnceShare 0, Call OnceBegin 0, Call OnceBegin 0] = Some t"
    and p: "short_run (past (config_of t))" "sleepers Cond (agents (config_of t)) = 1"
    by (simp add: once_demo_def once_eval short_run_def)
  obtain s where s: "once_boot quiet_os once_empty_world = Some s"
      "reach os_ok (once_monitor (fresh once_empty_world)) s (config_of t)"
    using once_demo_reach [OF t, of os_ok] by auto
  show ?thesis using once_no_lost_wakeup [OF s(1) once_demo_ok s(2) p(1)] t p(2) by (auto simp: once_empty_world_def)
qed

text \<open>
  Memory, under every failure of the system: the reference count is the number of
  handles, the state is one of the four the code knows, the last finalizer gives everything
  back exactly once, and the mutex is free between operations.
\<close>

theorem once_lifetime:
  assumes boot: "once_boot os w = Some s" and free: "mutex_state (fresh w) w = Some False"
    and run: "reach P (once_monitor (fresh w)) s t" and small: "short_run (past t)"
  shows "mutex_state (fresh w) (wrld t) = Some False \<and> (case mem (wrld t) (fresh w) of
      Some c \<Rightarrow> agents t \<noteq> {#} \<and> refs c = of_nat (size (agents t)) \<and> state c \<in> {0, 1, 2, 3} \<and>
        (\<forall>r. balance r (calls (wrld t)) = balance r (calls w) + owning (once_resources (fresh w)) r)
    | None \<Rightarrow> agents t = {#} \<and> (\<forall>r. balance r (calls (wrld t)) = balance r (calls w)))"
  using once_reach [OF boot free run] small
  by (cases "agents t = {#}") (auto simp: once_inv_def once_live_def)

theorem once_lifetime_witness:
  "\<exists>t. once_demo [Call OnceShare 0, Call OnceFinalize 0, Call OnceFinalize 0] = Some t \<and>
     agents (config_of t) = {#} \<and> balance (MutexRes 0) (calls (wrld (config_of t))) = 0"
proof -
  obtain t where t: "once_demo [Call OnceShare 0, Call OnceFinalize 0, Call OnceFinalize 0] = Some t"
    and p: "mem (wrld (config_of t)) 0 = None" "short_run (past (config_of t))"
    by (simp add: once_demo_def once_eval short_run_def)
  obtain s where s: "once_boot quiet_os once_empty_world = Some s"
      "reach (\<lambda>_. True) (once_monitor (fresh once_empty_world)) s (config_of t)"
    using once_demo_reach [OF t, of "\<lambda>_. True"] by blast
  show ?thesis using once_lifetime [OF s(1) once_demo_ok s(2) p(2)] t p by (auto simp: once_empty_world_def)
qed

text \<open>
  The constructor reports a failure exactly when it returns no handle, and then has
  given back everything it had acquired.
\<close>

theorem once_new_balanced:
  assumes "sync_once_new os w = Some ((g, status), w')"
  shows "(g = None) = (status \<noteq> 0) \<and> (\<forall>b. b \<noteq> fresh w \<longrightarrow> mem w' b = mem w b) \<and>
    (mem w' (fresh w) = None) = (g = None) \<and>
    (\<forall>r. balance r (calls w') = balance r (calls w) + (if g = None then 0 else owning (once_resources (fresh w)) r))"
  using assms
  by (auto simp: sync_once_new_def sync_once_take_test_error_def os_defs bind_eq_Some_conv once_resources_def split: if_splits)

theorem once_new_balanced_witness:
  "\<exists>w'. sync_once_new quiet_os (once_empty_world\<lparr>next_init_error := 5\<rparr>) = Some ((None, 5), w') \<and>
     mem w' 0 = None \<and> (\<forall>r. balance r (calls w') = 0)"
proof -
  obtain w' where w': "sync_once_new quiet_os (once_empty_world\<lparr>next_init_error := 5\<rparr>) = Some ((None, 5), w')"
    by (simp add: once_eval)
  show ?thesis using once_new_balanced [OF w'] w' by (auto simp: once_empty_world_def)
qed

text \<open>
  When the unlock at its end fails, \<open>begin\<close> reports the error but has already
  taken the slot: the caller, told of a failure, never completes, and every later \<open>begin\<close>
  blocks.
\<close>

theorem once_begin_error_takes_slot:
  assumes c: "core h = Some a" "mem w a = Some c" "state c = 0" "next_begin_error w = 0"
    and lock: "posix_status os (MutexLock a) (calls w) = 0"
    and unlock: "posix_status os (MutexUnlock a) (calls w @ [(MutexLock a, 0)]) = e" "e \<noteq> 0"
    and g: "core g = Some a" and ok: "os_ok os'"
  shows "\<exists>w' w''. sync_once_begin_start os h w = Some (Return (1, e), w') \<and>
    sync_once_begin_start os' g w' = Some (Wait Cond 0, w'')"
  using assms by (simp add: sync_once_begin_start_def sync_once_take_test_error_def sync_once_begin_loop_def os_defs)

theorem once_begin_error_takes_slot_witness:
  "\<exists>w' w''. sync_once_begin_start stuck_os (sync_once_wrap 0)
       (once_empty_world\<lparr>mem := [0 \<mapsto> \<lparr>refs = 1, state = 0\<rparr>]\<rparr>) = Some (Return (1, 1), w') \<and>
     sync_once_begin_start quiet_os (sync_once_wrap 0) w' = Some (Wait Cond 0, w'')"
  by (rule once_begin_error_takes_slot [of _ 0 _ "\<lparr>refs = 1, state = 0\<rparr>"])
    (simp_all add: stuck_os_def once_eval quiet_os_ok [unfolded quiet_os_def])

end
