(* ===== verification/Sync_Atomic.thy ===== *)
theory Sync_Atomic
  imports Sync_Monitor
begin

unbundle bit_operations_syntax

text \<open>
  The atomic cells, \<^verbatim>\<open>src/src/atomic/native.c\<close>: one 32-bit cell behind three typed interfaces
  (\<open>AtomicBool\<close>, \<open>AtomicInt\<close>, \<open>AtomicUInt\<close>). \<open>int32_t\<close> and \<open>uint32_t\<close> are both 32-bit words here: a
  conversion between them keeps the bits. Every operation is one read-modify-write of one
  cell, so a run is an interleaving of whole operations; the memory orders are arguments that
  the code passes on (and ignores on Windows), and do not change what a single cell returns.
\<close>

section \<open>The compiler's and the system's atomic operations\<close>

datatype memory_order = RELAXED | ACQUIRE | RELEASE | ACQ_REL | SEQ_CST

text \<open>Each returns what it read and the new contents of the cell.\<close>

definition atomic_load_n :: "32 word \<Rightarrow> memory_order \<Rightarrow> 32 word" where
  "atomic_load_n cell order = cell"

definition atomic_store_n :: "32 word \<Rightarrow> 32 word \<Rightarrow> memory_order \<Rightarrow> 32 word" where
  "atomic_store_n cell next order = next"

definition atomic_exchange_n :: "32 word \<Rightarrow> 32 word \<Rightarrow> memory_order \<Rightarrow> 32 word \<times> 32 word" where
  "atomic_exchange_n cell next order = (cell, next)"

text \<open>The strong form: the result, \<open>*expected\<close> afterwards and the cell.\<close>

definition atomic_compare_exchange_n ::
  "32 word \<Rightarrow> 32 word \<Rightarrow> 32 word \<Rightarrow> memory_order \<Rightarrow> memory_order \<Rightarrow> bool \<times> 32 word \<times> 32 word" where
  "atomic_compare_exchange_n cell expected next success failure =
     (if cell = expected then (True, expected, next) else (False, cell, cell))"

definition atomic_fetch_add :: "32 word \<Rightarrow> 32 word \<Rightarrow> memory_order \<Rightarrow> 32 word \<times> 32 word" where
  "atomic_fetch_add cell delta order = (cell, cell + delta)"

definition InterlockedCompareExchange :: "32 word \<Rightarrow> 32 word \<Rightarrow> 32 word \<Rightarrow> 32 word \<times> 32 word" where
  "InterlockedCompareExchange cell exchange comperand = (cell, if cell = comperand then exchange else cell)"

definition InterlockedExchange :: "32 word \<Rightarrow> 32 word \<Rightarrow> 32 word \<times> 32 word" where
  "InterlockedExchange cell next = (cell, next)"

definition InterlockedExchangeAdd :: "32 word \<Rightarrow> 32 word \<Rightarrow> 32 word \<times> 32 word" where
  "InterlockedExchangeAdd cell delta = (cell, cell + delta)"

section \<open>State\<close>

definition sync_memory_order :: "int \<Rightarrow> memory_order" where
  "sync_memory_order order =
     (if order = 0 then RELAXED else if order = 1 then ACQUIRE else if order = 2 then RELEASE
      else if order = 3 then ACQ_REL else SEQ_CST)"

record sync_atomic_core_t =
  refs :: sync_arc_t
  cell :: "32 word"

record sync_atomic_handle_t =
  core :: "addr option"

type_synonym atomic_world = "(unit, sync_atomic_core_t) world"

section \<open>Operations\<close>

definition sync_atomic_finalize :: "sync_atomic_handle_t \<Rightarrow> atomic_world \<Rightarrow> atomic_world option" where
  "sync_atomic_finalize handle w = (case core handle of None \<Rightarrow> Some w | Some a \<Rightarrow> do {
     c \<leftarrow> mem w a;
     let r = sync_arc_dec (refs c);
     let w = store a (c\<lparr>refs := r\<rparr>) w;
     if r \<noteq> 0 then Some w else Some (free_core a w)
   })"

definition sync_atomic_wrap :: "addr \<Rightarrow> sync_atomic_handle_t" where
  "sync_atomic_wrap a = \<lparr>core = Some a\<rparr>"

definition sync_atomic_new ::
  "unit os \<Rightarrow> 32 word \<Rightarrow> atomic_world \<Rightarrow> (sync_atomic_handle_t \<times> atomic_world) option" where
  "sync_atomic_new os value w = do {
     w \<leftarrow> sync_alloc os CoreBlock w;
     let a = fresh w;
     Some (sync_atomic_wrap a, store a \<lparr>refs = 1, cell = value\<rparr> (w\<lparr>fresh := Suc a\<rparr>))
   }"

definition sync_atomic_share ::
  "sync_atomic_handle_t \<Rightarrow> atomic_world \<Rightarrow> (sync_atomic_handle_t \<times> atomic_world) option" where
  "sync_atomic_share handle w = do {
     a \<leftarrow> core handle;
     c \<leftarrow> mem w a;
     Some (sync_atomic_wrap a, store a (c\<lparr>refs := sync_arc_inc (refs c)\<rparr>) w)
   }"

definition sync_atomic_load_value ::
  "unit os \<Rightarrow> sync_atomic_handle_t \<Rightarrow> int \<Rightarrow> atomic_world \<Rightarrow> (32 word \<times> atomic_world) option" where
  "sync_atomic_load_value os handle order w = do {
     a \<leftarrow> core handle;
     c \<leftarrow> mem w a;
     if win32 os then (let (r, v) = InterlockedCompareExchange (cell c) 0 0 in Some (r, store a (c\<lparr>cell := v\<rparr>) w))
     else Some (atomic_load_n (cell c) (sync_memory_order order), w)
   }"

definition sync_atomic_store_value ::
  "unit os \<Rightarrow> sync_atomic_handle_t \<Rightarrow> 32 word \<Rightarrow> int \<Rightarrow> atomic_world \<Rightarrow> atomic_world option" where
  "sync_atomic_store_value os handle value order w = do {
     a \<leftarrow> core handle;
     c \<leftarrow> mem w a;
     let v = (if win32 os then snd (InterlockedExchange (cell c) value)
       else atomic_store_n (cell c) value (sync_memory_order order));
     Some (store a (c\<lparr>cell := v\<rparr>) w)
   }"

definition sync_atomic_swap_value ::
  "unit os \<Rightarrow> sync_atomic_handle_t \<Rightarrow> 32 word \<Rightarrow> int \<Rightarrow> atomic_world \<Rightarrow> (32 word \<times> atomic_world) option" where
  "sync_atomic_swap_value os handle value order w = do {
     a \<leftarrow> core handle;
     c \<leftarrow> mem w a;
     let (r, v) = (if win32 os then InterlockedExchange (cell c) value
       else atomic_exchange_n (cell c) value (sync_memory_order order));
     Some (r, store a (c\<lparr>cell := v\<rparr>) w)
   }"

definition sync_atomic_compare_exchange_value ::
  "unit os \<Rightarrow> sync_atomic_handle_t \<Rightarrow> 32 word \<Rightarrow> 32 word \<Rightarrow> int \<Rightarrow> int \<Rightarrow> atomic_world \<Rightarrow>
   (64 word \<times> atomic_world) option" where
  "sync_atomic_compare_exchange_value os handle current next success failure w = do {
     a \<leftarrow> core handle;
     c \<leftarrow> mem w a;
     let (exchanged, observed, v) =
       (if win32 os then
          (let (observed, v) = InterlockedCompareExchange (cell c) next current
           in (observed = current, observed, v))
        else atomic_compare_exchange_n (cell c) current next
          (sync_memory_order success) (sync_memory_order failure));
     Some (push_bit 32 (of_bool exchanged) OR ucast observed, store a (c\<lparr>cell := v\<rparr>) w)
   }"

definition sync_atomic_fetch_add_value ::
  "unit os \<Rightarrow> sync_atomic_handle_t \<Rightarrow> 32 word \<Rightarrow> int \<Rightarrow> atomic_world \<Rightarrow> (32 word \<times> atomic_world) option" where
  "sync_atomic_fetch_add_value os handle delta order w = do {
     a \<leftarrow> core handle;
     c \<leftarrow> mem w a;
     let (r, v) = (if win32 os then InterlockedExchangeAdd (cell c) delta
       else atomic_fetch_add (cell c) delta (sync_memory_order order));
     Some (r, store a (c\<lparr>cell := v\<rparr>) w)
   }"

subsection \<open>The exported functions\<close>

definition sync_atomic_bool_new ::
  "unit os \<Rightarrow> 32 word \<Rightarrow> atomic_world \<Rightarrow> (sync_atomic_handle_t \<times> atomic_world) option" where
  "sync_atomic_bool_new os value = sync_atomic_new os (of_bool (value \<noteq> 0))"

definition sync_atomic_bool_share ::
  "sync_atomic_handle_t \<Rightarrow> atomic_world \<Rightarrow> (sync_atomic_handle_t \<times> atomic_world) option" where
  "sync_atomic_bool_share value = sync_atomic_share value"

definition sync_atomic_bool_load ::
  "unit os \<Rightarrow> sync_atomic_handle_t \<Rightarrow> int \<Rightarrow> atomic_world \<Rightarrow> (32 word \<times> atomic_world) option" where
  "sync_atomic_bool_load os value order w =
     map_option (\<lambda>(r, w). (of_bool (r \<noteq> 0), w)) (sync_atomic_load_value os value order w)"

definition sync_atomic_bool_store ::
  "unit os \<Rightarrow> sync_atomic_handle_t \<Rightarrow> 32 word \<Rightarrow> int \<Rightarrow> atomic_world \<Rightarrow> atomic_world option" where
  "sync_atomic_bool_store os value next order = sync_atomic_store_value os value (of_bool (next \<noteq> 0)) order"

definition sync_atomic_bool_swap ::
  "unit os \<Rightarrow> sync_atomic_handle_t \<Rightarrow> 32 word \<Rightarrow> int \<Rightarrow> atomic_world \<Rightarrow> (32 word \<times> atomic_world) option" where
  "sync_atomic_bool_swap os value next order w =
     map_option (\<lambda>(r, w). (of_bool (r \<noteq> 0), w)) (sync_atomic_swap_value os value (of_bool (next \<noteq> 0)) order w)"

definition sync_atomic_bool_compare_exchange ::
  "unit os \<Rightarrow> sync_atomic_handle_t \<Rightarrow> 32 word \<Rightarrow> 32 word \<Rightarrow> int \<Rightarrow> int \<Rightarrow> atomic_world \<Rightarrow>
   (64 word \<times> atomic_world) option" where
  "sync_atomic_bool_compare_exchange os value current next success failure =
     sync_atomic_compare_exchange_value os value (of_bool (current \<noteq> 0)) (of_bool (next \<noteq> 0)) success failure"

definition sync_atomic_int_new ::
  "unit os \<Rightarrow> 32 word \<Rightarrow> atomic_world \<Rightarrow> (sync_atomic_handle_t \<times> atomic_world) option" where
  "sync_atomic_int_new os value = sync_atomic_new os value"

definition sync_atomic_int_share ::
  "sync_atomic_handle_t \<Rightarrow> atomic_world \<Rightarrow> (sync_atomic_handle_t \<times> atomic_world) option" where
  "sync_atomic_int_share value = sync_atomic_share value"

definition sync_atomic_int_load ::
  "unit os \<Rightarrow> sync_atomic_handle_t \<Rightarrow> int \<Rightarrow> atomic_world \<Rightarrow> (32 word \<times> atomic_world) option" where
  "sync_atomic_int_load os value order = sync_atomic_load_value os value order"

definition sync_atomic_int_store ::
  "unit os \<Rightarrow> sync_atomic_handle_t \<Rightarrow> 32 word \<Rightarrow> int \<Rightarrow> atomic_world \<Rightarrow> atomic_world option" where
  "sync_atomic_int_store os value next order = sync_atomic_store_value os value next order"

definition sync_atomic_int_swap ::
  "unit os \<Rightarrow> sync_atomic_handle_t \<Rightarrow> 32 word \<Rightarrow> int \<Rightarrow> atomic_world \<Rightarrow> (32 word \<times> atomic_world) option" where
  "sync_atomic_int_swap os value next order = sync_atomic_swap_value os value next order"

definition sync_atomic_int_compare_exchange ::
  "unit os \<Rightarrow> sync_atomic_handle_t \<Rightarrow> 32 word \<Rightarrow> 32 word \<Rightarrow> int \<Rightarrow> int \<Rightarrow> atomic_world \<Rightarrow>
   (64 word \<times> atomic_world) option" where
  "sync_atomic_int_compare_exchange os value current next success failure =
     sync_atomic_compare_exchange_value os value current next success failure"

definition sync_atomic_int_fetch_add ::
  "unit os \<Rightarrow> sync_atomic_handle_t \<Rightarrow> 32 word \<Rightarrow> int \<Rightarrow> atomic_world \<Rightarrow> (32 word \<times> atomic_world) option" where
  "sync_atomic_int_fetch_add os value delta order = sync_atomic_fetch_add_value os value delta order"

definition sync_atomic_uint_new ::
  "unit os \<Rightarrow> 32 word \<Rightarrow> atomic_world \<Rightarrow> (sync_atomic_handle_t \<times> atomic_world) option" where
  "sync_atomic_uint_new os value = sync_atomic_new os value"

definition sync_atomic_uint_share ::
  "sync_atomic_handle_t \<Rightarrow> atomic_world \<Rightarrow> (sync_atomic_handle_t \<times> atomic_world) option" where
  "sync_atomic_uint_share value = sync_atomic_share value"

definition sync_atomic_uint_load ::
  "unit os \<Rightarrow> sync_atomic_handle_t \<Rightarrow> int \<Rightarrow> atomic_world \<Rightarrow> (32 word \<times> atomic_world) option" where
  "sync_atomic_uint_load os value order = sync_atomic_load_value os value order"

definition sync_atomic_uint_store ::
  "unit os \<Rightarrow> sync_atomic_handle_t \<Rightarrow> 32 word \<Rightarrow> int \<Rightarrow> atomic_world \<Rightarrow> atomic_world option" where
  "sync_atomic_uint_store os value next order = sync_atomic_store_value os value next order"

definition sync_atomic_uint_swap ::
  "unit os \<Rightarrow> sync_atomic_handle_t \<Rightarrow> 32 word \<Rightarrow> int \<Rightarrow> atomic_world \<Rightarrow> (32 word \<times> atomic_world) option" where
  "sync_atomic_uint_swap os value next order = sync_atomic_swap_value os value next order"

definition sync_atomic_uint_compare_exchange ::
  "unit os \<Rightarrow> sync_atomic_handle_t \<Rightarrow> 32 word \<Rightarrow> 32 word \<Rightarrow> int \<Rightarrow> int \<Rightarrow> atomic_world \<Rightarrow>
   (64 word \<times> atomic_world) option" where
  "sync_atomic_uint_compare_exchange os value current next success failure =
     sync_atomic_compare_exchange_value os value current next success failure"

definition sync_atomic_uint_fetch_add ::
  "unit os \<Rightarrow> sync_atomic_handle_t \<Rightarrow> 32 word \<Rightarrow> int \<Rightarrow> atomic_world \<Rightarrow> (32 word \<times> atomic_world) option" where
  "sync_atomic_uint_fetch_add os value delta order = sync_atomic_fetch_add_value os value delta order"

section \<open>How the MoonBit wrappers read a packed result\<close>

text \<open>From \<^verbatim>\<open>src/src/atomic/atomic.mbt\<close>.\<close>

definition packed_exchanged :: "64 word \<Rightarrow> bool" where
  "packed_exchanged value \<longleftrightarrow> drop_bit 32 value \<noteq> 0"

definition packed_observed_uint :: "64 word \<Rightarrow> 32 word" where
  "packed_observed_uint value = ucast (value AND 0xFFFFFFFF)"

section \<open>The cells as monitors\<close>

datatype atomic_kind = AtomicBool | AtomicInt | AtomicUInt

datatype atomic_op =
    AtomicShare | AtomicLoad int | AtomicStore "32 word" int | AtomicSwap "32 word" int
  | AtomicCas "32 word" "32 word" int int | AtomicFetchAdd "32 word" int | AtomicFinalize

datatype atomic_ret =
    AtomicHandle sync_atomic_handle_t | AtomicValue "32 word" | AtomicStored | AtomicPacked "64 word" | AtomicDropped

fun atomic_may :: "atomic_kind \<Rightarrow> atomic_op \<Rightarrow> sync_atomic_handle_t \<Rightarrow> bool" where
  "atomic_may AtomicBool (AtomicFetchAdd d order) h = False"
| "atomic_may _ _ h = True"

fun atomic_call ::
  "unit os \<Rightarrow> atomic_kind \<Rightarrow> atomic_op \<Rightarrow> sync_atomic_handle_t \<Rightarrow> atomic_world \<Rightarrow> (atomic_ret \<times> atomic_world) option" where
  "atomic_call os AtomicBool AtomicShare h w = map_option (apfst AtomicHandle) (sync_atomic_bool_share h w)"
| "atomic_call os AtomicInt AtomicShare h w = map_option (apfst AtomicHandle) (sync_atomic_int_share h w)"
| "atomic_call os AtomicUInt AtomicShare h w = map_option (apfst AtomicHandle) (sync_atomic_uint_share h w)"
| "atomic_call os AtomicBool (AtomicLoad order) h w = map_option (apfst AtomicValue) (sync_atomic_bool_load os h order w)"
| "atomic_call os AtomicInt (AtomicLoad order) h w = map_option (apfst AtomicValue) (sync_atomic_int_load os h order w)"
| "atomic_call os AtomicUInt (AtomicLoad order) h w = map_option (apfst AtomicValue) (sync_atomic_uint_load os h order w)"
| "atomic_call os AtomicBool (AtomicStore x order) h w = map_option (Pair AtomicStored) (sync_atomic_bool_store os h x order w)"
| "atomic_call os AtomicInt (AtomicStore x order) h w = map_option (Pair AtomicStored) (sync_atomic_int_store os h x order w)"
| "atomic_call os AtomicUInt (AtomicStore x order) h w = map_option (Pair AtomicStored) (sync_atomic_uint_store os h x order w)"
| "atomic_call os AtomicBool (AtomicSwap x order) h w = map_option (apfst AtomicValue) (sync_atomic_bool_swap os h x order w)"
| "atomic_call os AtomicInt (AtomicSwap x order) h w = map_option (apfst AtomicValue) (sync_atomic_int_swap os h x order w)"
| "atomic_call os AtomicUInt (AtomicSwap x order) h w = map_option (apfst AtomicValue) (sync_atomic_uint_swap os h x order w)"
| "atomic_call os AtomicBool (AtomicCas x y s f) h w = map_option (apfst AtomicPacked) (sync_atomic_bool_compare_exchange os h x y s f w)"
| "atomic_call os AtomicInt (AtomicCas x y s f) h w = map_option (apfst AtomicPacked) (sync_atomic_int_compare_exchange os h x y s f w)"
| "atomic_call os AtomicUInt (AtomicCas x y s f) h w = map_option (apfst AtomicPacked) (sync_atomic_uint_compare_exchange os h x y s f w)"
| "atomic_call os AtomicBool (AtomicFetchAdd d order) h w = None"
| "atomic_call os AtomicInt (AtomicFetchAdd d order) h w = map_option (apfst AtomicValue) (sync_atomic_int_fetch_add os h d order w)"
| "atomic_call os AtomicUInt (AtomicFetchAdd d order) h w = map_option (apfst AtomicValue) (sync_atomic_uint_fetch_add os h d order w)"
| "atomic_call os kind AtomicFinalize h w = map_option (Pair AtomicDropped) (sync_atomic_finalize h w)"

definition atomic_enter ::
  "atomic_kind \<Rightarrow> unit os \<Rightarrow> atomic_op \<Rightarrow> sync_atomic_handle_t \<Rightarrow> atomic_world \<Rightarrow>
   ((atomic_ret, unit) outcome \<times> atomic_world) option" where
  "atomic_enter kind os op h w = map_option (apfst Return) (atomic_call os kind op h w)"

fun atomic_new ::
  "unit os \<Rightarrow> atomic_kind \<Rightarrow> 32 word \<Rightarrow> atomic_world \<Rightarrow> (sync_atomic_handle_t \<times> atomic_world) option" where
  "atomic_new os AtomicBool = sync_atomic_bool_new os"
| "atomic_new os AtomicInt = sync_atomic_int_new os"
| "atomic_new os AtomicUInt = sync_atomic_uint_new os"

fun atomic_born :: "atomic_ret \<Rightarrow> sync_atomic_handle_t option" where
  "atomic_born (AtomicHandle g) = Some g"
| "atomic_born _ = None"

text \<open>No operation waits, so nothing is ever resumed.\<close>

definition atomic_monitor ::
  "atomic_kind \<Rightarrow> addr \<Rightarrow> (unit, _, atomic_op, sync_atomic_handle_t, unit, atomic_ret) monitor" where
  "atomic_monitor kind a = \<lparr>site = a, may = atomic_may kind, enter = atomic_enter kind,
     resume = (\<lambda>_ _ _ _. None), pending = (\<lambda>_. AtomicLoad 4), drops = (\<lambda>op. op = AtomicFinalize),
     born = atomic_born\<rparr>"

end
