(* ===== verification/Sync_Atomic_Correct.thy ===== *)
theory Sync_Atomic_Correct
  imports Sync_Atomic
begin

text \<open>
  Correctness of the atomic cells: each typed interface is a linearizable register. The
  register \<open>reg_step\<close> works on mathematical integers; \<open>view\<close> reads a 32-bit word as the type's
  value, and \<open>answer\<close> a result of the C function the way the MoonBit wrapper reads it. As for
  the wait group, the statements are about runs with fewer than \<open>2 ^ 32 - 1\<close> operations.
\<close>

section \<open>Specification\<close>

text \<open>The register: values are integers, operations and answers those of the interface.\<close>

datatype reg_ret = RegValue int | RegExchanged bool int | RegDone

fun view :: "atomic_kind \<Rightarrow> 32 word \<Rightarrow> int" where
  "view AtomicBool x = of_bool (x \<noteq> 0)"
| "view AtomicInt x = sint x"
| "view AtomicUInt x = uint x"

fun reg_plus :: "atomic_kind \<Rightarrow> int \<Rightarrow> int \<Rightarrow> int" where
  "reg_plus AtomicUInt x y = (x + y) mod 2 ^ 32"
| "reg_plus _ x y = (x + y + 2 ^ 31) mod 2 ^ 32 - 2 ^ 31"

fun reg_step :: "atomic_kind \<Rightarrow> atomic_op \<Rightarrow> int \<Rightarrow> int \<times> reg_ret" where
  "reg_step kind (AtomicLoad order) v = (v, RegValue v)"
| "reg_step kind (AtomicStore x order) v = (view kind x, RegDone)"
| "reg_step kind (AtomicSwap x order) v = (view kind x, RegValue v)"
| "reg_step kind (AtomicCas x y s f) v =
     (if v = view kind x then (view kind y, RegExchanged True v) else (v, RegExchanged False v))"
| "reg_step kind (AtomicFetchAdd d order) v = (reg_plus kind v (view kind d), RegValue v)"
| "reg_step kind _ v = (v, RegDone)"

text \<open>How the wrapper of each type reads the observed value, \<^verbatim>\<open>src/src/atomic/atomic.mbt\<close>.\<close>

fun observed :: "atomic_kind \<Rightarrow> 64 word \<Rightarrow> int" where
  "observed AtomicBool p = of_bool (p AND 1 \<noteq> 0)"
| "observed AtomicInt p = sint (packed_observed_uint p)"
| "observed AtomicUInt p = uint (packed_observed_uint p)"

fun answer :: "atomic_kind \<Rightarrow> atomic_ret \<Rightarrow> reg_ret" where
  "answer kind (AtomicValue x) = RegValue (view kind x)"
| "answer kind (AtomicPacked p) = RegExchanged (packed_exchanged p) (observed kind p)"
| "answer kind _ = RegDone"

text \<open>Running the register through a history; \<open>None\<close> as soon as an answer differs.\<close>

fun replay :: "atomic_kind \<Rightarrow> int \<Rightarrow> (atomic_op \<times> atomic_ret) list \<Rightarrow> int option" where
  "replay kind v [] = Some v"
| "replay kind v ((op, r) # ps) =
     (if answer kind r = snd (reg_step kind op v) then replay kind (fst (reg_step kind op v)) ps else None)"

definition pack :: "bool \<Rightarrow> 32 word \<Rightarrow> 64 word" where
  "pack exchanged x = push_bit 32 (of_bool exchanged) OR ucast x"

text \<open>What a cell of each type can hold.\<close>

definition cell_ok :: "atomic_kind \<Rightarrow> 32 word \<Rightarrow> bool" where
  "cell_ok kind x \<longleftrightarrow> kind = AtomicBool \<longrightarrow> x = 0 \<or> x = 1"

definition atomic_inv ::
  "atomic_kind \<Rightarrow> int \<Rightarrow> addr \<Rightarrow> (resource \<Rightarrow> int) \<Rightarrow> atomic_world \<Rightarrow> sync_atomic_handle_t multiset \<Rightarrow>
   (atomic_op \<times> atomic_ret) list \<Rightarrow> bool" where
  "atomic_inv kind v a B w H ps \<longleftrightarrow> (\<forall>h \<in># H. core h = Some a) \<and> (short_run ps \<longrightarrow>
     size H \<le> Suc (length ps) \<and> replay kind v ps \<noteq> None \<and>
     (if H = {#} then mem w a = None \<and> (\<forall>r. balance r (calls w) = B r)
      else \<exists>c. mem w a = Some c \<and> refs c = of_nat (size H) \<and> cell_ok kind (cell c) \<and>
        replay kind v ps = Some (view kind (cell c)) \<and>
        (\<forall>r. balance r (calls w) = B r + owning [BlockRes CoreBlock] r)))"

text \<open>The argument as the exported function passes it on, and the operations that do not
  create or drop a handle.\<close>

definition norm :: "atomic_kind \<Rightarrow> 32 word \<Rightarrow> 32 word" where
  "norm kind x = (if kind = AtomicBool then of_bool (x \<noteq> 0) else x)"

definition plain :: "atomic_op \<Rightarrow> bool" where
  "plain op \<longleftrightarrow> op \<noteq> AtomicShare \<and> op \<noteq> AtomicFinalize"

text \<open>A new cell with its first handle.\<close>

definition atomic_boot ::
  "unit os \<Rightarrow> atomic_kind \<Rightarrow> 32 word \<Rightarrow> atomic_world \<Rightarrow>
   (unit, _, atomic_op, sync_atomic_handle_t, unit, atomic_ret) config option" where
  "atomic_boot os kind x w = do {
     (h, w) \<leftarrow> atomic_new os kind x w;
     Some \<lparr>wrld = w, agents = {#(h, Ready)#}, past = []\<rparr>
   }"

text \<open>Concrete runs.\<close>

definition atomic_empty_world :: atomic_world where
  "atomic_empty_world = \<lparr>calls = [], mem = Map.empty, fresh = 0\<rparr>"

definition atomic_demo ::
  "atomic_kind \<Rightarrow> 32 word \<Rightarrow> atomic_op choice list \<Rightarrow>
   (atomic_world \<times> (sync_atomic_handle_t \<times> unit mode) list \<times> (atomic_op \<times> atomic_ret) list) option" where
  "atomic_demo kind x xs = do {
     s \<leftarrow> atomic_boot quiet_os kind x atomic_empty_world;
     exec (atomic_monitor kind 0) quiet_os xs (wrld s, [(sync_atomic_wrap 0, Ready)], []) }"

section \<open>Lemmas\<close>

subsection \<open>Packed results\<close>

lemma replay_append [simp]: "replay kind v (ps @ qs) = Option.bind (replay kind v ps) (\<lambda>v. replay kind v qs)"
  by (induction ps arbitrary: v) auto

lemma packed_word [simp]: "packed_exchanged (pack b x) = b" "packed_observed_uint (pack b x) = x"
proof -
  have d: "drop_bit 32 (push_bit 32 (of_bool b) OR ucast x) = (of_bool b :: 64 word)"
    by (rule bit_word_eqI) (auto simp: bit_simps dest: bit_imp_le_length)
  then show "packed_exchanged (pack b x) = b" by (simp add: packed_exchanged_def pack_def)
  have m: "(0xFFFFFFFF :: 64 word) = mask 32" by (simp add: mask_eq_exp_minus_1)
  show "packed_observed_uint (pack b x) = x"
    unfolding packed_observed_uint_def m pack_def by (rule bit_word_eqI) (auto simp: bit_simps)
qed

lemma packed_low [simp]: "x = 0 \<or> x = 1 \<Longrightarrow> (pack b x AND 1 \<noteq> 0) = (x \<noteq> 0)"
  by (cases b) (auto simp: pack_def)

subsection \<open>Each operation is the register's\<close>

lemma view_plus:
  "view AtomicUInt (x + y) = reg_plus AtomicUInt (view AtomicUInt x) (view AtomicUInt y)"
  "view AtomicInt (x + y) = reg_plus AtomicInt (view AtomicInt x) (view AtomicInt y)"
  by (simp_all add: uint_word_ariths sint_word_ariths signed_take_bit_eq_take_bit_shift take_bit_eq_mod)

lemma view_inj: "cell_ok kind x \<Longrightarrow> cell_ok kind y \<Longrightarrow> view kind x = view kind y \<longleftrightarrow> x = y"
  by (cases kind) (auto simp: cell_ok_def intro: unsigned_word_eqI signed_word_eqI)

lemma cell_ok_simps [simp]:
  "cell_ok AtomicInt x" "cell_ok AtomicUInt x" "cell_ok AtomicBool x \<longleftrightarrow> x = 0 \<or> x = 1"
  by (simp_all add: cell_ok_def)

lemma of_bool_word [simp]: "(of_bool b = (0 :: 32 word)) = (\<not> b)"
  by simp

lemmas atomic_defs = sync_atomic_load_value_def sync_atomic_store_value_def sync_atomic_swap_value_def
  sync_atomic_compare_exchange_value_def sync_atomic_fetch_add_value_def
  atomic_load_n_def atomic_store_n_def atomic_exchange_n_def atomic_compare_exchange_n_def atomic_fetch_add_def
  InterlockedCompareExchange_def InterlockedExchange_def InterlockedExchangeAdd_def
  sync_atomic_bool_load_def sync_atomic_bool_store_def sync_atomic_bool_swap_def sync_atomic_bool_compare_exchange_def
  sync_atomic_int_load_def sync_atomic_int_store_def sync_atomic_int_swap_def sync_atomic_int_compare_exchange_def
  sync_atomic_int_fetch_add_def
  sync_atomic_uint_load_def sync_atomic_uint_store_def sync_atomic_uint_swap_def sync_atomic_uint_compare_exchange_def
  sync_atomic_uint_fetch_add_def

lemma mem_same: "mem w a = Some c \<Longrightarrow> w\<lparr>mem := (mem w)(a \<mapsto> c)\<rparr> = w"
  by (simp add: fun_upd_idem)

lemma cas_value:
  assumes "core h = Some a" "mem w a = Some c"
  shows "sync_atomic_compare_exchange_value os h x y s f w = Some
    (pack (cell c = x) (cell c),
     w\<lparr>mem := (mem w)(a \<mapsto> c\<lparr>cell := if cell c = x then y else cell c\<rparr>)\<rparr>)"
  using assms by (cases "cell c = x"; cases "win32 os") (auto simp: atomic_defs store_def pack_def)

lemma norm_simps [simp]: "cell_ok kind (norm kind x)" "view kind (norm kind x) = view kind x"
  by (cases kind; simp add: norm_def)+

lemma observed_word [simp]:
  "cell_ok kind x \<Longrightarrow> observed kind (pack b x) = view kind x"
  by (cases kind) (use packed_low [of x b] in \<open>simp_all del: and_one_eq packed_low\<close>)

lemma cas_call:
  "atomic_call os kind (AtomicCas x y s f) h w =
    map_option (apfst AtomicPacked) (sync_atomic_compare_exchange_value os h (norm kind x) (norm kind y) s f w)"
  by (cases kind) (simp_all add: norm_def sync_atomic_bool_compare_exchange_def sync_atomic_int_compare_exchange_def
      sync_atomic_uint_compare_exchange_def)

lemma atomic_call_spec:
  assumes "plain op" "atomic_may kind op h" "core h = Some a" "mem w a = Some c" "cell_ok kind (cell c)"
  shows "\<exists>r x. atomic_call os kind op h w = Some (r, w\<lparr>mem := (mem w)(a \<mapsto> c\<lparr>cell := x\<rparr>)\<rparr>) \<and> cell_ok kind x \<and>
    atomic_born r = None \<and> reg_step kind op (view kind (cell c)) = (view kind x, answer kind r)"
proof (cases op)
  case (AtomicLoad order)
  have w: "w\<lparr>mem := (mem w)(a \<mapsto> c\<lparr>cell := cell c\<rparr>)\<rparr> = w" using mem_same [OF assms(4)] by simp
  have "\<exists>r. atomic_call os kind op h w = Some (r, w) \<and> atomic_born r = None \<and> answer kind r = RegValue (view kind (cell c))"
    using assms AtomicLoad mem_same [OF assms(4)] w by (cases kind; cases "cell c = 0") (auto simp: atomic_defs store_def)
  then show ?thesis using AtomicLoad w assms(5) by (metis reg_step.simps(1))
next
  case (AtomicStore x order)
  then show ?thesis using assms
    by (cases kind; cases "win32 os") (auto simp: atomic_defs store_def)
next
  case (AtomicSwap x order)
  then show ?thesis using assms
    by (cases kind; cases "win32 os") (auto simp: atomic_defs store_def)
next
  case (AtomicCas x y s f)
  then show ?thesis using cas_call [of os kind x y s f h w] cas_value [OF assms(3,4), of os "norm kind x" "norm kind y" s f]
      view_inj [OF assms(5), of "norm kind x"] assms(5)
    by (intro exI [of _ "AtomicPacked (pack (cell c = norm kind x) (cell c))"]
        exI [of _ "if cell c = norm kind x then norm kind y else cell c"]) (auto simp del: atomic_call.simps)
next
  case (AtomicFetchAdd d order)
  then show ?thesis using assms view_plus
    by (cases kind; cases "win32 os") (auto simp: atomic_defs store_def)
qed (use assms in \<open>auto simp: plain_def\<close>)

subsection \<open>The operations keep the invariant\<close>

lemma atomic_invD:
  assumes "atomic_inv kind v a B w (add_mset h H) ps" "short_run ps"
  obtains c where "core h = Some a" "mem w a = Some c" "refs c = of_nat (size H) + 1" "cell_ok kind (cell c)"
    "replay kind v ps = Some (view kind (cell c))" "size H \<le> length ps"
    "\<forall>r. balance r (calls w) = B r + owning [BlockRes CoreBlock] r" "\<forall>h \<in># H. core h = Some a"
  using assms by (auto simp: atomic_inv_def add.commute)

lemma atomic_inv_long: "\<not> short_run ps \<Longrightarrow> atomic_inv kind v a B w H ps \<longleftrightarrow> (\<forall>h \<in># H. core h = Some a)"
  by (simp add: atomic_inv_def)

lemma atomic_plain_inv:
  assumes inv: "atomic_inv kind v a B w (add_mset h H) ps" and op: "plain op" "atomic_may kind op h"
    and run: "atomic_call os kind op h w = Some (r, w')"
  shows "atomic_inv kind v a B w' (add_mset h H) (ps @ [(op, r)])"
proof (cases "short_run ps")
  case True
  obtain c where c: "core h = Some a" "mem w a = Some c" "refs c = of_nat (size H) + 1" "cell_ok kind (cell c)"
    "replay kind v ps = Some (view kind (cell c))" "size H \<le> length ps"
    "\<forall>r. balance r (calls w) = B r + owning [BlockRes CoreBlock] r" "\<forall>h \<in># H. core h = Some a"
    by (rule atomic_invD [OF inv True])
  obtain x where x: "w' = w\<lparr>mem := (mem w)(a \<mapsto> c\<lparr>cell := x\<rparr>)\<rparr>" "cell_ok kind x"
    "reg_step kind op (view kind (cell c)) = (view kind x, answer kind r)"
    using atomic_call_spec [OF op c(1,2,4), of os] run by auto
  show ?thesis using x c by (simp add: atomic_inv_def add.commute)
next
  case False
  then have "\<not> short_run (ps @ [(op, r)])" by (auto dest: short_run_snoc)
  then show ?thesis using inv by (auto simp: atomic_inv_def)
qed

lemma atomic_share_inv:
  assumes inv: "atomic_inv kind v a B w (add_mset h H) ps" and run: "sync_atomic_share h w = Some (g, w')"
  shows "atomic_inv kind v a B w' (add_mset g (add_mset h H)) (ps @ [(AtomicShare, AtomicHandle g)])"
  using inv run
  by (cases "short_run ps")
    (auto simp: atomic_inv_def sync_atomic_share_def sync_atomic_wrap_def os_defs bind_eq_Some_conv)

lemma atomic_finalize_inv:
  assumes inv: "atomic_inv kind v a B w (add_mset h H) ps" and run: "sync_atomic_finalize h w = Some w'"
  shows "atomic_inv kind v a B w' H (ps @ [(AtomicFinalize, AtomicDropped)])"
proof (cases "short_run ps")
  case True
  obtain c where c: "core h = Some a" "mem w a = Some c" "refs c = of_nat (size H) + 1" "cell_ok kind (cell c)"
    "replay kind v ps = Some (view kind (cell c))" "size H \<le> length ps"
    "\<forall>r. balance r (calls w) = B r + owning [BlockRes CoreBlock] r" "\<forall>h \<in># H. core h = Some a"
    by (rule atomic_invD [OF inv True])
  have "of_nat (size H) = (0 :: 32 word) \<longleftrightarrow> H = {#}"
    using c(6) short_run_refs [OF True, of "size H"] by simp
  then show ?thesis using c run by (auto simp: atomic_inv_def sync_atomic_finalize_def os_defs)
qed (use inv in \<open>auto simp: atomic_inv_def\<close>)

subsection \<open>The cells are monitors\<close>

lemma settle_atomic:
  "settle (atomic_monitor kind a) op h (Return r) =
     (if op = AtomicFinalize then {#} else {#(h, Ready)#}) +
     (case atomic_born r of None \<Rightarrow> {#} | Some g \<Rightarrow> {#(g, Ready)#})"
  by (simp add: settle_def atomic_monitor_def split: option.splits)

lemma atomic_monitor_simps [simp]:
  "site (atomic_monitor kind a) = a" "may (atomic_monitor kind a) = atomic_may kind"
  "enter (atomic_monitor kind a) = atomic_enter kind" "resume (atomic_monitor kind a) os k h w = None"
  by (simp_all add: atomic_monitor_def)

lemma atomic_call_share: "atomic_call os kind AtomicShare h w = map_option (apfst AtomicHandle) (sync_atomic_share h w)"
  by (cases kind) (simp_all add: sync_atomic_bool_share_def sync_atomic_int_share_def sync_atomic_uint_share_def)

lemma atomic_plain_born:
  assumes "atomic_call os kind op h w = Some (r, w')" "plain op"
  shows "atomic_born r = None"
  using assms by (cases kind; cases op) (auto simp: plain_def)

lemma atomic_enter_inv:
  assumes inv: "atomic_inv kind v a B w (add_mset h H) ps" and may: "atomic_may kind op h"
    and run: "atomic_enter kind os op h w = Some (out, w')"
  shows "atomic_inv kind v a B w' (H + image_mset fst (settle (atomic_monitor kind a) op h out)) (record_past op out ps)"
proof -
  obtain r where r: "out = Return r" "atomic_call os kind op h w = Some (r, w')"
    using run by (auto simp: atomic_enter_def)
  consider "plain op" | "op = AtomicShare" | "op = AtomicFinalize" by (auto simp: plain_def)
  then show ?thesis
  proof cases
    case 1
    then show ?thesis using atomic_plain_inv [OF inv 1 may r(2)] atomic_plain_born [OF r(2) 1] r(1)
      by (simp add: record_past_def settle_atomic plain_def)
  next
    case 2
    then obtain g where "r = AtomicHandle g" "sync_atomic_share h w = Some (g, w')"
      using r(2) by (auto simp: atomic_call_share simp del: atomic_call.simps)
    then show ?thesis using atomic_share_inv [OF inv] r(1) 2
      by (simp add: record_past_def settle_atomic add_mset_commute)
  next
    case 3
    then have "r = AtomicDropped" "sync_atomic_finalize h w = Some w'" using r(2) by auto
    then show ?thesis using atomic_finalize_inv [OF inv] r(1) 3 by (simp add: record_past_def settle_atomic)
  qed
qed

interpretation atomic: monitor_inv P "atomic_monitor kind a" "atomic_inv kind v a B" "\<lambda>_ _. True" for P kind v a B
  by unfold_locales (auto intro!: atomic_enter_inv simp: all_pending_tags split: option.splits)

lemma atomic_new_norm: "atomic_new os kind x = sync_atomic_new os (norm kind x)"
  by (cases kind) (auto simp: norm_def sync_atomic_bool_new_def sync_atomic_int_new_def sync_atomic_uint_new_def)

lemma atomic_boot_inv:
  assumes "atomic_boot os kind x w = Some s"
  shows "atomic_inv kind (view kind x) (fresh w) (\<lambda>r. balance r (calls w)) (wrld s) (image_mset fst (agents s)) (past s)"
  using assms by (auto simp: atomic_boot_def atomic_new_norm sync_atomic_new_def bind_eq_Some_conv atomic_inv_def os_defs
      sync_atomic_wrap_def split: if_splits)

lemma atomic_reach:
  assumes "atomic_boot os kind x w = Some s" "reach P (atomic_monitor kind (fresh w)) s t"
  shows "atomic_inv kind (view kind x) (fresh w) (\<lambda>r. balance r (calls w)) (wrld t) (image_mset fst (agents t)) (past t)"
proof -
  have "atomic.good kind (view kind x) (fresh w) (\<lambda>r. balance r (calls w)) s"
    using atomic_boot_inv [OF assms(1)] by (simp add: atomic.good_iff all_pending_tags split: option.splits)
  from atomic.reach_inv [OF assms(2) this] show ?thesis .
qed

subsection \<open>Concrete runs\<close>

lemmas atomic_eval = atomic_boot_def sync_atomic_bool_new_def sync_atomic_int_new_def sync_atomic_uint_new_def sync_atomic_new_def sync_atomic_wrap_def os_defs quiet_os_def
  posix_status_def atomic_empty_world_def exec_step_def atomic_monitor_def settle_list_def record_past_def new_calls_def
  others_def wake_one_def asleep_on_def atomic_enter_def atomic_defs sync_atomic_share_def sync_atomic_finalize_def
  sync_atomic_uint_share_def sync_atomic_bool_share_def sync_atomic_int_share_def

lemma atomic_demo_reach:
  assumes "atomic_demo kind x xs = Some t" "P quiet_os"
  shows "\<exists>s. atomic_boot quiet_os kind x atomic_empty_world = Some s \<and>
    reach P (atomic_monitor kind (fresh atomic_empty_world)) s (config_of t)"
proof -
  obtain s where s: "atomic_boot quiet_os kind x atomic_empty_world = Some s"
      "exec (atomic_monitor kind 0) quiet_os xs (wrld s, [(sync_atomic_wrap 0, Ready)], []) = Some t"
    using assms by (auto simp: atomic_demo_def bind_eq_Some_conv)
  have "s = config_of (wrld s, [(sync_atomic_wrap 0, Ready)], [])"
    using s(1) by (cases kind) (auto simp: atomic_eval)
  then show ?thesis using s(1) exec_reach [OF s(2), of P] assms(2) by (auto simp: atomic_empty_world_def)
qed

section \<open>Properties\<close>

text \<open>
  C12. Whatever the schedule, the results of the completed operations, in the order of
  their steps, are those of a register of the type (a boolean, a signed 32-bit integer with
  two's complement wrap-around, an integer modulo \<open>2 ^ 32\<close>), and the cell holds its value. This
  includes the packing of a compare-exchange result into 64 bits and its unpacking.
\<close>

theorem atomic_linearizable:
  assumes boot: "atomic_boot os kind x w = Some s" and run: "reach P (atomic_monitor kind (fresh w)) s t"
    and small: "short_run (past t)"
  shows "\<exists>v. replay kind (view kind x) (past t) = Some v \<and>
    (case mem (wrld t) (fresh w) of Some c \<Rightarrow> view kind (cell c) = v | None \<Rightarrow> agents t = {#})"
  using atomic_reach [OF boot run] small by (cases "agents t = {#}") (auto simp: atomic_inv_def)

theorem atomic_linearizable_witness:
  "\<exists>t. atomic_demo AtomicInt 2147483647 [Call AtomicShare 0, Call (AtomicFetchAdd 1 0) 0, Call (AtomicCas 0 5 4 4) 0] = Some t \<and>
     replay AtomicInt 2147483647 (past (config_of t)) = Some (- 2147483648)"
proof -
  obtain t where t: "atomic_demo AtomicInt 2147483647
      [Call AtomicShare 0, Call (AtomicFetchAdd 1 0) 0, Call (AtomicCas 0 5 4 4) 0] = Some t"
    and p: "mem (wrld (config_of t)) 0 = Some \<lparr>refs = 2, cell = 2147483648\<rparr>" "short_run (past (config_of t))"
    by (simp add: atomic_demo_def atomic_eval short_run_def)
  obtain s where s: "atomic_boot quiet_os AtomicInt 2147483647 atomic_empty_world = Some s"
      "reach os_ok (atomic_monitor AtomicInt (fresh atomic_empty_world)) s (config_of t)"
    using atomic_demo_reach [OF t, of os_ok] by auto
  show ?thesis using atomic_linearizable [OF s p(2)] t p(1) by (auto simp: atomic_empty_world_def)
qed

text \<open>
  The reference count is the number of handles, the core is freed exactly by the last
  finalizer, and the cell of an \<open>AtomicBool\<close> is always 0 or 1.
\<close>

theorem atomic_lifetime:
  assumes boot: "atomic_boot os kind x w = Some s" and run: "reach P (atomic_monitor kind (fresh w)) s t"
    and small: "short_run (past t)"
  shows "case mem (wrld t) (fresh w) of
      Some c \<Rightarrow> agents t \<noteq> {#} \<and> refs c = of_nat (size (agents t)) \<and> cell_ok kind (cell c) \<and>
        balance (BlockRes CoreBlock) (calls (wrld t)) = balance (BlockRes CoreBlock) (calls w) + 1
    | None \<Rightarrow> agents t = {#} \<and> balance (BlockRes CoreBlock) (calls (wrld t)) = balance (BlockRes CoreBlock) (calls w)"
  using atomic_reach [OF boot run] small by (cases "agents t = {#}") (auto simp: atomic_inv_def)

theorem atomic_lifetime_witness:
  "\<exists>t. atomic_demo AtomicUInt 7 [Call AtomicShare 0, Call AtomicFinalize 0, Call AtomicFinalize 0] = Some t \<and>
     agents (config_of t) = {#} \<and> balance (BlockRes CoreBlock) (calls (wrld (config_of t))) = 0"
proof -
  obtain t where t: "atomic_demo AtomicUInt 7 [Call AtomicShare 0, Call AtomicFinalize 0, Call AtomicFinalize 0] = Some t"
    and p: "mem (wrld (config_of t)) 0 = None" "short_run (past (config_of t))"
    by (simp add: atomic_demo_def atomic_eval short_run_def)
  obtain s where s: "atomic_boot quiet_os AtomicUInt 7 atomic_empty_world = Some s"
      "reach os_ok (atomic_monitor AtomicUInt (fresh atomic_empty_world)) s (config_of t)"
    using atomic_demo_reach [OF t, of os_ok] by auto
  show ?thesis using atomic_lifetime [OF s p(2)] t p(1) by (auto simp: atomic_empty_world_def)
qed

text \<open>
  The Windows and the POSIX branch of every operation compute the same result and the
  same state.
\<close>

theorem atomic_platforms_agree:
  "atomic_call (os\<lparr>win32 := True\<rparr>) kind op h w = atomic_call (os\<lparr>win32 := False\<rparr>) kind op h w"
proof (cases "\<exists>a c. core h = Some a \<and> mem w a = Some c")
  case True
  then obtain a c where c: "core h = Some a" "mem w a = Some c" by auto
  show ?thesis
    using c mem_same [OF c(2)] by (cases kind; cases op) (auto simp: atomic_defs store_def cas_value [OF c])
next
  case False
  then show ?thesis
    by (cases kind; cases op) (auto simp: atomic_defs bind_eq_None_conv split: option.splits Option.bind_splits)
qed

end
