(* ===== verification/Sync_ThreadPool.thy ===== *)
theory Sync_ThreadPool
  imports Sync_Monitor
begin

text \<open>
  The thread pool, \<^verbatim>\<open>src/src/unsafe/thread_pool/native.c\<close>: a bounded queue of closures behind a
  mutex with three condition variables, worker threads that run them, and handles that
  submit, close and shut down. The agents of its monitor are the handles, the workers and,
  when the start of a worker fails, the constructor that has to wait for the others.

  A closure is run by \<open>core->call\<close>, a function pointer of the MoonBit runtime; the model
  records the run in the log. The thread-local variable \<open>sync_current_thread_pool\<close> is part of a
  worker's agent, where the thread function sets it, and an argument of the functions that read
  it: the value in the calling thread. A task that calls the pool does so on the thread of the
  worker that runs it, with that worker's value; other threads may have any value.
\<close>

section \<open>State\<close>

definition SYNC_THREAD_POOL_MAX_WORKER_COUNT :: int where
  "SYNC_THREAD_POOL_MAX_WORKER_COUNT = 64"

definition SYNC_THREAD_POOL_MAX_CAPACITY :: int where
  "SYNC_THREAD_POOL_MAX_CAPACITY = 16384"

definition SYNC_THREAD_POOL_ALLOCATION_FAILED :: int where
  "SYNC_THREAD_POOL_ALLOCATION_FAILED = - 2"

text \<open>\<open>queued\<close> is the field \<open>length\<close> of the C structure.\<close>

record 'v sync_thread_pool_core_t =
  refs :: sync_arc_t
  tasks :: "'v option list"
  capacity :: int
  head :: int
  tail :: int
  queued :: int
  worker_count :: int
  live_workers :: int
  handles :: int
  accepting :: int

record sync_thread_pool_handle_t =
  core :: "addr option"

record 'v pool_world = "('v, 'v sync_thread_pool_core_t) world" +
  alloc_fail_after :: int
  next_submit_error :: int
  next_shutdown_error :: int

section \<open>Fault injection and allocation\<close>

definition sync_thread_pool_take_test_error :: "int \<Rightarrow> int \<times> int" where
  "sync_thread_pool_take_test_error next_error = sync_test_atomic_take next_error"

text \<open>
  The compare-exchange loop of \<open>should_fail_alloc\<close>. The head of \<open>env\<close> is what another thread
  stores in the cell before the next compare-exchange; with \<open>env\<close> used up nobody interferes.
  The result and the new contents of the cell.
\<close>

function should_fail_loop :: "int \<Rightarrow> int list \<Rightarrow> int \<Rightarrow> int \<times> int" where
  "should_fail_loop current env cell =
     (if current < 0 then (0, cell)
      else
        (let cell = (case env of [] \<Rightarrow> cell | e # _ \<Rightarrow> e);
             next = (if current = 0 then - 1 else current - 1);
             (exchanged, cell, expected) = sync_test_atomic_compare_exchange cell current next
         in if exchanged \<noteq> 0 then (if current = 0 then 1 else 0, cell)
            else should_fail_loop expected (drop 1 env) cell))"
  by pat_completeness auto

termination should_fail_loop
proof (relation "measure (\<lambda>(current, env, cell). 2 * length env + (if current = cell then 0 else 1))", goal_cases)
  case (2 current env cell x y z u v r s)
  then show ?case by (auto simp: sync_test_atomic_compare_exchange_def split: if_splits list.splits)
qed simp

definition sync_thread_pool_test_should_fail_alloc :: "int list \<Rightarrow> 'v pool_world \<Rightarrow> int \<times> 'v pool_world" where
  "sync_thread_pool_test_should_fail_alloc env w =
     (let (current, cell) = sync_test_atomic_load (alloc_fail_after w);
          (fails, cell) = should_fail_loop current env cell
      in (fails, w\<lparr>alloc_fail_after := cell\<rparr>))"

definition sync_thread_pool_try_alloc :: "'v os \<Rightarrow> block \<Rightarrow> 'v pool_world \<Rightarrow> bool \<times> 'v pool_world" where
  "sync_thread_pool_try_alloc os b w =
     (let (fails, w) = sync_thread_pool_test_should_fail_alloc [] w
      in if fails \<noteq> 0 then (False, w) else sync_try_alloc os b w)"

section \<open>The core\<close>

definition sync_thread_pool_lock_or_abort :: "'v os \<Rightarrow> addr \<Rightarrow> 'v pool_world \<Rightarrow> 'v pool_world option" where
  "sync_thread_pool_lock_or_abort os a w = abort_if_failed (sync_os_mutex_lock os a w)"

definition sync_thread_pool_unlock_or_abort :: "'v os \<Rightarrow> addr \<Rightarrow> 'v pool_world \<Rightarrow> 'v pool_world option" where
  "sync_thread_pool_unlock_or_abort os a w = abort_if_failed (sync_os_mutex_unlock os a w)"

text \<open>The loop that releases the tasks still in the queue; \<open>n\<close> counts the iterations left.\<close>

fun release_tasks :: "'v sync_thread_pool_core_t \<Rightarrow> nat \<Rightarrow> int \<Rightarrow> 'v pool_world \<Rightarrow> 'v pool_world option" where
  "release_tasks c 0 index w = Some w"
| "release_tasks c (Suc n) index w = do {
     slot \<leftarrow> i32_add (head c) index;
     slot \<leftarrow> i32_rem slot (capacity c);
     task \<leftarrow> cell_get (tasks c) slot;
     v \<leftarrow> task;
     release_tasks c n (index + 1) (moonbit_decref v w)
   }"

definition sync_thread_pool_core_release :: "'v os \<Rightarrow> addr \<Rightarrow> 'v pool_world \<Rightarrow> 'v pool_world option" where
  "sync_thread_pool_core_release os a w = do {
     c \<leftarrow> mem w a;
     let r = sync_arc_dec (refs c);
     let w = store a (c\<lparr>refs := r\<rparr>) w;
     if r \<noteq> 0 then Some w else do {
       w \<leftarrow> release_tasks c (nat (queued c)) 0 w;
       let w = c_free SlotsBlock w;
       w \<leftarrow> abort_if_failed (sync_os_cond_destroy os a Stopped w);
       w \<leftarrow> abort_if_failed (sync_os_cond_destroy os a NotFull w);
       w \<leftarrow> abort_if_failed (sync_os_cond_destroy os a NotEmpty w);
       w \<leftarrow> abort_if_failed (sync_os_mutex_destroy os a w);
       Some (free_core a w)
     }
   }"

definition sync_thread_pool_close_core :: "'v os \<Rightarrow> addr \<Rightarrow> 'v pool_world \<Rightarrow> (int \<times> 'v pool_world) option" where
  "sync_thread_pool_close_core os a w = do {
     let (status, w) = sync_os_mutex_lock os a w;
     if status \<noteq> 0 then Some (status, w) else do {
       c \<leftarrow> mem w a;
       let w = store a (c\<lparr>accepting := 0\<rparr>) w;
       let (st, w) = sync_os_cond_broadcast os a NotEmpty w;
       let status = record_error status st;
       let (st, w) = sync_os_cond_broadcast os a NotFull w;
       let status = record_error status st;
       let (st, w) = sync_os_mutex_unlock os a w;
       Some (record_error status st, w)
     }
   }"

definition sync_thread_pool_close_core_or_abort :: "'v os \<Rightarrow> addr \<Rightarrow> 'v pool_world \<Rightarrow> 'v pool_world option" where
  "sync_thread_pool_close_core_or_abort os a w = do {
     x \<leftarrow> sync_thread_pool_close_core os a w;
     abort_if_failed x
   }"

definition sync_thread_pool_finalize ::
  "'v os \<Rightarrow> sync_thread_pool_handle_t \<Rightarrow> 'v pool_world \<Rightarrow> 'v pool_world option" where
  "sync_thread_pool_finalize os handle w = (case core handle of None \<Rightarrow> Some w | Some a \<Rightarrow> do {
     w \<leftarrow> sync_thread_pool_lock_or_abort os a w;
     c \<leftarrow> mem w a;
     if handles c \<le> 0 then None else do {
       n \<leftarrow> i32_sub (handles c) 1;
       w \<leftarrow>
         (if n = 0 then do {
            let w = store a (c\<lparr>handles := n, accepting := 0\<rparr>) w;
            w \<leftarrow> abort_if_failed (sync_os_cond_broadcast os a NotEmpty w);
            abort_if_failed (sync_os_cond_broadcast os a NotFull w)
          } else Some (store a (c\<lparr>handles := n\<rparr>) w));
       w \<leftarrow> sync_thread_pool_unlock_or_abort os a w;
       sync_thread_pool_core_release os a w
     }
   })"

definition sync_thread_pool_wrap :: "addr \<Rightarrow> sync_thread_pool_handle_t" where
  "sync_thread_pool_wrap a = \<lparr>core = Some a\<rparr>"

section \<open>Agents\<close>

text \<open>A worker is a thread with its core and its own \<open>sync_current_thread_pool\<close>.\<close>

datatype pool_agent = Client sync_thread_pool_handle_t | Worker addr "addr option" | Maker addr

text \<open>
  What an agent that does not hold the mutex still has to do: a blocked \<open>execute\<close> with its
  task and \<open>*error\<close>; a \<open>shutdown\<close> about to lock, or waiting; a worker about to lock, waiting,
  with a task to run, or about to release the core; the constructor about to lock, or
  waiting, with the status it will report.
\<close>

datatype 'v pool_k =
    SubmitK 'v int
  | ShutLockK | ShutWaitK int
  | WorkLockK | WorkWaitK | WorkTaskK 'v | WorkLeaveK
  | MakeLockK int | MakeWaitK int

datatype 'v pool_op =
    PoolShare | PoolTryExecute 'v "addr option" | PoolExecute 'v "addr option" | PoolClose
  | PoolShutdown "addr option" | PoolIsClosed | PoolWorkerCount | PoolPendingCount | PoolFinalize
  | PoolWorker | PoolMake

datatype pool_ret =
    PoolHandle "pool_agent option" int | Submitted int int | PoolStatus int | PoolAnswer int int
  | PoolDropped | WorkerDone | MakeFailed int

section \<open>Workers\<close>

text \<open>The start of the thread: the variable is set, and the loop begins.\<close>

definition sync_thread_pool_worker_start :: "addr \<Rightarrow> pool_agent \<times> 'v pool_k mode" where
  "sync_thread_pool_worker_start arg =
     (let core = arg; sync_current_thread_pool = Some core
      in (Worker core sync_current_thread_pool, Runnable WorkLockK))"

text \<open>The loop body from the test of the wait condition, with the mutex held.\<close>

definition sync_thread_pool_worker_loop ::
  "'v os \<Rightarrow> addr \<Rightarrow> 'v pool_world \<Rightarrow> ((pool_ret, 'v pool_k) outcome \<times> 'v pool_world) option" where
  "sync_thread_pool_worker_loop os a w = do {
     c \<leftarrow> mem w a;
     if queued c = 0 \<and> accepting c \<noteq> 0 then Some (Wait NotEmpty WorkWaitK, cond_sleep a NotEmpty w)
     else if queued c = 0 then do {
       n \<leftarrow> i32_sub (live_workers c) 1;
       let w = store a (c\<lparr>live_workers := n\<rparr>) w;
       w \<leftarrow> abort_if_failed (sync_os_cond_broadcast os a Stopped w);
       w \<leftarrow> sync_thread_pool_unlock_or_abort os a w;
       Some (Again WorkLeaveK, w)
     } else do {
       task \<leftarrow> cell_get (tasks c) (head c);
       v \<leftarrow> task;
       cs \<leftarrow> cell_set (tasks c) (head c) None;
       h \<leftarrow> i32_add (head c) 1;
       h \<leftarrow> i32_rem h (capacity c);
       n \<leftarrow> i32_sub (queued c) 1;
       let w = store a (c\<lparr>tasks := cs, head := h, queued := n\<rparr>) w;
       w \<leftarrow> abort_if_failed (sync_os_cond_signal os a NotFull w);
       w \<leftarrow> sync_thread_pool_unlock_or_abort os a w;
       Some (Again (WorkTaskK v), w)
     }
   }"

definition sync_thread_pool_worker_lock ::
  "'v os \<Rightarrow> addr \<Rightarrow> 'v pool_world \<Rightarrow> ((pool_ret, 'v pool_k) outcome \<times> 'v pool_world) option" where
  "sync_thread_pool_worker_lock os a w = do {
     w \<leftarrow> sync_thread_pool_lock_or_abort os a w;
     sync_thread_pool_worker_loop os a w
   }"

definition sync_thread_pool_worker_wake ::
  "'v os \<Rightarrow> addr \<Rightarrow> 'v pool_world \<Rightarrow> ((pool_ret, 'v pool_k) outcome \<times> 'v pool_world) option" where
  "sync_thread_pool_worker_wake os a w = do {
     w \<leftarrow> abort_if_failed (sync_os_cond_wait os a NotEmpty w);
     sync_thread_pool_worker_loop os a w
   }"

text \<open>Outside the mutex: run the task and release it, then go round the loop again.\<close>

definition run_closure :: "'v \<Rightarrow> 'v pool_world \<Rightarrow> 'v pool_world" where
  "run_closure v w = log_call (RunClosure v) 0 w"

definition sync_thread_pool_worker_task ::
  "'v \<Rightarrow> 'v pool_world \<Rightarrow> (pool_ret, 'v pool_k) outcome \<times> 'v pool_world" where
  "sync_thread_pool_worker_task v w = (Again WorkLockK, moonbit_decref v (run_closure v w))"

text \<open>
  After the loop. The variable is reset and the core released; the thread ends in the same
  piece of code, so nobody reads the variable again.
\<close>

definition sync_thread_pool_worker_leave ::
  "'v os \<Rightarrow> addr \<Rightarrow> 'v pool_world \<Rightarrow> ((pool_ret, 'v pool_k) outcome \<times> 'v pool_world) option" where
  "sync_thread_pool_worker_leave os a w =
     map_option (Pair (Return WorkerDone)) (sync_thread_pool_core_release os a w)"

section \<open>The constructor\<close>

text \<open>
  The loop that starts the workers; \<open>n\<close> counts those still to start. The status of the start
  that failed, or 0, and the number of workers running. When a start fails the loop is left
  after the close; the constructor then waits for the workers that run.

  Workers run while the loop goes on, but nobody has a handle yet: all a worker can do is
  find the queue empty and go to sleep, without changing the core. Starting them all, not yet
  asleep, at the end of the loop therefore reaches the same states.
\<close>

fun spawn_workers ::
  "'v os \<Rightarrow> addr \<Rightarrow> nat \<Rightarrow> 'v pool_world \<Rightarrow> ((int \<times> nat) \<times> 'v pool_world) option" where
  "spawn_workers os a 0 w = Some ((0, 0), w)"
| "spawn_workers os a (Suc n) w = do {
     c \<leftarrow> mem w a;
     let w = store a (c\<lparr>refs := sync_arc_inc (refs c)\<rparr>) w;
     w \<leftarrow> sync_thread_pool_lock_or_abort os a w;
     c \<leftarrow> mem w a;
     l \<leftarrow> i32_add (live_workers c) 1;
     let w = store a (c\<lparr>live_workers := l\<rparr>) w;
     w \<leftarrow> sync_thread_pool_unlock_or_abort os a w;
     let (create_status, w) = os_call os (ThreadCreate a) w;
     if create_status \<noteq> 0 then do {
       w \<leftarrow> sync_thread_pool_lock_or_abort os a w;
       c \<leftarrow> mem w a;
       l \<leftarrow> i32_sub (live_workers c) 1;
       let w = store a (c\<lparr>live_workers := l\<rparr>) w;
       w \<leftarrow> sync_thread_pool_unlock_or_abort os a w;
       w \<leftarrow> sync_thread_pool_core_release os a w;
       w \<leftarrow> sync_thread_pool_close_core_or_abort os a w;
       Some ((create_status, 0), w)
     } else do {
       w \<leftarrow> abort_if_failed (os_call os (ThreadDetach a) w);
       ((status, started), w) \<leftarrow> spawn_workers os a n w;
       Some ((status, Suc started), w)
     }
   }"

text \<open>
  What the constructor has come to: no pool, with a status; a handle and its workers; or a
  failed start, with the workers it still has to wait for.
\<close>

datatype pool_made = Refused int | Made sync_thread_pool_handle_t nat | Failing int nat

definition sync_thread_pool_new ::
  "'v os \<Rightarrow> int \<Rightarrow> int \<Rightarrow> 'v pool_world \<Rightarrow> (pool_made \<times> 'v pool_world) option" where
  "sync_thread_pool_new os wanted cap w =
     (if wanted \<le> 0 \<or> wanted > SYNC_THREAD_POOL_MAX_WORKER_COUNT \<or> cap \<le> 0 \<or>
         cap > SYNC_THREAD_POOL_MAX_CAPACITY \<or> nat cap > size_max os div pointer_size os then
        Some (Refused (- 1), w)
      else do {
     let (ok, w) = sync_thread_pool_try_alloc os CoreBlock w;
     if \<not> ok then Some (Refused SYNC_THREAD_POOL_ALLOCATION_FAILED, w) else do {
     let a = fresh w;
     let w = w\<lparr>fresh := Suc a\<rparr>;
     let (ok, w) = sync_thread_pool_try_alloc os SlotsBlock w;
     if \<not> ok then Some (Refused SYNC_THREAD_POOL_ALLOCATION_FAILED, free_core a w) else do {
     let w = store a \<lparr>refs = 1, tasks = replicate (nat cap) None, capacity = cap, head = 0, tail = 0, queued = 0,
       worker_count = wanted, live_workers = 0, handles = 1, accepting = 1\<rparr> w;
     let (status, w) = sync_os_mutex_init os a w;
     if status \<noteq> 0 then Some (Refused status, free_core a (c_free SlotsBlock w)) else do {
     let (status, w) = sync_os_cond_init os a NotEmpty w;
     if status \<noteq> 0 then do {
       w \<leftarrow> abort_if_failed (sync_os_mutex_destroy os a w);
       Some (Refused status, free_core a (c_free SlotsBlock w))
     } else do {
     let (status, w) = sync_os_cond_init os a NotFull w;
     if status \<noteq> 0 then do {
       w \<leftarrow> abort_if_failed (sync_os_cond_destroy os a NotEmpty w);
       w \<leftarrow> abort_if_failed (sync_os_mutex_destroy os a w);
       Some (Refused status, free_core a (c_free SlotsBlock w))
     } else do {
     let (status, w) = sync_os_cond_init os a Stopped w;
     if status \<noteq> 0 then do {
       w \<leftarrow> abort_if_failed (sync_os_cond_destroy os a NotFull w);
       w \<leftarrow> abort_if_failed (sync_os_cond_destroy os a NotEmpty w);
       w \<leftarrow> abort_if_failed (sync_os_mutex_destroy os a w);
       Some (Refused status, free_core a (c_free SlotsBlock w))
     } else do {
     ((status, started), w) \<leftarrow> spawn_workers os a (nat wanted) w;
     Some (if status \<noteq> 0 then Failing status started else Made (sync_thread_pool_wrap a) started, w)
     }}}}}}
   })"

text \<open>\<open>wait_workers_or_abort\<close> and the release behind it, for a constructor that failed.\<close>

definition sync_thread_pool_wait_workers_loop ::
  "'v os \<Rightarrow> addr \<Rightarrow> int \<Rightarrow> 'v pool_world \<Rightarrow> ((pool_ret, 'v pool_k) outcome \<times> 'v pool_world) option" where
  "sync_thread_pool_wait_workers_loop os a create_status w = do {
     c \<leftarrow> mem w a;
     if live_workers c \<noteq> 0 then Some (Wait Stopped (MakeWaitK create_status), cond_sleep a Stopped w)
     else do {
       w \<leftarrow> sync_thread_pool_unlock_or_abort os a w;
       w \<leftarrow> sync_thread_pool_core_release os a w;
       Some (Return (MakeFailed create_status), w)
     }
   }"

definition sync_thread_pool_wait_workers_start ::
  "'v os \<Rightarrow> addr \<Rightarrow> int \<Rightarrow> 'v pool_world \<Rightarrow> ((pool_ret, 'v pool_k) outcome \<times> 'v pool_world) option" where
  "sync_thread_pool_wait_workers_start os a create_status w = do {
     w \<leftarrow> sync_thread_pool_lock_or_abort os a w;
     sync_thread_pool_wait_workers_loop os a create_status w
   }"

definition sync_thread_pool_wait_workers_wake ::
  "'v os \<Rightarrow> addr \<Rightarrow> int \<Rightarrow> 'v pool_world \<Rightarrow> ((pool_ret, 'v pool_k) outcome \<times> 'v pool_world) option" where
  "sync_thread_pool_wait_workers_wake os a create_status w = do {
     w \<leftarrow> abort_if_failed (sync_os_cond_wait os a Stopped w);
     sync_thread_pool_wait_workers_loop os a create_status w
   }"

section \<open>Operations of a handle\<close>

definition sync_thread_pool_share ::
  "'v os \<Rightarrow> sync_thread_pool_handle_t \<Rightarrow> 'v pool_world \<Rightarrow>
   ((sync_thread_pool_handle_t option \<times> int) \<times> 'v pool_world) option" where
  "sync_thread_pool_share os value w = do {
     a \<leftarrow> core value;
     let (status, w) = sync_os_mutex_lock os a w;
     if status \<noteq> 0 then Some ((None, status), w) else do {
     c \<leftarrow> mem w a;
     if handles c = INT32_MAX then do {
       let (st, w) = sync_os_mutex_unlock os a w;
       let status = record_error status st;
       Some ((None, if status = 0 then - 1 else status), w)
     } else do {
       n \<leftarrow> i32_add (handles c) 1;
       let w = store a (c\<lparr>handles := n, refs := sync_arc_inc (refs c)\<rparr>) w;
       w \<leftarrow> abort_if_failed (sync_os_mutex_unlock os a w);
       Some ((Some (sync_thread_pool_wrap a), status), w)
     }}
   }"

text \<open>A submission that fails with the mutex held: unlock, release the task.\<close>

definition submit_drop ::
  "'v os \<Rightarrow> addr \<Rightarrow> 'v \<Rightarrow> int \<Rightarrow> int \<Rightarrow> 'v pool_world \<Rightarrow> (pool_ret, 'v pool_k) outcome \<times> 'v pool_world" where
  "submit_drop os a task result error w =
     (let (st, w) = sync_os_mutex_unlock os a w
      in (Return (Submitted result (record_error error st)), moonbit_decref task w))"

text \<open>The wait loop and the code behind it.\<close>

definition sync_thread_pool_submit_loop ::
  "'v os \<Rightarrow> addr \<Rightarrow> 'v \<Rightarrow> int \<Rightarrow> int \<Rightarrow> 'v pool_world \<Rightarrow> ((pool_ret, 'v pool_k) outcome \<times> 'v pool_world) option" where
  "sync_thread_pool_submit_loop os a task block error w = do {
     c \<leftarrow> mem w a;
     if block \<noteq> 0 \<and> accepting c \<noteq> 0 \<and> queued c = capacity c then
       Some (Wait NotFull (SubmitK task error), cond_sleep a NotFull w)
     else if accepting c = 0 then Some (submit_drop os a task 2 error w)
     else if queued c = capacity c then Some (submit_drop os a task 1 error w)
     else do {
       cs \<leftarrow> cell_set (tasks c) (tail c) (Some task);
       t \<leftarrow> i32_add (tail c) 1;
       t \<leftarrow> i32_rem t (capacity c);
       n \<leftarrow> i32_add (queued c) 1;
       let w = store a (c\<lparr>tasks := cs, tail := t, queued := n\<rparr>) w;
       let (st, w) = sync_os_cond_signal os a NotEmpty w;
       let error = record_error error st;
       let (st, w) = sync_os_mutex_unlock os a w;
       Some (Return (Submitted 0 (record_error error st)), w)
     }
   }"

definition sync_thread_pool_submit_wake ::
  "'v os \<Rightarrow> addr \<Rightarrow> 'v \<Rightarrow> int \<Rightarrow> 'v pool_world \<Rightarrow> ((pool_ret, 'v pool_k) outcome \<times> 'v pool_world) option" where
  "sync_thread_pool_submit_wake os a task error w = do {
     let (wait_status, w) = sync_os_cond_wait os a NotFull w;
     if wait_status \<noteq> 0 then Some (submit_drop os a task 2 (record_error error wait_status) w)
     else sync_thread_pool_submit_loop os a task 1 error w
   }"

definition sync_thread_pool_submit_task ::
  "'v os \<Rightarrow> addr option \<Rightarrow> sync_thread_pool_handle_t \<Rightarrow> 'v \<Rightarrow> int \<Rightarrow> 'v pool_world \<Rightarrow>
   ((pool_ret, 'v pool_k) outcome \<times> 'v pool_world) option" where
  "sync_thread_pool_submit_task os sync_current_thread_pool value task block w = do {
     a \<leftarrow> core value;
     let (error, next) = sync_thread_pool_take_test_error (next_submit_error w);
     let w = w\<lparr>next_submit_error := next\<rparr>;
     if error \<noteq> 0 then Some (Return (Submitted 2 error), moonbit_decref task w) else do {
     let (error, w) = sync_os_mutex_lock os a w;
     if error \<noteq> 0 then Some (Return (Submitted 2 error), moonbit_decref task w) else do {
     c \<leftarrow> mem w a;
     if block \<noteq> 0 \<and> accepting c \<noteq> 0 \<and> sync_current_thread_pool = Some a \<and> queued c = capacity c then
       Some (submit_drop os a task 3 error w)
     else sync_thread_pool_submit_loop os a task block error w
     }}
   }"

definition sync_thread_pool_try_execute ::
  "'v os \<Rightarrow> addr option \<Rightarrow> sync_thread_pool_handle_t \<Rightarrow> 'v \<Rightarrow> 'v pool_world \<Rightarrow>
   ((pool_ret, 'v pool_k) outcome \<times> 'v pool_world) option" where
  "sync_thread_pool_try_execute os sync_current_thread_pool value task =
     sync_thread_pool_submit_task os sync_current_thread_pool value task 0"

definition sync_thread_pool_execute ::
  "'v os \<Rightarrow> addr option \<Rightarrow> sync_thread_pool_handle_t \<Rightarrow> 'v \<Rightarrow> 'v pool_world \<Rightarrow>
   ((pool_ret, 'v pool_k) outcome \<times> 'v pool_world) option" where
  "sync_thread_pool_execute os sync_current_thread_pool value task =
     sync_thread_pool_submit_task os sync_current_thread_pool value task 1"

definition sync_thread_pool_close ::
  "'v os \<Rightarrow> sync_thread_pool_handle_t \<Rightarrow> 'v pool_world \<Rightarrow> (int \<times> 'v pool_world) option" where
  "sync_thread_pool_close os value w = do {
     a \<leftarrow> core value;
     sync_thread_pool_close_core os a w
   }"

text \<open>Shutting down: close, lock again, and wait for the workers; the result and \<open>*status\<close>.\<close>

definition shutdown_end ::
  "'v os \<Rightarrow> addr \<Rightarrow> int \<Rightarrow> 'v pool_world \<Rightarrow> (pool_ret, 'v pool_k) outcome \<times> 'v pool_world" where
  "shutdown_end os a status w =
     (let (st, w) = sync_os_mutex_unlock os a w in (Return (PoolAnswer 0 (record_error status st)), w))"

definition sync_thread_pool_shutdown_loop ::
  "'v os \<Rightarrow> addr \<Rightarrow> int \<Rightarrow> 'v pool_world \<Rightarrow> ((pool_ret, 'v pool_k) outcome \<times> 'v pool_world) option" where
  "sync_thread_pool_shutdown_loop os a status w = do {
     c \<leftarrow> mem w a;
     if live_workers c \<noteq> 0 then Some (Wait Stopped (ShutWaitK status), cond_sleep a Stopped w)
     else Some (shutdown_end os a status w)
   }"

definition sync_thread_pool_shutdown_wake ::
  "'v os \<Rightarrow> addr \<Rightarrow> int \<Rightarrow> 'v pool_world \<Rightarrow> ((pool_ret, 'v pool_k) outcome \<times> 'v pool_world) option" where
  "sync_thread_pool_shutdown_wake os a status w = do {
     let (wait_status, w) = sync_os_cond_wait os a Stopped w;
     if wait_status \<noteq> 0 then Some (shutdown_end os a (record_error status wait_status) w)
     else sync_thread_pool_shutdown_loop os a status w
   }"

definition sync_thread_pool_shutdown_lock ::
  "'v os \<Rightarrow> addr \<Rightarrow> 'v pool_world \<Rightarrow> ((pool_ret, 'v pool_k) outcome \<times> 'v pool_world) option" where
  "sync_thread_pool_shutdown_lock os a w = do {
     let (status, w) = sync_os_mutex_lock os a w;
     if status \<noteq> 0 then Some (Return (PoolAnswer 0 status), w)
     else sync_thread_pool_shutdown_loop os a status w
   }"

definition sync_thread_pool_shutdown ::
  "'v os \<Rightarrow> addr option \<Rightarrow> sync_thread_pool_handle_t \<Rightarrow> 'v pool_world \<Rightarrow>
   ((pool_ret, 'v pool_k) outcome \<times> 'v pool_world) option" where
  "sync_thread_pool_shutdown os sync_current_thread_pool value w = do {
     a \<leftarrow> core value;
     let (status, next) = sync_thread_pool_take_test_error (next_shutdown_error w);
     let w = w\<lparr>next_shutdown_error := next\<rparr>;
     if status \<noteq> 0 then Some (Return (PoolAnswer 0 status), w)
     else if sync_current_thread_pool = Some a then Some (Return (PoolAnswer (- 1) status), w)
     else do {
       (status, w) \<leftarrow> sync_thread_pool_close_core os a w;
       if status \<noteq> 0 then Some (Return (PoolAnswer 0 status), w) else Some (Again ShutLockK, w)
     }
   }"

definition sync_thread_pool_is_closed ::
  "'v os \<Rightarrow> sync_thread_pool_handle_t \<Rightarrow> 'v pool_world \<Rightarrow> ((int \<times> int) \<times> 'v pool_world) option" where
  "sync_thread_pool_is_closed os value w = do {
     a \<leftarrow> core value;
     let (status, w) = sync_os_mutex_lock os a w;
     if status \<noteq> 0 then Some ((0, status), w) else do {
       c \<leftarrow> mem w a;
       let result = (if accepting c = 0 then 1 else 0);
       let (st, w) = sync_os_mutex_unlock os a w;
       Some ((result, record_error status st), w)
     }
   }"

definition sync_thread_pool_worker_count ::
  "sync_thread_pool_handle_t \<Rightarrow> 'v pool_world \<Rightarrow> int option" where
  "sync_thread_pool_worker_count value w = do {
     a \<leftarrow> core value;
     c \<leftarrow> mem w a;
     Some (worker_count c)
   }"

definition sync_thread_pool_pending_count ::
  "'v os \<Rightarrow> sync_thread_pool_handle_t \<Rightarrow> 'v pool_world \<Rightarrow> ((int \<times> int) \<times> 'v pool_world) option" where
  "sync_thread_pool_pending_count os value w = do {
     a \<leftarrow> core value;
     let (status, w) = sync_os_mutex_lock os a w;
     if status \<noteq> 0 then Some ((0, status), w) else do {
       c \<leftarrow> mem w a;
       let count = queued c;
       let (st, w) = sync_os_mutex_unlock os a w;
       Some ((count, record_error status st), w)
     }
   }"

definition sync_thread_pool_test_fail_alloc_after :: "int \<Rightarrow> 'v pool_world \<Rightarrow> 'v pool_world" where
  "sync_thread_pool_test_fail_alloc_after successful_allocations w =
     w\<lparr>alloc_fail_after := sync_test_atomic_store (alloc_fail_after w) successful_allocations\<rparr>"

definition sync_thread_pool_test_fail_next_submit :: "int \<Rightarrow> 'v pool_world \<Rightarrow> 'v pool_world" where
  "sync_thread_pool_test_fail_next_submit status w =
     w\<lparr>next_submit_error := sync_test_atomic_store (next_submit_error w) status\<rparr>"

definition sync_thread_pool_test_fail_next_shutdown :: "int \<Rightarrow> 'v pool_world \<Rightarrow> 'v pool_world" where
  "sync_thread_pool_test_fail_next_shutdown status w =
     w\<lparr>next_shutdown_error := sync_test_atomic_store (next_shutdown_error w) status\<rparr>"

section \<open>The pool as a monitor\<close>

fun pool_may :: "'v pool_op \<Rightarrow> pool_agent \<Rightarrow> bool" where
  "pool_may PoolWorker _ = False"
| "pool_may PoolMake _ = False"
| "pool_may _ (Client h) = True"
| "pool_may _ _ = False"

fun pool_enter ::
  "'v os \<Rightarrow> 'v pool_op \<Rightarrow> pool_agent \<Rightarrow> 'v pool_world \<Rightarrow> ((pool_ret, 'v pool_k) outcome \<times> 'v pool_world) option" where
  "pool_enter os PoolShare (Client h) w =
     map_option (\<lambda>((g, st), w). (Return (PoolHandle (map_option Client g) st), w)) (sync_thread_pool_share os h w)"
| "pool_enter os (PoolTryExecute v cur) (Client h) w = sync_thread_pool_try_execute os cur h v w"
| "pool_enter os (PoolExecute v cur) (Client h) w = sync_thread_pool_execute os cur h v w"
| "pool_enter os PoolClose (Client h) w =
     map_option (\<lambda>(st, w). (Return (PoolStatus st), w)) (sync_thread_pool_close os h w)"
| "pool_enter os (PoolShutdown cur) (Client h) w = sync_thread_pool_shutdown os cur h w"
| "pool_enter os PoolIsClosed (Client h) w =
     map_option (\<lambda>((r, st), w). (Return (PoolAnswer r st), w)) (sync_thread_pool_is_closed os h w)"
| "pool_enter os PoolWorkerCount (Client h) w =
     map_option (\<lambda>n. (Return (PoolAnswer n 0), w)) (sync_thread_pool_worker_count h w)"
| "pool_enter os PoolPendingCount (Client h) w =
     map_option (\<lambda>((r, st), w). (Return (PoolAnswer r st), w)) (sync_thread_pool_pending_count os h w)"
| "pool_enter os PoolFinalize (Client h) w =
     map_option (\<lambda>w. (Return PoolDropped, w)) (sync_thread_pool_finalize os h w)"
| "pool_enter _ _ _ _ = None"

text \<open>The core an agent works on.\<close>

fun pool_site :: "pool_agent \<Rightarrow> addr option" where
  "pool_site (Client h) = core h"
| "pool_site (Worker a cur) = Some a"
| "pool_site (Maker a) = Some a"

definition pool_resume ::
  "'v os \<Rightarrow> 'v pool_k \<Rightarrow> pool_agent \<Rightarrow> 'v pool_world \<Rightarrow> ((pool_ret, 'v pool_k) outcome \<times> 'v pool_world) option" where
  "pool_resume os k x w = do {
     a \<leftarrow> pool_site x;
     case k of
       SubmitK v error \<Rightarrow> sync_thread_pool_submit_wake os a v error w
     | ShutLockK \<Rightarrow> sync_thread_pool_shutdown_lock os a w
     | ShutWaitK status \<Rightarrow> sync_thread_pool_shutdown_wake os a status w
     | WorkLockK \<Rightarrow> sync_thread_pool_worker_lock os a w
     | WorkWaitK \<Rightarrow> sync_thread_pool_worker_wake os a w
     | WorkTaskK v \<Rightarrow> Some (sync_thread_pool_worker_task v w)
     | WorkLeaveK \<Rightarrow> sync_thread_pool_worker_leave os a w
     | MakeLockK status \<Rightarrow> sync_thread_pool_wait_workers_start os a status w
     | MakeWaitK status \<Rightarrow> sync_thread_pool_wait_workers_wake os a status w
   }"

text \<open>
  The operation a result of a continuation belongs to. The thread-local argument of the call
  is not remembered; the answer does not depend on it any more.
\<close>

fun pool_pending :: "'v pool_k \<Rightarrow> 'v pool_op" where
  "pool_pending (SubmitK v error) = PoolExecute v None"
| "pool_pending ShutLockK = PoolShutdown None"
| "pool_pending (ShutWaitK status) = PoolShutdown None"
| "pool_pending (MakeLockK status) = PoolMake"
| "pool_pending (MakeWaitK status) = PoolMake"
| "pool_pending _ = PoolWorker"

fun pool_drops :: "'v pool_op \<Rightarrow> bool" where
  "pool_drops PoolFinalize = True"
| "pool_drops PoolWorker = True"
| "pool_drops PoolMake = True"
| "pool_drops _ = False"

fun pool_born :: "pool_ret \<Rightarrow> pool_agent option" where
  "pool_born (PoolHandle g st) = g"
| "pool_born _ = None"

definition pool_monitor where
  "pool_monitor a = \<lparr>site = a, may = pool_may, enter = pool_enter, resume = pool_resume,
     pending = pool_pending, drops = pool_drops, born = pool_born\<rparr>"

end
