(* ===== verification/Sync_ThreadPool_Invariant.thy ===== *)
theory Sync_ThreadPool_Invariant
  imports Sync_ThreadPool
begin

text \<open>
  The invariant of the thread pool and that every piece of code keeps it: who holds a
  reference, where every submitted task is, and which workers are alive. An agent is seen
  with what it still has to do (its tag); whether it is asleep does not matter here.
\<close>

section \<open>Specification\<close>

type_synonym 'v pool_tag = "pool_agent \<times> 'v pool_k option"

text \<open>The kinds of agents; a worker is live until it has left the loop.\<close>

fun is_client :: "'v pool_tag \<Rightarrow> bool" where
  "is_client (Client h, t) = True"
| "is_client _ = False"

fun is_maker :: "'v pool_tag \<Rightarrow> bool" where
  "is_maker (Maker a, t) = True"
| "is_maker _ = False"

fun is_worker :: "'v pool_tag \<Rightarrow> bool" where
  "is_worker (Worker a cur, t) = True"
| "is_worker _ = False"

fun is_live :: "'v pool_tag \<Rightarrow> bool" where
  "is_live (Worker a cur, Some WorkLeaveK) = False"
| "is_live (Worker a cur, t) = True"
| "is_live _ = False"

text \<open>The task a worker has taken from the queue and not yet run.\<close>

fun task_of :: "'v pool_tag \<Rightarrow> 'v multiset" where
  "task_of (x, Some (WorkTaskK v)) = {#v#}"
| "task_of _ = {#}"

definition clients :: "'v pool_tag multiset \<Rightarrow> nat" where
  "clients A = size (filter_mset is_client A)"

definition makers :: "'v pool_tag multiset \<Rightarrow> nat" where
  "makers A = size (filter_mset is_maker A)"

definition workers :: "'v pool_tag multiset \<Rightarrow> nat" where
  "workers A = size (filter_mset is_worker A)"

definition lives :: "'v pool_tag multiset \<Rightarrow> nat" where
  "lives A = size (filter_mset is_live A)"

definition inflight :: "'v pool_tag multiset \<Rightarrow> 'v multiset" where
  "inflight A = sum_mset (image_mset task_of A)"

text \<open>Which agent can have which continuation.\<close>

fun tag_ok :: "addr \<Rightarrow> 'v pool_tag \<Rightarrow> bool" where
  "tag_ok a (Client h, None) \<longleftrightarrow> core h = Some a"
| "tag_ok a (Client h, Some k) \<longleftrightarrow> core h = Some a \<and> (case k of SubmitK v e \<Rightarrow> True | ShutLockK \<Rightarrow> True | ShutWaitK st \<Rightarrow> True | _ \<Rightarrow> False)"
| "tag_ok a (Worker b cur, Some k) \<longleftrightarrow> b = a \<and> cur = Some a \<and> (case k of WorkLockK \<Rightarrow> True | WorkWaitK \<Rightarrow> True | WorkTaskK v \<Rightarrow> True | WorkLeaveK \<Rightarrow> True | _ \<Rightarrow> False)"
| "tag_ok a (Maker b, Some k) \<longleftrightarrow> b = a \<and> (case k of MakeLockK st \<Rightarrow> True | MakeWaitK st \<Rightarrow> True | _ \<Rightarrow> False)"
| "tag_ok a _ \<longleftrightarrow> False"

text \<open>The tasks that a completed operation has put into the queue, or refused.\<close>

fun accepted_by :: "'v pool_op \<times> pool_ret \<Rightarrow> 'v list" where
  "accepted_by (PoolTryExecute v cur, Submitted r e) = (if r = 0 then [v] else [])"
| "accepted_by (PoolExecute v cur, Submitted r e) = (if r = 0 then [v] else [])"
| "accepted_by _ = []"

fun rejected_by :: "'v pool_op \<times> pool_ret \<Rightarrow> 'v list" where
  "rejected_by (PoolTryExecute v cur, Submitted r e) = (if r = 0 then [] else [v])"
| "rejected_by (PoolExecute v cur, Submitted r e) = (if r = 0 then [] else [v])"
| "rejected_by _ = []"

definition accepted :: "('v pool_op \<times> pool_ret) list \<Rightarrow> 'v list" where
  "accepted ps = concat (map accepted_by ps)"

definition rejected :: "('v pool_op \<times> pool_ret) list \<Rightarrow> 'v list" where
  "rejected ps = concat (map rejected_by ps)"

text \<open>A shutdown that has succeeded.\<close>

fun stops :: "'v pool_op \<times> pool_ret \<Rightarrow> bool" where
  "stops (PoolShutdown cur, PoolAnswer r st) = (r = 0 \<and> st = 0)"
| "stops _ = False"

text \<open>The closures run, in order.\<close>

definition runs :: "'v history \<Rightarrow> 'v list" where
  "runs ks = concat (map (\<lambda>(k, st). case k of RunClosure v \<Rightarrow> [v] | _ \<Rightarrow> []) ks)"

definition pool_resources :: "addr \<Rightarrow> resource list" where
  "pool_resources a = [MutexRes a, CondRes a NotEmpty, CondRes a NotFull, CondRes a Stopped,
     BlockRes CoreBlock, BlockRes SlotsBlock]"

definition pool_queue :: "'v sync_thread_pool_core_t \<Rightarrow> 'v list" where
  "pool_queue c = ring_list (tasks c) (head c) (queued c)"

text \<open>The core, given the agents; \<open>fails\<close>: the constructor could not start all workers.\<close>

definition pool_shape :: "bool \<Rightarrow> int \<Rightarrow> 'v sync_thread_pool_core_t \<Rightarrow> 'v pool_tag multiset \<Rightarrow> bool" where
  "pool_shape fails n c A \<longleftrightarrow>
     refs c = of_nat (size A) \<and> ring_ok (tasks c) (capacity c) (head c) (tail c) (queued c) \<and>
     accepting c \<in> {0, 1} \<and> 0 < n \<and> n \<le> SYNC_THREAD_POOL_MAX_WORKER_COUNT \<and> worker_count c = n \<and>
     live_workers c = int (lives A) \<and> int (workers A) \<le> n \<and>
     (int (lives A) < n \<longrightarrow> queued c = 0 \<and> accepting c = 0) \<and> handles c \<le> INT32_MAX \<and>
     (fails \<longrightarrow> clients A = 0 \<and> makers A \<le> 1 \<and> accepting c = 0 \<and> queued c = 0) \<and>
     (\<not> fails \<longrightarrow> makers A = 0 \<and> handles c = int (clients A) \<and> (clients A = 0 \<longrightarrow> accepting c = 0))"

text \<open>The accounts of the tasks: \<open>R\<close> and \<open>D\<close> are the runs and releases before the pool was
  made, \<open>Q\<close> the queue, \<open>ks\<close> the log. In every prefix of the log the tasks released have been
  run before, or were refused.\<close>

definition pool_books ::
  "'v multiset \<Rightarrow> 'v multiset \<Rightarrow> 'v multiset \<Rightarrow> 'v history \<Rightarrow> 'v pool_tag multiset \<Rightarrow>
   ('v pool_op \<times> pool_ret) list \<Rightarrow> bool" where
  "pool_books R D Q ks A ps \<longleftrightarrow>
     mset (runs ks) + inflight A + Q = R + mset (accepted ps) \<and>
     mset (decrefs ks) + R = D + mset (runs ks) + mset (rejected ps) \<and>
     (\<forall>m. mset (decrefs (take m ks)) \<subseteq># D + mset (runs (take m ks)) + mset (rejected ps)) \<and>
     (list_ex stops ps \<longrightarrow> lives A = 0)"

definition pool_inv ::
  "bool \<Rightarrow> int \<Rightarrow> 'v multiset \<Rightarrow> 'v multiset \<Rightarrow> addr \<Rightarrow> (resource \<Rightarrow> int) \<Rightarrow> 'v pool_world \<Rightarrow>
   'v pool_tag multiset \<Rightarrow> ('v pool_op \<times> pool_ret) list \<Rightarrow> bool" where
  "pool_inv fails n R D a B w A ps \<longleftrightarrow>
     (\<forall>x \<in># A. tag_ok a x) \<and> mutex_state a w = Some False \<and>
     (if A = {#} then mem w a = None \<and> (\<forall>r. balance r (calls w) = B r) \<and> pool_books R D {#} (calls w) A ps
      else \<exists>c. mem w a = Some c \<and> pool_shape fails n c A \<and>
        pool_books R D (mset (pool_queue c)) (calls w) A ps \<and>
        (\<forall>r. balance r (calls w) = B r + owning (pool_resources a) r))"

text \<open>The core after a worker took a task, after a submission.\<close>

definition popped :: "'v sync_thread_pool_core_t \<Rightarrow> 'v sync_thread_pool_core_t" where
  "popped c = c\<lparr>tasks := (tasks c)[nat (head c) := None], head := (head c + 1) mod capacity c, queued := queued c - 1\<rparr>"

fun submits :: "'v pool_op \<Rightarrow> 'v option" where
  "submits (PoolTryExecute v cur) = Some v"
| "submits (PoolExecute v cur) = Some v"
| "submits _ = None"

definition pushed :: "'v \<Rightarrow> 'v sync_thread_pool_core_t \<Rightarrow> 'v sync_thread_pool_core_t" where
  "pushed v c = c\<lparr>tasks := (tasks c)[nat (tail c) := Some v], tail := (tail c + 1) mod capacity c, queued := queued c + 1\<rparr>"

text \<open>Calls that keep the mutex and the resources as they are.\<close>

definition benign :: "addr \<Rightarrow> 'v history \<Rightarrow> bool" where
  "benign a ks \<longleftrightarrow> mutex_run a False ks = Some False \<and> (\<forall>r. balance r ks = 0) \<and> runs ks = [] \<and> decrefs ks = []"

text \<open>The calls \<open>ls\<close> of a step release only what they have run before, or refused.\<close>

definition released_late :: "'v history \<Rightarrow> 'v list \<Rightarrow> bool" where
  "released_late ls vs \<longleftrightarrow> (\<forall>m. mset (decrefs (take m ls)) \<subseteq># mset (runs (take m ls)) + mset vs)"

text \<open>A new pool: its first handle, or the constructor that waits, and its workers.\<close>

definition pool_boot ::
  "'v os \<Rightarrow> int \<Rightarrow> int \<Rightarrow> 'v pool_world \<Rightarrow>
   (bool \<times> ('v, _, 'v pool_op, pool_agent, 'v pool_k, pool_ret) config) option" where
  "pool_boot os n cap w = do {
     (r, w') \<leftarrow> sync_thread_pool_new os n cap w;
     case r of
       Refused st \<Rightarrow> None
     | Made h m \<Rightarrow> Some (False, \<lparr>wrld = w',
         agents = add_mset (Client h, Ready) (replicate_mset m (sync_thread_pool_worker_start (fresh w))), past = []\<rparr>)
     | Failing st m \<Rightarrow> Some (True, \<lparr>wrld = w',
         agents = add_mset (Maker (fresh w), Runnable (MakeLockK st))
           (replicate_mset m (sync_thread_pool_worker_start (fresh w))), past = []\<rparr>)
   }"

section \<open>Lemmas\<close>

subsection \<open>Counting agents\<close>

lemma count_simps [simp]:
  "clients {#} = 0" "clients (add_mset x A) = (if is_client x then 1 else 0) + clients A" "clients (A + B) = clients A + clients B"
  "makers {#} = 0" "makers (add_mset x A) = (if is_maker x then 1 else 0) + makers A" "makers (A + B) = makers A + makers B"
  "workers {#} = 0" "workers (add_mset x A) = (if is_worker x then 1 else 0) + workers A" "workers (A + B) = workers A + workers B"
  "lives {#} = 0" "lives (add_mset x A) = (if is_live x then 1 else 0) + lives A" "lives (A + B) = lives A + lives B"
  "inflight {#} = {#}" "inflight (add_mset x A) = task_of x + inflight A" "inflight (A + B) = inflight A + inflight B"
  by (simp_all add: clients_def makers_def workers_def lives_def inflight_def)

lemma pool_past_simps [simp]:
  "accepted [] = []" "accepted (ps @ qs) = accepted ps @ accepted qs" "accepted (x # ps) = accepted_by x @ accepted ps"
  "rejected [] = []" "rejected (ps @ qs) = rejected ps @ rejected qs" "rejected (x # ps) = rejected_by x @ rejected ps"
  "runs [] = []" "runs (ks @ ls) = runs ks @ runs ls"
  "runs ((k, st) # ks) = (case k of RunClosure v \<Rightarrow> v # runs ks | _ \<Rightarrow> runs ks)"
  by (auto simp: accepted_def rejected_def runs_def split: call.splits)

lemma agents_sum: "size A = clients A + workers A + makers A"
proof (induction A)
  case (add x A)
  then show ?case by (cases x rule: is_client.cases; cases x rule: is_maker.cases; cases x rule: is_worker.cases) auto
qed simp

lemma lives_workers: "lives A \<le> workers A"
proof (induction A)
  case (add x A)
  then show ?case by (cases x rule: is_live.cases) auto
qed simp

lemma lives_inflight: "lives A = 0 \<Longrightarrow> inflight A = {#} \<or> \<not> (\<forall>x \<in># A. tag_ok a x)"
proof (induction A)
  case (add x A)
  then show ?case by (cases x rule: task_of.cases; cases "fst x") auto
qed simp

subsection \<open>What keeps the invariant\<close>

lemma mset_swap:
  fixes r f q q' t n :: "'a multiset"
  assumes "r + (t + f) + q = s + p" "r' + x + q' = t + q + n"
  shows "(r + r') + (f + x) + q' = s + (p + n)"
proof -
  have "(r + r') + (f + x) + q' = r + f + (r' + x + q')" by (simp add: ac_simps)
  also have "\<dots> = (r + (t + f) + q) + n" by (simp only: assms(2)) (simp add: ac_simps)
  also have "\<dots> = s + (p + n)" by (simp only: assms(1)) (simp add: add.assoc)
  finally show ?thesis .
qed

lemma decrefs_prefix: "mset (decrefs (take m ks)) \<subseteq># mset (decrefs ks)"
proof -
  have "decrefs ks = decrefs (take m ks) @ decrefs (drop m ks)" by (metis append_take_drop_id decrefs_simps(2))
  then show ?thesis by simp
qed

lemma released_late_refused: "runs ls = [] \<Longrightarrow> mset (decrefs ls) = mset (runs ls) + mset vs \<Longrightarrow> released_late ls vs"
  using decrefs_prefix [of _ ls] by (auto simp: released_late_def intro: subset_mset.order_trans [OF _ mset_subset_eq_add_right])

lemma released_late_task: "released_late [(RunClosure v, 0), (Decref v, 0)] []"
  by (auto simp: released_late_def take_Cons' )

lemma books_late:
  assumes "\<forall>m. mset (decrefs (take m ks)) \<subseteq># D + mset (runs (take m ks)) + mset vs" "released_late ls us"
    "mset (decrefs ks) \<subseteq># D + mset (runs ks) + mset vs"
  shows "mset (decrefs (take m (ks @ ls))) \<subseteq># D + mset (runs (take m (ks @ ls))) + mset (vs @ us)"
proof (cases "m \<le> length ks")
  case True
  then show ?thesis using assms(1) by (auto intro: subset_mset.order_trans [of _ "D + mset (runs (take m ks)) + mset vs"])
next
  case False
  have "mset (decrefs ks) + mset (decrefs (take (m - length ks) ls)) \<subseteq>#
      (D + mset (runs ks) + mset vs) + (mset (runs (take (m - length ks) ls)) + mset us)"
    using assms(2,3) unfolding released_late_def by (intro subset_mset.add_mono) auto
  then show ?thesis using False by (simp add: ac_simps)
qed

lemma pool_books_keep:
  assumes "pool_books R D Q ks (add_mset x A) ps"
    and "mset (runs ls) + inflight X + Q' = task_of x + Q + mset (accepted new)"
    and "mset (decrefs ls) = mset (runs ls) + mset (rejected new)" "runs ls = [] \<or> released_late ls (rejected new)"
    and "list_ex stops new \<Longrightarrow> lives (A + X) = 0" "lives X \<le> lives {#x#}"
  shows "pool_books R D Q' (ks @ ls) (A + X) (ps @ new)"
proof -
  have b: "mset (runs ks) + (task_of x + inflight A) + Q = R + mset (accepted ps)"
    "mset (decrefs ks) + R = D + mset (runs ks) + mset (rejected ps)"
    "list_ex stops ps \<Longrightarrow> lives (add_mset x A) = 0"
    "\<forall>m. mset (decrefs (take m ks)) \<subseteq># D + mset (runs (take m ks)) + mset (rejected ps)"
    using assms(1) by (auto simp: pool_books_def)
  have "mset (decrefs ks) + mset (decrefs ls) + R = D + (mset (runs ks) + mset (runs ls)) + (mset (rejected ps) + mset (rejected new))"
    using b(2) assms(3) by (metis (no_types, lifting) add.assoc add.commute)
  moreover have "list_ex stops (ps @ new) \<Longrightarrow> lives (A + X) = 0"
    using b(3) assms(5,6) by auto
  moreover have "released_late ls (rejected new)" using assms(3,4) released_late_refused by blast
  moreover have "mset (decrefs ks) \<subseteq># D + mset (runs ks) + mset (rejected ps)"
    using b(4) by (metis take_all order_refl)
  ultimately show ?thesis using mset_swap [OF b(1) assms(2)] books_late [OF b(4)]
    by (simp only: pool_books_def) auto
qed

lemma pool_invD:
  assumes "pool_inv fails n R D a B w (add_mset x A) ps"
  obtains c where "mem w a = Some c" "pool_shape fails n c (add_mset x A)" "tag_ok a x" "\<forall>y \<in># A. tag_ok a y"
    "pool_books R D (mset (pool_queue c)) (calls w) (add_mset x A) ps" "mutex_state a w = Some False"
    "\<forall>r. balance r (calls w) = B r + owning (pool_resources a) r"
  using assms by (auto simp: pool_inv_def)

lemma pool_keep:
  assumes inv: "pool_inv fails n R D a B w (add_mset x A) ps" and c: "mem w a = Some c"
    and w': "mem w' a = Some c'" "calls w' = calls w @ ks" "mutex_run a False ks = Some False" "\<And>r. balance r ks = 0"
    and X: "A + X \<noteq> {#}" "\<forall>y \<in># X. tag_ok a y" "pool_shape fails n c (add_mset x A) \<Longrightarrow> pool_shape fails n c' (A + X)"
    and books: "mset (runs ks) + inflight X + mset (pool_queue c') = task_of x + mset (pool_queue c) + mset (accepted new)"
      "mset (decrefs ks) = mset (runs ks) + mset (rejected new)" "runs ks = [] \<or> released_late ks (rejected new)"
      "list_ex stops new \<Longrightarrow> lives (A + X) = 0" "lives X \<le> lives {#x#}"
  shows "pool_inv fails n R D a B w' (A + X) (ps @ new)"
proof (rule pool_invD [OF inv])
  fix c2
  assume *: "mem w a = Some c2" "pool_shape fails n c2 (add_mset x A)" "\<forall>y \<in># A. tag_ok a y"
    "pool_books R D (mset (pool_queue c2)) (calls w) (add_mset x A) ps" "mutex_state a w = Some False"
    "\<forall>r. balance r (calls w) = B r + owning (pool_resources a) r"
  have e: "c2 = c" using *(1) c by simp
  show ?thesis
    using pool_books_keep [OF *(4) [unfolded e] books] * X w' e
    by (auto simp: pool_inv_def mutex_state_def mutex_run_append)
qed

text \<open>The core is as before and an agent goes on, or has returned.\<close>

lemma pool_same:
  assumes inv: "pool_inv fails n R D a B w (add_mset x A) ps" and c: "mem w a = Some c"
    and w': "mem w' a = Some (c\<lparr>accepting := q\<rparr>)" "q = 0 \<or> q = accepting c" "calls w' = calls w @ ks" "mutex_run a False ks = Some False"
      "\<And>r. balance r ks = 0"
    and y: "tag_ok a y" "is_client y = is_client x" "is_maker y = is_maker x" "is_worker y = is_worker x" "is_live y = is_live x"
      "task_of x = {#}" "task_of y = {#}"
    and books: "runs ks = []" "accepted new = []" "mset (decrefs ks) = mset (rejected new)"
      "list_ex stops new \<Longrightarrow> lives (add_mset x A) = 0"
  shows "pool_inv fails n R D a B w' (add_mset y A) (ps @ new)"
proof -
  have "pool_inv fails n R D a B w' (A + {#y#}) (ps @ new)"
    by (rule pool_keep [OF inv c w'(1,3,4,5)])
      (use w'(2) y books in \<open>auto simp: pool_shape_def pool_queue_def split: if_splits\<close>)
  then show ?thesis by simp
qed

subsection \<open>Workers\<close>

lemma pool_tags_simps [simp]:
  "image_mset tag (settle (pool_monitor a) op x (Return r)) =
     (if pool_drops op then {#} else {#(x, None)#}) + (case pool_born r of None \<Rightarrow> {#} | Some g \<Rightarrow> {#(g, None)#})"
  "image_mset tag (settle (pool_monitor a) op x (Wait cv k)) = {#(x, Some k)#}"
  "image_mset tag (settle (pool_monitor a) op x (Again k)) = {#(x, Some k)#}"
  by (simp_all add: settle_def pool_monitor_def split: option.splits)

lemmas pool_lock_defs = sync_thread_pool_lock_or_abort_def sync_thread_pool_unlock_or_abort_def

lemma pool_take:
  assumes sh: "pool_shape fails n c A" and q: "queued c \<noteq> 0"
  obtains v where "cell_get (tasks c) (head c) = Some (Some v)"
    "cell_set (tasks c) (head c) None = Some ((tasks c)[nat (head c) := None])"
    "i32_add (head c) 1 = Some (head c + 1)" "i32_rem (head c + 1) (capacity c) = Some ((head c + 1) mod capacity c)"
    "i32_sub (queued c) 1 = Some (queued c - 1)" "pool_queue c = v # pool_queue (popped c)"
proof -
  have ok: "ring_ok (tasks c) (capacity c) (head c) (tail c) (queued c)" using sh by (simp add: pool_shape_def)
  have pos: "0 < queued c" using q ring_okD(6) [OF ok] by simp
  obtain v where v: "tasks c ! nat (head c) = Some v"
    "ring_list (tasks c) (head c) (queued c) = v # ring_list (tasks c) ((head c + 1) mod capacity c) (queued c - 1)"
    by (rule ring_pop_head [OF ok pos])
  show thesis
    by (rule that [of v]) (use v ring_pop_code [OF ok q] ring_list_clear [OF ok pos] in \<open>simp_all add: pool_queue_def popped_def\<close>)
qed

lemma worker_loop_sleep:
  assumes "mem w a = Some c" "queued c = 0" "accepting c \<noteq> 0"
  shows "sync_thread_pool_worker_loop os a w = Some (Wait NotEmpty WorkWaitK, w\<lparr>calls := calls w @ [(CondSleep a NotEmpty, 0)]\<rparr>)"
  using assms by (simp add: sync_thread_pool_worker_loop_def os_defs)

lemma worker_loop_leave:
  assumes m: "mem w a = Some c" "queued c = 0" "accepting c = 0"
    and sh: "pool_shape fails n c (add_mset x A)" "is_live x"
    and run: "sync_thread_pool_worker_loop os a w = Some (out, w')"
  shows "out = Again WorkLeaveK"
    "w' = w\<lparr>calls := calls w @ [(CondBroadcast a Stopped, 0), (MutexUnlock a, 0)],
        mem := (mem w)(a \<mapsto> c\<lparr>live_workers := live_workers c - 1\<rparr>)\<rparr>"
proof -
  have "0 < live_workers c" "live_workers c \<le> 64"
    using sh lives_workers [of "add_mset x A"] by (auto simp: pool_shape_def SYNC_THREAD_POOL_MAX_WORKER_COUNT_def)
  then have "i32_sub (live_workers c) 1 = Some (live_workers c - 1)"
    by (simp add: i32_sub_def i32_def INT32_MIN_def INT32_MAX_def)
  then show "out = Again WorkLeaveK"
    "w' = w\<lparr>calls := calls w @ [(CondBroadcast a Stopped, 0), (MutexUnlock a, 0)],
        mem := (mem w)(a \<mapsto> c\<lparr>live_workers := live_workers c - 1\<rparr>)\<rparr>"
    using m run by (auto simp: sync_thread_pool_worker_loop_def pool_lock_defs os_defs)
qed

lemma worker_loop_take:
  assumes m: "mem w a = Some c" "queued c \<noteq> 0" and sh: "pool_shape fails n c A"
    and run: "sync_thread_pool_worker_loop os a w = Some (out, w')"
  obtains v where "out = Again (WorkTaskK v)" "pool_queue c = v # pool_queue (popped c)"
    "w' = w\<lparr>calls := calls w @ [(CondSignal a NotFull, 0), (MutexUnlock a, 0)], mem := (mem w)(a \<mapsto> popped c)\<rparr>"
proof (rule pool_take [OF sh m(2)])
  fix v
  assume *: "cell_get (tasks c) (head c) = Some (Some v)"
    "cell_set (tasks c) (head c) None = Some ((tasks c)[nat (head c) := None])"
    "i32_add (head c) 1 = Some (head c + 1)" "i32_rem (head c + 1) (capacity c) = Some ((head c + 1) mod capacity c)"
    "i32_sub (queued c) 1 = Some (queued c - 1)" "pool_queue c = v # pool_queue (popped c)"
  show thesis
    by (rule that [of v]) (use * m run in \<open>auto simp: sync_thread_pool_worker_loop_def pool_lock_defs os_defs popped_def\<close>)
qed

lemma shape_leave:
  assumes "pool_shape fails n c (add_mset (Worker a cur, Some k) A)" "is_live (Worker a cur, Some k)" "queued c = 0" "accepting c = 0"
  shows "pool_shape fails n (c\<lparr>live_workers := live_workers c - 1\<rparr>) (add_mset (Worker a cur, Some WorkLeaveK) A)"
  using assms by (cases fails) (simp_all add: pool_shape_def)

lemma shape_take:
  assumes "pool_shape fails n c (add_mset (Worker a cur, Some k) A)" "is_live (Worker a cur, Some k)" "queued c \<noteq> 0"
  shows "pool_shape fails n (popped c) (add_mset (Worker a cur, Some (WorkTaskK v)) A)"
proof -
  have ok: "ring_ok (tasks c) (capacity c) (head c) (tail c) (queued c)" using assms(1) by (simp add: pool_shape_def)
  have "0 < queued c" using assms(3) ring_okD(6) [OF ok] by simp
  from ring_pop_ok [OF ok this] show ?thesis
    using assms by (cases fails) (simp_all add: pool_shape_def popped_def)
qed

lemma worker_event:
  assumes "e = (MutexLock a, 0) \<or> e = (CondWait a cv, 0)"
  shows "acquired e r = 0" "runs [e] = []" "decrefs [e] = []" "mutex_step a e False = Some True"
  using assms by auto

lemma worker_loop_inv:
  assumes inv: "pool_inv fails n R D a B w (add_mset (Worker a cur, Some k) A) ps" and k: "k = WorkLockK \<or> k = WorkWaitK"
    and ev: "e = (MutexLock a, 0) \<or> e = (CondWait a NotEmpty, 0)"
    and run: "sync_thread_pool_worker_loop os a (w\<lparr>calls := calls w @ [e]\<rparr>) = Some (out, w')"
  shows "pool_inv fails n R D a B w' (A + image_mset tag (settle (pool_monitor a) PoolWorker (Worker a cur) out))
    (record_past PoolWorker out ps)"
proof -
  obtain c where c: "mem w a = Some c" "pool_shape fails n c (add_mset (Worker a cur, Some k) A)"
    by (rule pool_invD [OF inv])
  have "tag_ok a (Worker a cur, Some k)" by (rule pool_invD [OF inv])
  then have k': "k \<noteq> WorkLeaveK" "task_of (Worker a cur, Some k) = {#}" "is_live (Worker a cur, Some k)" "cur = Some a" using k by auto
  have m: "mem (w\<lparr>calls := calls w @ [e]\<rparr>) a = Some c" using c(1) by simp
  note ev = worker_event [OF ev]
  consider "queued c = 0" "accepting c \<noteq> 0" | "queued c = 0" "accepting c = 0" | "queued c \<noteq> 0" by blast
  then show ?thesis
  proof cases
    case 1
    then have o: "out = Wait NotEmpty WorkWaitK" "calls w' = calls w @ [e, (CondSleep a NotEmpty, 0)]" "mem w' = mem w"
      using run worker_loop_sleep [OF m, of os] by auto
    have "pool_inv fails n R D a B w' (add_mset (Worker a cur, Some WorkWaitK) A) (ps @ [])"
      by (rule pool_same [OF inv c(1), where ks = "[e, (CondSleep a NotEmpty, 0)]" and q = "accepting c"])
        (use o(2,3) c(1) k' ev in \<open>simp_all add: runs_def decrefs_def\<close>)
    then show ?thesis using o(1) by (simp add: record_past_def)
  next
    case 2
    let ?c = "c\<lparr>live_workers := live_workers c - 1\<rparr>"
    have o: "out = Again WorkLeaveK" "calls w' = calls w @ [e, (CondBroadcast a Stopped, 0), (MutexUnlock a, 0)]"
      "mem w' a = Some ?c"
      using worker_loop_leave [OF m 2 c(2) k'(3) run] by simp_all
    have "pool_inv fails n R D a B w' (A + {#(Worker a cur, Some WorkLeaveK)#}) (ps @ [])"
      by (rule pool_keep [OF inv c(1) o(3,2)])
        (use k' shape_leave [OF c(2) k'(3) 2] ev in \<open>simp_all add: pool_queue_def runs_def decrefs_def\<close>)
    then show ?thesis using o(1) by (simp add: record_past_def)
  next
    case 3
    obtain v where v: "out = Again (WorkTaskK v)" "pool_queue c = v # pool_queue (popped c)" "mem w' a = Some (popped c)"
      "calls w' = calls w @ [e, (CondSignal a NotFull, 0), (MutexUnlock a, 0)]"
      by (rule worker_loop_take [OF m 3 c(2) run]) simp
    have "pool_inv fails n R D a B w' (A + {#(Worker a cur, Some (WorkTaskK v))#}) (ps @ [])"
      by (rule pool_keep [OF inv c(1) v(3,4)])
        (use v(2) k' shape_take [OF c(2) k'(3) 3] ev in \<open>simp_all add: runs_def decrefs_def\<close>)
    then show ?thesis using v(1) by (simp add: record_past_def)
  qed
qed

lemma worker_task_inv:
  assumes inv: "pool_inv fails n R D a B w (add_mset (Worker a cur, Some (WorkTaskK v)) A) ps"
    and run: "sync_thread_pool_worker_task v w = (out, w')"
  shows "pool_inv fails n R D a B w' (A + image_mset tag (settle (pool_monitor a) PoolWorker (Worker a cur) out))
    (record_past PoolWorker out ps)"
proof -
  obtain c where c: "mem w a = Some c" by (rule pool_invD [OF inv])
  have "tag_ok a (Worker a cur, Some (WorkTaskK v))" by (rule pool_invD [OF inv])
  then have cur: "cur = Some a" by simp
  have o: "out = Again WorkLockK" "calls w' = calls w @ [(RunClosure v, 0), (Decref v, 0)]" "mem w' a = Some c"
    using run c by (auto simp: sync_thread_pool_worker_task_def run_closure_def os_defs)
  have "pool_inv fails n R D a B w' (A + {#(Worker a cur, Some WorkLockK)#}) (ps @ [])"
    by (rule pool_keep [OF inv c o(3,2)]) (simp_all add: pool_shape_def cur released_late_task)
  then show ?thesis using o(1) by (simp add: record_past_def)
qed

lemma release_eq:
  assumes m: "mem w a = Some c" and run: "sync_thread_pool_core_release os a w = Some w'"
  shows "refs c = 1 \<Longrightarrow> queued c = 0 \<Longrightarrow> mem w' a = None"
    "refs c = 1 \<Longrightarrow> queued c = 0 \<Longrightarrow> calls w' = calls w @ [(Free SlotsBlock, 0), (CondDestroy a Stopped, 0),
       (CondDestroy a NotFull, 0), (CondDestroy a NotEmpty, 0), (MutexDestroy a, 0), (Free CoreBlock, 0)]"
    "refs c \<noteq> 1 \<Longrightarrow> mem w' a = Some (c\<lparr>refs := refs c - 1\<rparr>)"
    "refs c \<noteq> 1 \<Longrightarrow> calls w' = calls w"
  using m run by (auto simp: sync_thread_pool_core_release_def os_defs split: if_splits)

lemma shape_refs:
  assumes sh: "pool_shape fails n c (add_mset x A)"
  shows "refs c = 1 \<longleftrightarrow> A = {#}" "refs c = of_nat (size A) + 1"
proof -
  have "clients A + workers A + makers A \<le> nat INT32_MAX + 64 + 1"
  proof (cases fails)
    case True
    then have "clients A = 0" "makers A \<le> 1" "workers A \<le> 64"
      using sh by (auto simp: pool_shape_def SYNC_THREAD_POOL_MAX_WORKER_COUNT_def split: if_splits)
    then show ?thesis by simp
  next
    case False
    then have "int (clients A) \<le> INT32_MAX" "makers A = 0" "workers A \<le> 64"
      using sh by (auto simp: pool_shape_def SYNC_THREAD_POOL_MAX_WORKER_COUNT_def split: if_splits)
    then show ?thesis by (simp add: INT32_MAX_def)
  qed
  then have "size A < 2 ^ 32" by (simp add: agents_sum INT32_MAX_def)
  then show "refs c = 1 \<longleftrightarrow> A = {#}" "refs c = of_nat (size A) + 1"
    using sh refs_zero_iff [of "size A"] by (auto simp: pool_shape_def)
qed

lemma pool_drop:
  assumes inv: "pool_inv fails n R D a B w (add_mset x A) ps" and c: "mem w a = Some c"
    and w1: "mem w1 a = Some c1" "calls w1 = calls w @ ks" "mutex_run a False ks = Some False" "\<And>r. balance r ks = 0"
    and c1: "refs c1 = refs c" "queued c1 = queued c" "pool_queue c1 = pool_queue c"
      "A \<noteq> {#} \<Longrightarrow> pool_shape fails n (c1\<lparr>refs := of_nat (size A)\<rparr>) A"
    and x: "\<not> is_live x" "task_of x = {#}"
    and books: "runs ks = []" "decrefs ks = []" "accepted new = []" "rejected new = []" "\<not> list_ex stops new"
    and run: "sync_thread_pool_core_release os a w1 = Some w'"
  shows "pool_inv fails n R D a B w' A (ps @ new)"
proof (rule pool_invD [OF inv])
  fix c2
  assume *: "mem w a = Some c2" "pool_shape fails n c2 (add_mset x A)" "\<forall>y \<in># A. tag_ok a y"
    "pool_books R D (mset (pool_queue c2)) (calls w) (add_mset x A) ps" "mutex_state a w = Some False"
    "\<forall>r. balance r (calls w) = B r + owning (pool_resources a) r"
  have e: "c2 = c" using *(1) c by simp
  have b: "pool_books R D (mset (pool_queue c)) (calls w @ ls) A (ps @ new)" if "runs ls = []" "decrefs ls = []" for ls
  proof -
    have "pool_books R D (mset (pool_queue c)) (calls w @ ls) (A + {#}) (ps @ new)"
      by (rule pool_books_keep [OF *(4) [unfolded e]]) (use x books that in \<open>auto simp: list_ex_iff\<close>)
    then show ?thesis by simp
  qed
  show ?thesis
  proof (cases "A = {#}")
    case True
    then have r: "refs c1 = 1" using shape_refs(1) [OF *(2)] e c1(1) by simp
    have q: "queued c = 0" using *(2) e x True by (auto simp: pool_shape_def)
    then have "pool_queue c = []" by (simp add: pool_queue_def ring_list_empty)
    then show ?thesis
      using release_eq(1,2) [OF w1(1) run r] q c1(2) True w1(2-4) *(5,6)
        b [of "ks @ [(Free SlotsBlock, 0), (CondDestroy a Stopped, 0), (CondDestroy a NotFull, 0),
          (CondDestroy a NotEmpty, 0), (MutexDestroy a, 0), (Free CoreBlock, 0)]"] books(1,2)
      by (auto simp: pool_inv_def mutex_state_def mutex_run_append pool_resources_def)
  next
    case False
    then have r: "refs c1 \<noteq> 1" "refs c1 - 1 = of_nat (size A)" using shape_refs [OF *(2)] e c1(1) by simp_all
    show ?thesis
      using release_eq(3,4) [OF w1(1) run r(1)] r(2) c1 False w1(2-4) *(3,5,6) b [of ks] books(1,2)
      by (auto simp: pool_inv_def mutex_state_def mutex_run_append pool_queue_def)
  qed
qed

lemma worker_leave_inv:
  assumes inv: "pool_inv fails n R D a B w (add_mset (Worker a cur, Some WorkLeaveK) A) ps"
    and run: "sync_thread_pool_worker_leave os a w = Some (out, w')"
  shows "pool_inv fails n R D a B w' (A + image_mset tag (settle (pool_monitor a) PoolWorker (Worker a cur) out))
    (record_past PoolWorker out ps)"
proof -
  obtain c where c: "mem w a = Some c" "pool_shape fails n c (add_mset (Worker a cur, Some WorkLeaveK) A)"
    by (rule pool_invD [OF inv])
  have o: "out = Return WorkerDone" "sync_thread_pool_core_release os a w = Some w'"
    using run by (auto simp: sync_thread_pool_worker_leave_def)
  have "pool_inv fails n R D a B w' A (ps @ [(PoolWorker, WorkerDone)])"
    by (rule pool_drop [OF inv c(1) c(1), where ks = "[]"])
      (use o(2) c(2) in \<open>auto simp: pool_shape_def split: if_splits\<close>)
  then show ?thesis using o(1) by (simp add: record_past_def)
qed

subsection \<open>Submitting\<close>

lemma submits_past:
  assumes "submits op = Some v"
  shows "accepted_by (op, Submitted r e) = (if r = 0 then [v] else [])"
    "rejected_by (op, Submitted r e) = (if r = 0 then [] else [v])" "\<not> stops (op, x)" "\<not> pool_drops op"
  using assms by (cases op; cases x; simp)+

lemma submit_loop_cases:
  assumes m: "mem w a = Some c" and sh: "pool_shape fails n c A"
    and run: "sync_thread_pool_submit_loop os a v block e w = Some (out, w')"
  obtains
    (sleep) "out = Wait NotFull (SubmitK v e)" "w' = w\<lparr>calls := calls w @ [(CondSleep a NotFull, 0)]\<rparr>"
      "block \<noteq> 0" "accepting c \<noteq> 0" "queued c = capacity c"
  | (drop) r e' st where "out = Return (Submitted r e')" "r = 1 \<or> r = 2"
      "w' = w\<lparr>calls := calls w @ [(MutexUnlock a, st), (Decref v, 0)]\<rparr>"
      "if accepting c = 0 then r = 2 else r = 1 \<and> block = 0 \<and> queued c = capacity c"
  | (push) e' s1 s2 where "out = Return (Submitted 0 e')" "accepting c \<noteq> 0" "queued c \<noteq> capacity c"
      "w' = w\<lparr>calls := calls w @ [(CondSignal a NotEmpty, s1), (MutexUnlock a, s2)], mem := (mem w)(a \<mapsto> pushed v c)\<rparr>"
      "os_ok os \<Longrightarrow> s1 = 0 \<and> s2 = 0"
proof -
  have ok: "ring_ok (tasks c) (capacity c) (head c) (tail c) (queued c)" using sh by (simp add: pool_shape_def)
  consider "block \<noteq> 0" "accepting c \<noteq> 0" "queued c = capacity c" | "accepting c = 0"
    | "block = 0" "accepting c \<noteq> 0" "queued c = capacity c" | "accepting c \<noteq> 0" "queued c \<noteq> capacity c" by blast
  then show thesis
  proof cases
    case 1
    then show ?thesis using sleep m run by (simp add: sync_thread_pool_submit_loop_def os_defs)
  next
    case 2
    then show ?thesis using drop m run by (auto simp: sync_thread_pool_submit_loop_def submit_drop_def os_defs)
  next
    case 3
    then show ?thesis using drop m run by (auto simp: sync_thread_pool_submit_loop_def submit_drop_def os_defs)
  next
    case 4
    then show ?thesis using push m run ring_push_code [OF ok 4(2)]
      by (auto simp: sync_thread_pool_submit_loop_def os_defs pushed_def)
  qed
qed

lemma shape_push:
  assumes sh: "pool_shape fails n c A" and q: "accepting c \<noteq> 0" "queued c \<noteq> capacity c"
  shows "pool_shape fails n (pushed v c) A" "pool_queue (pushed v c) = pool_queue c @ [v]"
proof -
  have ok: "ring_ok (tasks c) (capacity c) (head c) (tail c) (queued c)" using sh by (simp add: pool_shape_def)
  have lt: "queued c < capacity c" using q(2) ring_okD(7) [OF ok] by simp
  show "pool_shape fails n (pushed v c) A" "pool_queue (pushed v c) = pool_queue c @ [v]"
    using sh q ring_push_ok [OF ok lt, of v] ring_push_list [OF ok lt, of v] by (auto simp: pool_shape_def pushed_def pool_queue_def)
qed

lemma pool_client: "pool_inv fails n R D a B w (add_mset (Client h, t) A) ps \<Longrightarrow> core h = Some a"
  by (cases t) (auto simp: pool_inv_def)

lemma submit_loop_inv:
  assumes inv: "pool_inv fails n R D a B w (add_mset (Client h, t) A) ps" and a: "core h = Some a"
    and t: "task_of (Client h, t) = {#}" and op: "submits op = Some v"
    and ev: "ev = (MutexLock a, 0) \<or> ev = (CondWait a NotFull, 0)"
    and w1: "mem w1 = mem w" "calls w1 = calls w @ [ev]"
    and run: "sync_thread_pool_submit_loop os a v block e w1 = Some (out, w')"
  shows "pool_inv fails n R D a B w' (A + image_mset tag (settle (pool_monitor a) op (Client h) out)) (record_past op out ps)"
proof -
  obtain c where c: "mem w a = Some c" "pool_shape fails n c (add_mset (Client h, t) A)"
    by (rule pool_invD [OF inv])
  have m: "mem w1 a = Some c" using c(1) w1(1) by simp
  note ev = worker_event [OF ev] and op = submits_past [OF op]
  show ?thesis
  proof (rule submit_loop_cases [OF m c(2) run], goal_cases)
    case 1
    have "pool_inv fails n R D a B w' (add_mset (Client h, Some (SubmitK v e)) A) (ps @ [])"
      by (rule pool_same [OF inv c(1), where ks = "[ev, (CondSleep a NotFull, 0)]" and q = "accepting c"])
        (use 1(2) m w1(2) a t ev in \<open>simp_all add: runs_def decrefs_def\<close>)
    then show ?case using 1(1) by (simp add: record_past_def)
  next
    case (2 r e' st)
    have "pool_inv fails n R D a B w' (add_mset (Client h, None) A) (ps @ [(op, Submitted r e')])"
      by (rule pool_same [OF inv c(1), where ks = "[ev, (MutexUnlock a, st), (Decref v, 0)]" and q = "accepting c"])
        (use 2(2,3) m w1(2) a t ev op in \<open>auto simp: runs_def decrefs_def\<close>)
    then show ?case using 2(1) op by (simp add: record_past_def)
  next
    case (3 e' s1 s2)
    have "pool_inv fails n R D a B w' (A + {#(Client h, None)#}) (ps @ [(op, Submitted 0 e')])"
      by (rule pool_keep [OF inv c(1), where ks = "[ev, (CondSignal a NotEmpty, s1), (MutexUnlock a, s2)]" and c' = "pushed v c"])
        (use 3(4) w1(2) a t ev op shape_push [OF c(2) 3(2,3), of v] in \<open>simp_all add: runs_def decrefs_def pool_shape_def\<close>)
    then show ?case using 3(1) op by (simp add: record_past_def)
  qed
qed

lemma submit_task_inv:
  assumes inv: "pool_inv fails n R D a B w (add_mset (Client h, None) A) ps" and op: "submits op = Some v"
    and run: "sync_thread_pool_submit_task os cur h v block w = Some (out, w')"
  shows "pool_inv fails n R D a B w' (A + image_mset tag (settle (pool_monitor a) op (Client h) out)) (record_past op out ps)"
proof -
  obtain c where c: "mem w a = Some c" by (rule pool_invD [OF inv])
  have a: "core h = Some a" by (rule pool_client [OF inv])
  note op' = submits_past [OF op]
  let ?w = "w\<lparr>next_submit_error := 0\<rparr>"
  have drop: ?thesis if "out = Return (Submitted r e)" "r \<noteq> 0" "mem w' = mem w" "calls w' = calls w @ ls @ [(Decref v, 0)]"
      "runs ls = []" "decrefs ls = []" "mutex_run a False ls = Some False" "\<And>r. balance r ls = 0" for r e ls
  proof -
    have "pool_inv fails n R D a B w' (add_mset (Client h, None) A) (ps @ [(op, Submitted r e)])"
      by (rule pool_same [OF inv c, where ks = "ls @ [(Decref v, 0)]" and q = "accepting c"])
        (use that c a op' in \<open>simp_all add: mutex_run_append\<close>)
    then show ?thesis using that(1) op' by (simp add: record_past_def)
  qed
  consider "next_submit_error w \<noteq> 0" | "next_submit_error w = 0" "posix_status os (MutexLock a) (calls w) \<noteq> 0"
    | "next_submit_error w = 0" "posix_status os (MutexLock a) (calls w) = 0"
      "block \<noteq> 0 \<and> accepting c \<noteq> 0 \<and> cur = Some a \<and> queued c = capacity c"
    | "next_submit_error w = 0" "posix_status os (MutexLock a) (calls w) = 0"
      "\<not> (block \<noteq> 0 \<and> accepting c \<noteq> 0 \<and> cur = Some a \<and> queued c = capacity c)" by blast
  then show ?thesis
  proof cases
    case 1
    then have "out = Return (Submitted 2 (next_submit_error w))" "mem w' = mem w" "calls w' = calls w @ [(Decref v, 0)]"
      using run a by (auto simp: sync_thread_pool_submit_task_def sync_thread_pool_take_test_error_def os_defs)
    then show ?thesis by (intro drop [of 2 _ "[]"]) simp_all
  next
    case 2
    then obtain st where "out = Return (Submitted 2 st)" "mem w' = mem w" "st \<noteq> 0" "calls w' = calls w @ [(MutexLock a, st)] @ [(Decref v, 0)]"
      using run a by (auto simp: sync_thread_pool_submit_task_def sync_thread_pool_take_test_error_def os_defs)
    then show ?thesis by (intro drop [of 2 _ "[(MutexLock a, st)]"]) simp_all
  next
    case 3
    then obtain st where "out = Return (Submitted 3 st)" "mem w' = mem w"
      "calls w' = calls w @ [(MutexLock a, 0), (MutexUnlock a, st)] @ [(Decref v, 0)]"
      using run a c by (auto simp: sync_thread_pool_submit_task_def sync_thread_pool_take_test_error_def submit_drop_def os_defs)
    then show ?thesis by (intro drop [of 3 _ "[(MutexLock a, 0), (MutexUnlock a, st)]"]) simp_all
  next
    case 4
    let ?w1 = "?w\<lparr>calls := calls w @ [(MutexLock a, 0)]\<rparr>"
    have "sync_thread_pool_submit_loop os a v block 0 ?w1 = Some (out, w')"
      using run a c 4 by (auto simp: sync_thread_pool_submit_task_def sync_thread_pool_take_test_error_def os_defs)
    then show ?thesis by (intro submit_loop_inv [OF inv a _ op, of "(MutexLock a, 0)" ?w1]) simp_all
  qed
qed

lemma pool_submit_wake_inv:
  assumes inv: "pool_inv fails n R D a B w (add_mset (Client h, Some (SubmitK v e)) A) ps" and op: "submits op = Some v"
    and run: "sync_thread_pool_submit_wake os a v e w = Some (out, w')"
  shows "pool_inv fails n R D a B w' (A + image_mset tag (settle (pool_monitor a) op (Client h) out)) (record_past op out ps)"
proof -
  obtain c where c: "mem w a = Some c" by (rule pool_invD [OF inv])
  have a: "core h = Some a" by (rule pool_client [OF inv])
  note op' = submits_past [OF op]
  show ?thesis
  proof (cases "ret os (calls w) (CondWait a NotFull) = 0")
    case True
    let ?w1 = "w\<lparr>calls := calls w @ [(CondWait a NotFull, 0)]\<rparr>"
    have "sync_thread_pool_submit_loop os a v 1 e ?w1 = Some (out, w')"
      using run True by (simp add: sync_thread_pool_submit_wake_def os_defs)
    then show ?thesis by (intro submit_loop_inv [OF inv a _ op, of "(CondWait a NotFull, 0)" ?w1]) simp_all
  next
    case False
    then obtain s1 s2 e' where o: "out = Return (Submitted 2 e')" "mem w' = mem w"
      "calls w' = calls w @ [(CondWait a NotFull, s1), (MutexUnlock a, s2), (Decref v, 0)]"
      using run by (auto simp: sync_thread_pool_submit_wake_def submit_drop_def os_defs)
    have "pool_inv fails n R D a B w' (add_mset (Client h, None) A) (ps @ [(op, Submitted 2 e')])"
      by (rule pool_same [OF inv c, where ks = "[(CondWait a NotFull, s1), (MutexUnlock a, s2), (Decref v, 0)]" and q = "accepting c"])
        (use o c a op' in simp_all)
    then show ?thesis using o(1) op' by (simp add: record_past_def)
  qed
qed

text \<open>An operation of a handle that returns without touching the queue.\<close>

subsection \<open>Closing and shutting down\<close>

lemma pool_return:
  assumes inv: "pool_inv fails n R D a B w (add_mset (Client h, t) A) ps" and c: "mem w a = Some c"
    and w': "mem w' a = Some (c\<lparr>accepting := q\<rparr>)" "q = 0 \<or> q = accepting c" "calls w' = calls w @ ks"
      "mutex_run a False ks = Some False" "\<And>r. balance r ks = 0"
    and books: "task_of (Client h, t) = {#}" "runs ks = []" "decrefs ks = []" "accepted_by (op, r) = []" "rejected_by (op, r) = []"
      "stops (op, r) \<Longrightarrow> lives (add_mset (Client h, t) A) = 0" "\<not> pool_drops op" "pool_born r = None"
  shows "pool_inv fails n R D a B w' (A + image_mset tag (settle (pool_monitor a) op (Client h) (Return r)))
    (record_past op (Return r) ps)"
proof -
  have "pool_inv fails n R D a B w' (add_mset (Client h, None) A) (ps @ [(op, r)])"
    by (rule pool_same [OF inv c w']) (use books pool_client [OF inv] in simp_all)
  then show ?thesis using books(7,8) by (simp add: record_past_def)
qed

lemma close_core_cases:
  assumes m: "mem w a = Some c" and run: "sync_thread_pool_close_core os a w = Some (st, w')"
  obtains (locked) "st \<noteq> 0" "mem w' = mem w" "calls w' = calls w @ [(MutexLock a, st)]"
  | (closed) s1 s2 s3 where "mem w' = (mem w)(a \<mapsto> c\<lparr>accepting := 0\<rparr>)"
      "calls w' = calls w @ [(MutexLock a, 0), (CondBroadcast a NotEmpty, s1), (CondBroadcast a NotFull, s2), (MutexUnlock a, s3)]"
      "st = 0 \<longleftrightarrow> s1 = 0 \<and> s2 = 0 \<and> s3 = 0" "os_ok os \<Longrightarrow> s1 = 0 \<and> s2 = 0 \<and> s3 = 0"
proof (cases "posix_status os (MutexLock a) (calls w) = 0")
  case True
  then show thesis using closed m run
    by (auto simp: sync_thread_pool_close_core_def os_defs record_error_eq_0_iff)
next
  case False
  then show thesis using locked m run by (auto simp: sync_thread_pool_close_core_def os_defs)
qed

lemma close_inv:
  assumes inv: "pool_inv fails n R D a B w (add_mset (Client h, None) A) ps"
    and run: "sync_thread_pool_close os h w = Some (st, w')"
  shows "pool_inv fails n R D a B w' (A + image_mset tag (settle (pool_monitor a) PoolClose (Client h) (Return (PoolStatus st))))
    (record_past PoolClose (Return (PoolStatus st)) ps)"
proof -
  obtain c where c: "mem w a = Some c" by (rule pool_invD [OF inv])
  have run': "sync_thread_pool_close_core os a w = Some (st, w')"
    using run pool_client [OF inv] by (simp add: sync_thread_pool_close_def)
  show ?thesis
  proof (rule close_core_cases [OF c run'], goal_cases)
    case 1
    then show ?case by (intro pool_return [OF inv c, of w' "accepting c" "[(MutexLock a, st)]"]) (use c in simp_all)
  next
    case (2 s1 s2 s3)
    then show ?case
      by (intro pool_return [OF inv c, of w' 0 "[(MutexLock a, 0), (CondBroadcast a NotEmpty, s1),
        (CondBroadcast a NotFull, s2), (MutexUnlock a, s3)]"]) simp_all
  qed
qed

lemma shutdown_inv:
  assumes inv: "pool_inv fails n R D a B w (add_mset (Client h, None) A) ps"
    and run: "sync_thread_pool_shutdown os cur h w = Some (out, w')"
  shows "pool_inv fails n R D a B w' (A + image_mset tag (settle (pool_monitor a) (PoolShutdown cur) (Client h) out))
    (record_past (PoolShutdown cur) out ps)"
proof -
  obtain c where c: "mem w a = Some c" by (rule pool_invD [OF inv])
  note a = pool_client [OF inv]
  let ?w = "w\<lparr>next_shutdown_error := 0\<rparr>"
  consider (early) r st where "out = Return (PoolAnswer r st)" "r \<noteq> 0 \<or> st \<noteq> 0" "w' = ?w"
    | (close) st where "sync_thread_pool_close_core os a ?w = Some (st, w')"
      "out = (if st \<noteq> 0 then Return (PoolAnswer 0 st) else Again ShutLockK)"
    using run a
    by (cases "next_shutdown_error w = 0")
      (auto simp: sync_thread_pool_shutdown_def sync_thread_pool_take_test_error_def sync_test_atomic_take_def bind_eq_Some_conv
        Let_def split: if_splits)
  then show ?thesis
  proof cases
    case early
    have "pool_inv fails n R D a B w' (A + image_mset tag (settle (pool_monitor a) (PoolShutdown cur) (Client h) (Return (PoolAnswer r st))))
        (record_past (PoolShutdown cur) (Return (PoolAnswer r st)) ps)"
      by (rule pool_return [OF inv c, of w' "accepting c" "[]"]) (use early c in auto)
    then show ?thesis using early(1) by simp
  next
    case close
    have c': "mem ?w a = Some c" using c by simp
    show ?thesis
    proof (rule close_core_cases [OF c' close(1)], goal_cases)
      case 1
      have "pool_inv fails n R D a B w' (A + image_mset tag (settle (pool_monitor a) (PoolShutdown cur) (Client h) (Return (PoolAnswer 0 st))))
          (record_past (PoolShutdown cur) (Return (PoolAnswer 0 st)) ps)"
        by (rule pool_return [OF inv c, of w' "accepting c" "[(MutexLock a, st)]"]) (use 1 c in simp_all)
      then show ?case using 1(1) close(2) by simp
    next
      case (2 s1 s2 s3)
      let ?ks = "[(MutexLock a, 0), (CondBroadcast a NotEmpty, s1), (CondBroadcast a NotFull, s2), (MutexUnlock a, s3)]"
      show ?case
      proof (cases "st = 0")
        case True
        have "pool_inv fails n R D a B w' (add_mset (Client h, Some ShutLockK) A) (ps @ [])"
          by (rule pool_same [OF inv c, where ks = ?ks and q = 0]) (use 2(1,2) a in simp_all)
        then show ?thesis using True close(2) by (simp add: record_past_def)
      next
        case False
        have "pool_inv fails n R D a B w' (A + image_mset tag (settle (pool_monitor a) (PoolShutdown cur) (Client h) (Return (PoolAnswer 0 st))))
            (record_past (PoolShutdown cur) (Return (PoolAnswer 0 st)) ps)"
          by (rule pool_return [OF inv c, of w' 0 ?ks]) (use 2(1,2) False in simp_all)
        then show ?thesis using False close(2) by simp
      qed
    qed
  qed
qed

lemma shutdown_loop_inv:
  assumes inv: "pool_inv fails n R D a B w (add_mset (Client h, t) A) ps" and t: "task_of (Client h, t) = {#}"
    and ev: "ev = (MutexLock a, 0) \<or> ev = (CondWait a Stopped, 0)"
    and run: "sync_thread_pool_shutdown_loop os a st (w\<lparr>calls := calls w @ [ev]\<rparr>) = Some (out, w')"
  shows "pool_inv fails n R D a B w' (A + image_mset tag (settle (pool_monitor a) (PoolShutdown cur) (Client h) out))
    (record_past (PoolShutdown cur) out ps)"
proof -
  obtain c where c: "mem w a = Some c" "pool_shape fails n c (add_mset (Client h, t) A)" by (rule pool_invD [OF inv])
  note a = pool_client [OF inv] and ev = worker_event [OF ev]
  show ?thesis
  proof (cases "live_workers c = 0")
    case True
    then obtain e s where o: "out = Return (PoolAnswer 0 e)" "mem w' = mem w" "calls w' = calls w @ [ev, (MutexUnlock a, s)]"
      using run c(1) by (auto simp: sync_thread_pool_shutdown_loop_def shutdown_end_def os_defs)
    have "lives (add_mset (Client h, t) A) = 0" using c(2) True by (simp add: pool_shape_def)
    then have "pool_inv fails n R D a B w' (A + image_mset tag (settle (pool_monitor a) (PoolShutdown cur) (Client h) (Return (PoolAnswer 0 e))))
          (record_past (PoolShutdown cur) (Return (PoolAnswer 0 e)) ps)"
      by (intro pool_return [OF inv c(1), of w' "accepting c" "[ev, (MutexUnlock a, s)]"])
        (use o c(1) ev t in \<open>simp_all add: runs_def decrefs_def\<close>)
    then show ?thesis using o(1) by simp
  next
    case False
    then have o: "out = Wait Stopped (ShutWaitK st)" "mem w' = mem w" "calls w' = calls w @ [ev, (CondSleep a Stopped, 0)]"
      using run c(1) by (auto simp: sync_thread_pool_shutdown_loop_def os_defs)
    have "pool_inv fails n R D a B w' (add_mset (Client h, Some (ShutWaitK st)) A) (ps @ [])"
      by (rule pool_same [OF inv c(1), where ks = "[ev, (CondSleep a Stopped, 0)]" and q = "accepting c"])
        (use o(2,3) c(1) a t ev in \<open>simp_all add: runs_def decrefs_def\<close>)
    then show ?thesis using o(1) by (simp add: record_past_def)
  qed
qed

lemma shutdown_lock_inv:
  assumes inv: "pool_inv fails n R D a B w (add_mset (Client h, Some ShutLockK) A) ps"
    and run: "sync_thread_pool_shutdown_lock os a w = Some (out, w')"
  shows "pool_inv fails n R D a B w' (A + image_mset tag (settle (pool_monitor a) (PoolShutdown cur) (Client h) out))
    (record_past (PoolShutdown cur) out ps)"
proof (cases "posix_status os (MutexLock a) (calls w) = 0")
  case True
  then have "sync_thread_pool_shutdown_loop os a 0 (w\<lparr>calls := calls w @ [(MutexLock a, 0)]\<rparr>) = Some (out, w')"
    using run by (simp add: sync_thread_pool_shutdown_lock_def os_defs)
  then show ?thesis by (intro shutdown_loop_inv [OF inv]) simp_all
next
  case False
  obtain c where c: "mem w a = Some c" by (rule pool_invD [OF inv])
  obtain st where o: "out = Return (PoolAnswer 0 st)" "st \<noteq> 0" "mem w' = mem w" "calls w' = calls w @ [(MutexLock a, st)]"
    using run False by (auto simp: sync_thread_pool_shutdown_lock_def os_defs)
  have "pool_inv fails n R D a B w' (A + image_mset tag (settle (pool_monitor a) (PoolShutdown cur) (Client h) (Return (PoolAnswer 0 st))))
      (record_past (PoolShutdown cur) (Return (PoolAnswer 0 st)) ps)"
    by (rule pool_return [OF inv c, of w' "accepting c" "[(MutexLock a, st)]"]) (use o c in simp_all)
  then show ?thesis using o(1) by simp
qed

lemma shutdown_wake_inv:
  assumes inv: "pool_inv fails n R D a B w (add_mset (Client h, Some (ShutWaitK st0)) A) ps"
    and run: "sync_thread_pool_shutdown_wake os a st0 w = Some (out, w')"
  shows "pool_inv fails n R D a B w' (A + image_mset tag (settle (pool_monitor a) (PoolShutdown cur) (Client h) out))
    (record_past (PoolShutdown cur) out ps)"
proof (cases "ret os (calls w) (CondWait a Stopped) = 0")
  case True
  then have "sync_thread_pool_shutdown_loop os a st0 (w\<lparr>calls := calls w @ [(CondWait a Stopped, 0)]\<rparr>) = Some (out, w')"
    using run by (simp add: sync_thread_pool_shutdown_wake_def os_defs)
  then show ?thesis by (intro shutdown_loop_inv [OF inv]) simp_all
next
  case False
  obtain c where c: "mem w a = Some c" by (rule pool_invD [OF inv])
  obtain st s1 s2 where o: "out = Return (PoolAnswer 0 st)" "st = record_error (record_error st0 s1) s2" "mem w' = mem w"
      "calls w' = calls w @ [(CondWait a Stopped, s1), (MutexUnlock a, s2)]" "s1 \<noteq> 0"
    using run False by (auto simp: sync_thread_pool_shutdown_wake_def shutdown_end_def os_defs)
  have "pool_inv fails n R D a B w' (A + image_mset tag (settle (pool_monitor a) (PoolShutdown cur) (Client h) (Return (PoolAnswer 0 st))))
      (record_past (PoolShutdown cur) (Return (PoolAnswer 0 st)) ps)"
    by (rule pool_return [OF inv c, of w' "accepting c" "[(CondWait a Stopped, s1), (MutexUnlock a, s2)]"])
      (use o c in \<open>simp_all add: record_error_eq_0_iff\<close>)
  then show ?thesis using o(1) by simp
qed

subsection \<open>Handles and the failed constructor\<close>

lemma shape_share:
  assumes "pool_shape fails n c (add_mset (Client h, None) A)" "handles c \<noteq> INT32_MAX"
  shows "pool_shape fails n (c\<lparr>handles := handles c + 1, refs := refs c + 1\<rparr>)
    (add_mset (Client g, None) (add_mset (Client h, None) A))"
    "i32_add (handles c) 1 = Some (handles c + 1)"
  using assms by (auto simp: pool_shape_def i32_add_def i32_def INT32_MIN_def INT32_MAX_def)

lemma pool_share_inv:
  assumes inv: "pool_inv fails n R D a B w (add_mset (Client h, None) A) ps"
    and run: "sync_thread_pool_share os h w = Some ((g, st), w')"
  shows "pool_inv fails n R D a B w'
    (A + image_mset tag (settle (pool_monitor a) PoolShare (Client h) (Return (PoolHandle (map_option Client g) st))))
    (record_past PoolShare (Return (PoolHandle (map_option Client g) st)) ps)"
proof -
  obtain c where c: "mem w a = Some c" "pool_shape fails n c (add_mset (Client h, None) A)" by (rule pool_invD [OF inv])
  note a = pool_client [OF inv]
  have ret: ?thesis if "g = None" "mem w' = mem w" "calls w' = calls w @ ks" "mutex_run a False ks = Some False"
      "\<And>r. balance r ks = 0" "runs ks = []" "decrefs ks = []" for ks
    by (rule pool_return [OF inv c(1), of w' "accepting c" ks]) (use that c(1) in simp_all)
  show ?thesis
  proof (cases "posix_status os (MutexLock a) (calls w) = 0")
    case lock: True
    show ?thesis
    proof (cases "handles c = INT32_MAX")
      case True
      then obtain s where "g = None" "mem w' = mem w" "calls w' = calls w @ [(MutexLock a, 0), (MutexUnlock a, s)]"
        using run lock a c(1) by (auto simp: sync_thread_pool_share_def os_defs)
      then show ?thesis by (intro ret [of "[(MutexLock a, 0), (MutexUnlock a, s)]"]) simp_all
    next
      case False
      let ?c = "c\<lparr>handles := handles c + 1, refs := refs c + 1\<rparr>"
      note sh = shape_share [OF c(2) False]
      have o: "g = Some (sync_thread_pool_wrap a)" "mem w' a = Some ?c" "calls w' = calls w @ [(MutexLock a, 0), (MutexUnlock a, 0)]"
        using run lock a c(1) False sh(2) by (auto simp: sync_thread_pool_share_def os_defs)
      have "pool_inv fails n R D a B w' (A + {#(Client h, None), (Client (sync_thread_pool_wrap a), None)#})
          (ps @ [(PoolShare, PoolHandle (map_option Client g) st)])"
        by (rule pool_keep [OF inv c(1) o(2,3)])
          (use a sh(1) [of "sync_thread_pool_wrap a"] in \<open>simp_all add: pool_queue_def sync_thread_pool_wrap_def add_mset_commute\<close>)
      then show ?thesis using o(1) by (simp add: record_past_def add_mset_commute)
    qed
  next
    case False
    then have "g = None" "mem w' = mem w" "calls w' = calls w @ [(MutexLock a, st)]" "st \<noteq> 0"
      using run a by (auto simp: sync_thread_pool_share_def os_defs)
    then show ?thesis by (intro ret [of "[(MutexLock a, st)]"]) simp_all
  qed
qed

lemma query_inv:
  assumes inv: "pool_inv fails n R D a B w (add_mset (Client h, None) A) ps"
    and run: "op = PoolIsClosed \<and> sync_thread_pool_is_closed os h w = Some ((r, st), w') \<or>
      op = PoolPendingCount \<and> sync_thread_pool_pending_count os h w = Some ((r, st), w')"
  shows "pool_inv fails n R D a B w' (A + image_mset tag (settle (pool_monitor a) op (Client h) (Return (PoolAnswer r st))))
    (record_past op (Return (PoolAnswer r st)) ps)"
proof -
  obtain c where c: "mem w a = Some c" by (rule pool_invD [OF inv])
  note a = pool_client [OF inv]
  have op: "accepted_by (op, PoolAnswer r st) = []" "rejected_by (op, PoolAnswer r st) = []" "\<not> stops (op, PoolAnswer r st)"
    "\<not> pool_drops op" using run by auto
  obtain ks where ks: "mem w' = mem w" "calls w' = calls w @ ks"
      "ks = [(MutexLock a, st)] \<and> st \<noteq> 0 \<or> (\<exists>s. ks = [(MutexLock a, 0), (MutexUnlock a, s)])"
    using run a c by (cases "posix_status os (MutexLock a) (calls w) = 0")
      (auto simp: sync_thread_pool_is_closed_def sync_thread_pool_pending_count_def os_defs)
  show ?thesis
    by (rule pool_return [OF inv c, of w' "accepting c" ks]) (use ks op c in auto)
qed

lemma shape_finalize:
  assumes sh: "pool_shape fails n c (add_mset (Client h, None) A)"
  shows "0 < handles c" "i32_sub (handles c) 1 = Some (handles c - 1)"
    "pool_shape fails n (c\<lparr>handles := handles c - 1, accepting := if handles c = 1 then 0 else accepting c, refs := of_nat (size A)\<rparr>) A"
  using sh by (auto simp: pool_shape_def i32_sub_def i32_def INT32_MIN_def INT32_MAX_def)

lemma pool_finalize_inv:
  assumes inv: "pool_inv fails n R D a B w (add_mset (Client h, None) A) ps"
    and run: "sync_thread_pool_finalize os h w = Some w'"
  shows "pool_inv fails n R D a B w' A (ps @ [(PoolFinalize, PoolDropped)])"
proof -
  obtain c where c: "mem w a = Some c" "pool_shape fails n c (add_mset (Client h, None) A)" by (rule pool_invD [OF inv])
  note a = pool_client [OF inv] and sh = shape_finalize [OF c(2)]
  let ?c = "c\<lparr>handles := handles c - 1, accepting := if handles c = 1 then 0 else accepting c\<rparr>"
  let ?ks = "[(MutexLock a, 0)] @ (if handles c = 1 then [(CondBroadcast a NotEmpty, 0), (CondBroadcast a NotFull, 0)] else []) @ [(MutexUnlock a, 0)]"
  let ?w1 = "w\<lparr>calls := calls w @ ?ks, mem := (mem w)(a \<mapsto> ?c)\<rparr>"
  have keep: "handles c \<noteq> 1 \<Longrightarrow> ?c = c\<lparr>handles := handles c - 1\<rparr>" by simp
  have r: "sync_thread_pool_core_release os a ?w1 = Some w'"
    using run a c(1) sh(1,2) keep
    by (cases "handles c = 1") (auto simp: sync_thread_pool_finalize_def pool_lock_defs os_defs bind_eq_Some_conv)
  have w1: "mem ?w1 a = Some ?c" "calls ?w1 = calls w @ ?ks" by simp_all
  show ?thesis
    by (rule pool_drop [OF inv c(1) w1(1,2) _ _ _ _ _ _ _ _ _ _ _ _ _ r])
      (use sh(3) in \<open>simp_all add: pool_queue_def\<close>)
qed

lemma maker_loop_inv:
  assumes inv: "pool_inv fails n R D a B w (add_mset (Maker a, Some k) A) ps" and k: "task_of (Maker a, Some k) = {#}"
    and ev: "ev = (MutexLock a, 0) \<or> ev = (CondWait a Stopped, 0)"
    and run: "sync_thread_pool_wait_workers_loop os a st (w\<lparr>calls := calls w @ [ev]\<rparr>) = Some (out, w')"
  shows "pool_inv fails n R D a B w' (A + image_mset tag (settle (pool_monitor a) PoolMake (Maker a) out))
    (record_past PoolMake out ps)"
proof -
  obtain c where c: "mem w a = Some c" "pool_shape fails n c (add_mset (Maker a, Some k) A)" by (rule pool_invD [OF inv])
  note ev = worker_event [OF ev]
  show ?thesis
  proof (cases "live_workers c = 0")
    case True
    let ?w1 = "w\<lparr>calls := calls w @ [ev, (MutexUnlock a, 0)]\<rparr>"
    have w1: "out = Return (MakeFailed st)" "mem ?w1 a = Some c" "calls ?w1 = calls w @ [ev, (MutexUnlock a, 0)]"
        "sync_thread_pool_core_release os a ?w1 = Some w'"
      using run c(1) True by (auto simp: sync_thread_pool_wait_workers_loop_def pool_lock_defs os_defs bind_eq_Some_conv)
    have "pool_inv fails n R D a B w' A (ps @ [(PoolMake, MakeFailed st)])"
      by (rule pool_drop [OF inv c(1) w1(2,3) _ _ _ _ _ _ _ _ _ _ _ _ _ w1(4)])
        (use k ev c(2) in \<open>auto simp: runs_def decrefs_def pool_shape_def\<close>)
    then show ?thesis using w1(1) by (simp add: record_past_def)
  next
    case False
    then have o: "out = Wait Stopped (MakeWaitK st)" "mem w' = mem w" "calls w' = calls w @ [ev, (CondSleep a Stopped, 0)]"
      using run c(1) by (auto simp: sync_thread_pool_wait_workers_loop_def os_defs)
    have "pool_inv fails n R D a B w' (add_mset (Maker a, Some (MakeWaitK st)) A) (ps @ [])"
      by (rule pool_same [OF inv c(1), where ks = "[ev, (CondSleep a Stopped, 0)]" and q = "accepting c"])
        (use o(2,3) c(1) k ev in \<open>simp_all add: runs_def decrefs_def\<close>)
    then show ?thesis using o(1) by (simp add: record_past_def)
  qed
qed

subsection \<open>The pool is a monitor\<close>

lemma pool_monitor_simps [simp]:
  "site (pool_monitor a) = a" "may (pool_monitor a) = pool_may" "enter (pool_monitor a) = pool_enter"
  "resume (pool_monitor a) = pool_resume" "pending (pool_monitor a) = pool_pending"
  "drops (pool_monitor a) = pool_drops" "born (pool_monitor a) = pool_born"
  by (simp_all add: pool_monitor_def)

lemma pool_may_client: "pool_may op x \<Longrightarrow> \<exists>h. x = Client h"
  by (cases x; cases op) auto

lemma pool_enter_inv:
  assumes inv: "pool_inv fails n R D a B w (add_mset (x, None) A) ps" and may: "pool_may op x"
    and run: "pool_enter os op x w = Some (out, w')"
  shows "pool_inv fails n R D a B w' (A + image_mset tag (settle (pool_monitor a) op x out)) (record_past op out ps)"
proof -
  obtain h where x: "x = Client h" using pool_may_client [OF may] by blast
  note inv = inv [unfolded x]
  show ?thesis
  proof (cases op)
    case PoolShare
    then obtain g st where "sync_thread_pool_share os h w = Some ((g, st), w')" "out = Return (PoolHandle (map_option Client g) st)"
      using run x by auto
    then show ?thesis using pool_share_inv [OF inv] PoolShare x by blast
  next
    case (PoolTryExecute v cur)
    then show ?thesis using run x submit_task_inv [OF inv, of op v os cur 0 out w'] by (simp add: sync_thread_pool_try_execute_def)
  next
    case (PoolExecute v cur)
    then show ?thesis using run x submit_task_inv [OF inv, of op v os cur 1 out w'] by (simp add: sync_thread_pool_execute_def)
  next
    case PoolClose
    then obtain st where "sync_thread_pool_close os h w = Some (st, w')" "out = Return (PoolStatus st)" using run x by auto
    then show ?thesis using close_inv [OF inv] PoolClose x by blast
  next
    case (PoolShutdown cur)
    then show ?thesis using run x shutdown_inv [OF inv, of os cur out w'] by simp
  next
    case PoolIsClosed
    then obtain r st where "sync_thread_pool_is_closed os h w = Some ((r, st), w')" "out = Return (PoolAnswer r st)" using run x by auto
    then show ?thesis using query_inv [OF inv] PoolIsClosed x by blast
  next
    case PoolWorkerCount
    obtain c where c: "mem w a = Some c" by (rule pool_invD [OF inv])
    have o: "w' = w" "out = Return (PoolAnswer (worker_count c) 0)"
      using run x PoolWorkerCount c pool_client [OF inv] by (auto simp: sync_thread_pool_worker_count_def)
    have "pool_inv fails n R D a B w (A + image_mset tag (settle (pool_monitor a) PoolWorkerCount (Client h) (Return (PoolAnswer (worker_count c) 0))))
        (record_past PoolWorkerCount (Return (PoolAnswer (worker_count c) 0)) ps)"
      by (rule pool_return [OF inv c, of _ "accepting c" "[]"]) (use c in simp_all)
    then show ?thesis using o x PoolWorkerCount by simp
  next
    case PoolPendingCount
    then obtain r st where "sync_thread_pool_pending_count os h w = Some ((r, st), w')" "out = Return (PoolAnswer r st)" using run x by auto
    then show ?thesis using query_inv [OF inv] PoolPendingCount x by blast
  next
    case PoolFinalize
    then have "sync_thread_pool_finalize os h w = Some w'" "out = Return PoolDropped" using run x by auto
    then show ?thesis using pool_finalize_inv [OF inv] PoolFinalize x by (simp add: record_past_def)
  qed (use may in simp_all)
qed

lemma pool_resume_inv:
  assumes inv: "pool_inv fails n R D a B w (add_mset (x, Some k) A) ps"
    and run: "pool_resume os k x w = Some (out, w')"
  shows "pool_inv fails n R D a B w' (A + image_mset tag (settle (pool_monitor a) (pool_pending k) x out))
    (record_past (pool_pending k) out ps)"
proof -
  have ok: "tag_ok a (x, Some k)" using inv by (simp add: pool_inv_def)
  then have s: "pool_site x = Some a" by (cases x) auto
  show ?thesis
  proof (cases k)
    case (SubmitK v e)
    then obtain h where "x = Client h" using ok by (cases x) auto
    then show ?thesis using pool_submit_wake_inv [of fails n R D a B w h v e A ps "pool_pending k" os out w'] inv run s SubmitK
      by (simp add: pool_resume_def)
  next
    case ShutLockK
    then obtain h where "x = Client h" using ok by (cases x) auto
    then show ?thesis using shutdown_lock_inv [of fails n R D a B w h A ps os out w'] inv run s ShutLockK
      by (simp add: pool_resume_def)
  next
    case (ShutWaitK st)
    then obtain h where "x = Client h" using ok by (cases x) auto
    then show ?thesis using shutdown_wake_inv [of fails n R D a B w h st A ps os out w'] inv run s ShutWaitK
      by (simp add: pool_resume_def)
  next
    case WorkLockK
    then obtain cur where "x = Worker a cur" using ok by (cases x) auto
    moreover have "sync_thread_pool_worker_loop os a (w\<lparr>calls := calls w @ [(MutexLock a, 0)]\<rparr>) = Some (out, w')"
      using run s WorkLockK by (auto simp: pool_resume_def sync_thread_pool_worker_lock_def pool_lock_defs os_defs)
    ultimately show ?thesis using worker_loop_inv [of fails n R D a B w cur k A ps "(MutexLock a, 0)" os out w'] inv WorkLockK by simp
  next
    case WorkWaitK
    then obtain cur where "x = Worker a cur" using ok by (cases x) auto
    moreover have "sync_thread_pool_worker_loop os a (w\<lparr>calls := calls w @ [(CondWait a NotEmpty, 0)]\<rparr>) = Some (out, w')"
      using run s WorkWaitK by (auto simp: pool_resume_def sync_thread_pool_worker_wake_def pool_lock_defs os_defs)
    ultimately show ?thesis using worker_loop_inv [of fails n R D a B w cur k A ps "(CondWait a NotEmpty, 0)" os out w'] inv WorkWaitK by simp
  next
    case (WorkTaskK v)
    then obtain cur where "x = Worker a cur" using ok by (cases x) auto
    then show ?thesis using worker_task_inv [of fails n R D a B w cur v A ps out w'] inv run s WorkTaskK
      by (simp add: pool_resume_def)
  next
    case WorkLeaveK
    then obtain cur where "x = Worker a cur" using ok by (cases x) auto
    then show ?thesis using worker_leave_inv [of fails n R D a B w cur A ps os out w'] inv run s WorkLeaveK
      by (simp add: pool_resume_def)
  next
    case (MakeLockK st)
    then have "x = Maker a" using ok by (cases x) auto
    moreover have "sync_thread_pool_wait_workers_loop os a st (w\<lparr>calls := calls w @ [(MutexLock a, 0)]\<rparr>) = Some (out, w')"
      using run s MakeLockK by (auto simp: pool_resume_def sync_thread_pool_wait_workers_start_def pool_lock_defs os_defs)
    ultimately show ?thesis using maker_loop_inv [of fails n R D a B w k A ps "(MutexLock a, 0)" os st out w'] inv MakeLockK by simp
  next
    case (MakeWaitK st)
    then have "x = Maker a" using ok by (cases x) auto
    moreover have "sync_thread_pool_wait_workers_loop os a st (w\<lparr>calls := calls w @ [(CondWait a Stopped, 0)]\<rparr>) = Some (out, w')"
      using run s MakeWaitK by (auto simp: pool_resume_def sync_thread_pool_wait_workers_wake_def pool_lock_defs os_defs)
    ultimately show ?thesis using maker_loop_inv [of fails n R D a B w k A ps "(CondWait a Stopped, 0)" os st out w'] inv MakeWaitK by simp
  qed
qed

interpretation pool: monitor_keeps P "pool_monitor a" "pool_inv fails n R D a B" for P fails n R D a B
  by unfold_locales (simp_all add: pool_enter_inv pool_resume_inv)

subsection \<open>The constructor\<close>

lemma benign_append: "benign a ks \<Longrightarrow> benign a ls \<Longrightarrow> benign a (ks @ ls)"
  by (auto simp: benign_def mutex_run_append)

lemma spawn_step:
  assumes m: "mem w a = Some c" "refs c = 1 + of_nat l" "live_workers c = int l" "l < 64"
    and run: "spawn_workers os a (Suc n) w = Some ((st, m), w')"
  obtains (fail) ks where "m = 0" "st \<noteq> 0" "mem w' a = Some (c\<lparr>accepting := 0\<rparr>)" "calls w' = calls w @ ks" "benign a ks"
  | (spawned) w1 ks m' where "mem w1 a = Some (c\<lparr>refs := 1 + of_nat (Suc l), live_workers := int (Suc l)\<rparr>)"
      "calls w1 = calls w @ ks" "benign a ks" "spawn_workers os a n w1 = Some ((st, m'), w')" "m = Suc m'"
proof -
  let ?c = "c\<lparr>refs := 2 + of_nat l, live_workers := 1 + int l\<rparr>"
  let ?w = "w\<lparr>calls := calls w @ [(MutexLock a, 0), (MutexUnlock a, 0)], mem := (mem w)(a \<mapsto> ?c)\<rparr>"
  have l: "i32_add (int l) 1 = Some (1 + int l)" "i32_sub (1 + int l) 1 = Some (int l)"
    using m(4) by (auto simp: i32_add_def i32_sub_def i32_def INT32_MIN_def INT32_MAX_def)
  have r: "2 + of_nat l - 1 \<noteq> (0 :: 32 word)"
    using m(4) refs_zero_iff [of "Suc l"] by (simp add: add.commute)
  have lk: "posix_status os (MutexLock a) (calls w) = 0" "posix_status os (MutexUnlock a) (calls w @ [(MutexLock a, 0)]) = 0"
    using run m l by (auto simp: pool_lock_defs os_defs bind_eq_Some_conv abort_if_failed_def split: if_splits)
  let ?st = "ret os (calls ?w) (ThreadCreate a)"
  let ?w1 = "?w\<lparr>calls := calls ?w @ [(ThreadCreate a, ?st)]\<rparr>"
  show thesis
  proof (cases "?st = 0")
    case True
    let ?w2 = "?w1\<lparr>calls := calls ?w1 @ [(ThreadDetach a, 0)]\<rparr>"
    obtain m' where "spawn_workers os a n ?w2 = Some ((st, m'), w')" "m = Suc m'"
      using run m l lk True by (auto simp: pool_lock_defs os_defs bind_eq_Some_conv)
    then show ?thesis
      by (intro spawned [of ?w2 "[(MutexLock a, 0), (MutexUnlock a, 0), (ThreadCreate a, ?st), (ThreadDetach a, 0)]"])
        (use True in \<open>auto simp: benign_def\<close>)
  next
    case False
    let ?k = "[(MutexLock a, 0), (MutexUnlock a, 0)]"
    let ?c' = "c\<lparr>refs := 2 + of_nat l, live_workers := int l\<rparr>"
    let ?w2 = "?w1\<lparr>calls := calls ?w1 @ ?k, mem := (mem w)(a \<mapsto> ?c')\<rparr>"
    have c': "mem ?w2 a = Some ?c'" "refs ?c' \<noteq> 1" using r by auto
    obtain w3 where w3: "sync_thread_pool_core_release os a ?w2 = Some w3"
        "sync_thread_pool_close_core_or_abort os a w3 = Some w'" "m = 0" "st = ?st"
      using run m l lk False by (auto simp: pool_lock_defs os_defs bind_eq_Some_conv)
    have m3: "mem w3 a = Some c" "calls w3 = calls ?w2"
      using release_eq(3,4) [OF c'(1) w3(1) c'(2)] m(2,3) by simp_all
    have cl: "sync_thread_pool_close_core os a w3 = Some (0, w')"
      using w3(2) by (auto simp: sync_thread_pool_close_core_or_abort_def bind_eq_Some_conv)
    show ?thesis
    proof (rule close_core_cases [OF m3(1) cl], goal_cases)
      case (2 s1 s2 s3)
      then show ?case
        by (intro fail [of "[(MutexLock a, 0), (MutexUnlock a, 0), (ThreadCreate a, ?st)] @ ?k @ [(MutexLock a, 0),
          (CondBroadcast a NotEmpty, s1), (CondBroadcast a NotFull, s2), (MutexUnlock a, s3)]"])
          (use w3(3,4) m3(2) False in \<open>auto simp: benign_def\<close>)
    qed simp
  qed
qed

lemma spawn_spec:
  assumes "mem w a = Some c" "refs c = 1 + of_nat l" "live_workers c = int l" "l + n \<le> 64"
    "spawn_workers os a n w = Some ((st, m), w')"
  shows "\<exists>ks. calls w' = calls w @ ks \<and> benign a ks \<and> (if st = 0 then m = n else m < n) \<and>
    mem w' a = Some (c\<lparr>refs := 1 + of_nat (l + m), live_workers := int (l + m),
      accepting := if st = 0 then accepting c else 0\<rparr>)"
  using assms
proof (induction n arbitrary: w c l m)
  case 0
  then show ?case by (intro exI [of _ "[]"]) (auto simp: benign_def)
next
  case (Suc n)
  have l: "l < 64" using Suc.prems(4) by simp
  show ?case
  proof (rule spawn_step [OF Suc.prems(1-3) l Suc.prems(5)], goal_cases)
    case (1 ks)
    then show ?case using Suc.prems(2,3) by (intro exI [of _ ks]) auto
  next
    case (2 w1 ks m')
    then obtain ls where "calls w' = calls w1 @ ls" "benign a ls" "if st = 0 then m' = n else m' < n"
      "mem w' a = Some (c\<lparr>refs := 1 + of_nat (Suc l + m'), live_workers := int (Suc l + m'),
        accepting := if st = 0 then accepting c else 0\<rparr>)"
      using Suc.IH [OF 2(1) _ _ _ 2(4), of "Suc l"] Suc.prems(4) by auto
    then show ?case using 2(2,3,5) by (intro exI [of _ "ks @ ls"]) (auto simp: benign_append)
  qed
qed

lemma should_fail_alone: "should_fail_loop n [] n = (if n = 0 then 1 else 0, if n < 0 then n else n - 1)"
  by (subst should_fail_loop.simps) (simp add: sync_test_atomic_compare_exchange_def)

declare should_fail_loop.simps [simp del]

lemma pool_try_alloc:
  assumes "sync_thread_pool_try_alloc os b w = (ok, w')"
  shows "mem w' = mem w" "fresh w' = fresh w" "calls w' = calls w @ (if ok then [(Calloc b, 0)] else [])"
  using assms by (auto simp: sync_thread_pool_try_alloc_def sync_thread_pool_test_should_fail_alloc_def
      sync_test_atomic_load_def should_fail_alone sync_try_alloc_def log_call_def Let_def split: if_splits)

text \<open>The constructor up to the loop that starts the workers.\<close>

lemma pool_new_cases:
  assumes run: "sync_thread_pool_new os n cap w = Some (r, w')"
  obtains (refused) st ks where "r = Refused st" "st \<noteq> 0" "calls w' = calls w @ ks" "\<And>x. balance x ks = 0"
      "mem w' = mem w \<or> mem w' = (mem w)(fresh w := None)"
  | (ready) w1 st m where "0 < n" "n \<le> SYNC_THREAD_POOL_MAX_WORKER_COUNT" "0 < cap" "cap \<le> SYNC_THREAD_POOL_MAX_CAPACITY"
      "mem w1 = (mem w)(fresh w \<mapsto> \<lparr>refs = 1, tasks = replicate (nat cap) None, capacity = cap, head = 0, tail = 0,
         queued = 0, worker_count = n, live_workers = 0, handles = 1, accepting = 1\<rparr>)"
      "calls w1 = calls w @ [(Calloc CoreBlock, 0), (Calloc SlotsBlock, 0), (MutexInit (fresh w), 0),
         (CondInit (fresh w) NotEmpty, 0), (CondInit (fresh w) NotFull, 0), (CondInit (fresh w) Stopped, 0)]"
      "spawn_workers os (fresh w) (nat n) w1 = Some ((st, m), w')"
      "r = (if st \<noteq> 0 then Failing st m else Made (sync_thread_pool_wrap (fresh w)) m)"
proof (cases "n \<le> 0 \<or> n > SYNC_THREAD_POOL_MAX_WORKER_COUNT \<or> cap \<le> 0 \<or>
         cap > SYNC_THREAD_POOL_MAX_CAPACITY \<or> nat cap > size_max os div pointer_size os")
  case True
  then show thesis using refused [of "- 1" "[]"] run by (simp add: sync_thread_pool_new_def)
next
  case valid: False
  obtain ok1 w1 where w1: "sync_thread_pool_try_alloc os CoreBlock w = (ok1, w1)" by fastforce
  obtain ok2 w2 where w2: "sync_thread_pool_try_alloc os SlotsBlock (w1\<lparr>fresh := Suc (fresh w)\<rparr>) = (ok2, w2)" by fastforce
  note A1 = pool_try_alloc [OF w1] and A2 = pool_try_alloc [OF w2]
  consider "\<not> ok1" | "ok1" "\<not> ok2" | "ok1" "ok2" by blast
  then show thesis
  proof cases
    case 1
    then show ?thesis
      using refused [of SYNC_THREAD_POOL_ALLOCATION_FAILED "[]"] run valid w1 A1
      by (auto simp: sync_thread_pool_new_def SYNC_THREAD_POOL_ALLOCATION_FAILED_def)
  next
    case 2
    then show ?thesis
      using refused [of SYNC_THREAD_POOL_ALLOCATION_FAILED "[(Calloc CoreBlock, 0), (Free CoreBlock, 0)]"] run valid w1 A1 w2 A2
      by (auto simp: sync_thread_pool_new_def SYNC_THREAD_POOL_ALLOCATION_FAILED_def os_defs)
  next
    case 3
    let ?a = "fresh w"
    let ?w = "w2\<lparr>mem := (mem w2)(?a \<mapsto> \<lparr>refs = 1, tasks = replicate (nat cap) None, capacity = cap, head = 0, tail = 0,
         queued = 0, worker_count = n, live_workers = 0, handles = 1, accepting = 1\<rparr>)\<rparr>"
    let ?s1 = "posix_status os (MutexInit ?a) (calls w2)"
    let ?s2 = "posix_status os (CondInit ?a NotEmpty) (calls w2 @ [(MutexInit ?a, 0)])"
    let ?s3 = "posix_status os (CondInit ?a NotFull) (calls w2 @ [(MutexInit ?a, 0), (CondInit ?a NotEmpty, 0)])"
    let ?s4 = "posix_status os (CondInit ?a Stopped) (calls w2 @ [(MutexInit ?a, 0), (CondInit ?a NotEmpty, 0), (CondInit ?a NotFull, 0)])"
    note unf = sync_thread_pool_new_def os_defs
    note facts = run valid w1 A1 w2 A2 3
    consider "?s1 \<noteq> 0" | "?s1 = 0" "?s2 \<noteq> 0" | "?s1 = 0" "?s2 = 0" "?s3 \<noteq> 0" | "?s1 = 0" "?s2 = 0" "?s3 = 0" "?s4 \<noteq> 0"
      | "?s1 = 0" "?s2 = 0" "?s3 = 0" "?s4 = 0" by blast
    then show ?thesis
    proof cases
      case 1
      then show ?thesis
        using refused [of ?s1 "[(Calloc CoreBlock, 0), (Calloc SlotsBlock, 0), (MutexInit ?a, ?s1), (Free SlotsBlock, 0), (Free CoreBlock, 0)]"] facts
        by (auto simp: unf)
    next
      case 2
      then show ?thesis
        using refused [of ?s2 "[(Calloc CoreBlock, 0), (Calloc SlotsBlock, 0), (MutexInit ?a, 0), (CondInit ?a NotEmpty, ?s2), (MutexDestroy ?a, 0),
          (Free SlotsBlock, 0), (Free CoreBlock, 0)]"] facts
        by (auto simp: unf)
    next
      case 3
      then show ?thesis
        using refused [of ?s3 "[(Calloc CoreBlock, 0), (Calloc SlotsBlock, 0), (MutexInit ?a, 0), (CondInit ?a NotEmpty, 0), (CondInit ?a NotFull, ?s3),
          (CondDestroy ?a NotEmpty, 0), (MutexDestroy ?a, 0), (Free SlotsBlock, 0), (Free CoreBlock, 0)]"] facts
        by (auto simp: unf)
    next
      case 4
      then show ?thesis
        using refused [of ?s4 "[(Calloc CoreBlock, 0), (Calloc SlotsBlock, 0), (MutexInit ?a, 0), (CondInit ?a NotEmpty, 0), (CondInit ?a NotFull, 0),
          (CondInit ?a Stopped, ?s4), (CondDestroy ?a NotFull, 0), (CondDestroy ?a NotEmpty, 0), (MutexDestroy ?a, 0),
          (Free SlotsBlock, 0), (Free CoreBlock, 0)]"] facts
        by (auto simp: unf)
    next
      case 5
      let ?w6 = "?w\<lparr>calls := calls w2 @ [(MutexInit ?a, 0), (CondInit ?a NotEmpty, 0), (CondInit ?a NotFull, 0), (CondInit ?a Stopped, 0)]\<rparr>"
      obtain st m where "spawn_workers os ?a (nat n) ?w6 = Some ((st, m), w')"
          "r = (if st \<noteq> 0 then Failing st m else Made (sync_thread_pool_wrap ?a) m)"
        using facts 5 by (auto simp: unf bind_eq_Some_conv)
      then show ?thesis using ready [of ?w6 st m] facts by simp
    qed
  qed
qed

subsection \<open>The first state\<close>

lemma replicate_counts [simp]:
  "clients (replicate_mset m x) = (if is_client x then m else 0)" "makers (replicate_mset m x) = (if is_maker x then m else 0)"
  "workers (replicate_mset m x) = (if is_worker x then m else 0)" "lives (replicate_mset m x) = (if is_live x then m else 0)"
  by (induction m) auto

lemma replicate_inflight [simp]: "task_of x = {#} \<Longrightarrow> inflight (replicate_mset m x) = {#}"
  by (induction m) auto

lemma pool_boot_cases:
  assumes boot: "pool_boot os n cap w = Some (fails, s)"
  obtains x k m ks where "agents s = add_mset (x, k) (replicate_mset m (sync_thread_pool_worker_start (fresh w)))" "past s = []"
    "if fails then x = Maker (fresh w) \<and> int m < n \<and> (\<exists>st. k = Runnable (MakeLockK st))
     else x = Client (sync_thread_pool_wrap (fresh w)) \<and> int m = n \<and> k = Ready"
    "mem (wrld s) (fresh w) = Some \<lparr>refs = 1 + of_nat m, tasks = replicate (nat cap) None, capacity = cap, head = 0, tail = 0,
       queued = 0, worker_count = n, live_workers = int m, handles = 1, accepting = if fails then 0 else 1\<rparr>"
    "calls (wrld s) = calls w @ [(Calloc CoreBlock, 0), (Calloc SlotsBlock, 0), (MutexInit (fresh w), 0),
       (CondInit (fresh w) NotEmpty, 0), (CondInit (fresh w) NotFull, 0), (CondInit (fresh w) Stopped, 0)] @ ks"
    "benign (fresh w) ks" "0 < n" "n \<le> SYNC_THREAD_POOL_MAX_WORKER_COUNT" "0 < cap" "cap \<le> SYNC_THREAD_POOL_MAX_CAPACITY"
proof -
  obtain r w' where r: "sync_thread_pool_new os n cap w = Some (r, w')" using boot by (auto simp: pool_boot_def bind_eq_Some_conv)
  show thesis
  proof (rule pool_new_cases [OF r], goal_cases)
    case (1 st ks)
    then show ?case using boot r by (simp add: pool_boot_def)
  next
    case (2 w1 st m)
    have l: "0 + nat n \<le> 64" using 2(2) by (simp add: SYNC_THREAD_POOL_MAX_WORKER_COUNT_def)
    obtain ks where ks: "calls w' = calls w1 @ ks" "benign (fresh w) ks" "if st = 0 then m = nat n else m < nat n"
      "mem w' (fresh w) = Some \<lparr>refs = 1 + of_nat m, tasks = replicate (nat cap) None, capacity = cap, head = 0, tail = 0,
         queued = 0, worker_count = n, live_workers = int m, handles = 1, accepting = if st = 0 then 1 else 0\<rparr>"
      using spawn_spec [OF _ _ _ l 2(7)] 2(5) by auto
    have n: "0 \<le> n" using 2(1) by simp
    show ?case
    proof (cases "st = 0")
      case True
      have "fails = False" "s = \<lparr>wrld = w', agents = add_mset (Client (sync_thread_pool_wrap (fresh w)), Ready)
          (replicate_mset m (sync_thread_pool_worker_start (fresh w))), past = []\<rparr>"
        using boot r 2(8) True by (auto simp: pool_boot_def)
      then show ?thesis using that [of "Client (sync_thread_pool_wrap (fresh w))" Ready m ks] True ks 2 n by simp
    next
      case False
      have "fails = True" "s = \<lparr>wrld = w', agents = add_mset (Maker (fresh w), Runnable (MakeLockK st))
          (replicate_mset m (sync_thread_pool_worker_start (fresh w))), past = []\<rparr>"
        using boot r 2(8) False by (auto simp: pool_boot_def)
      then show ?thesis using that [of "Maker (fresh w)" "Runnable (MakeLockK st)" m ks] False ks 2 n by auto
    qed
  qed
qed

lemma pool_boot_inv:
  assumes boot: "pool_boot os n cap w = Some (fails, s)" and free: "mutex_state (fresh w) w = Some False"
  shows "pool_inv fails n (mset (runs (calls w))) (mset (decrefs (calls w))) (fresh w) (\<lambda>r. balance r (calls w))
      (wrld s) (image_mset tag (agents s)) (past s)" "sleepers cv (agents s) = 0" "sleepers_in cv K (agents s)"
proof -
  let ?I = "\<lambda>fails. pool_inv fails n (mset (runs (calls w))) (mset (decrefs (calls w))) (fresh w) (\<lambda>r. balance r (calls w))
      (wrld s) (image_mset tag (agents s)) (past s) \<and> sleepers cv (agents s) = 0 \<and> sleepers_in cv K (agents s)"
  have "?I fails"
  proof (rule pool_boot_cases [OF boot], goal_cases)
    case (1 x k m ks)
    have cap: "i32 cap" using 1(9,10) by (simp add: i32_def INT32_MIN_def INT32_MAX_def SYNC_THREAD_POOL_MAX_CAPACITY_def)
    have q: "ring_list (replicate (nat cap) None) 0 0 = []" by (simp add: ring_list_empty)
    have z: "sleepers cv (replicate_mset m (sync_thread_pool_worker_start (fresh w))) = 0"
      "sleepers_in cv K (replicate_mset m (sync_thread_pool_worker_start (fresh w)))"
      by (induction m) (auto simp: sync_thread_pool_worker_start_def Let_def)
    have "decrefs (calls (wrld s)) = decrefs (calls w)" using 1 by (simp add: benign_def)
    then have late: "mset (decrefs (take j (calls (wrld s)))) \<subseteq># mset (decrefs (calls w)) + mset (runs (take j (calls (wrld s))))" for j
      using decrefs_prefix [of j "calls (wrld s)"] by (metis mset_subset_eq_add_left subset_mset.order_trans)
    show ?case
      using 1 free q z late ring_ok_initial [OF 1(9) cap]
      by (cases fails) (auto simp: pool_inv_def pool_shape_def pool_books_def pool_queue_def benign_def pool_resources_def
          mutex_state_def mutex_run_append sync_thread_pool_wrap_def INT32_MAX_def sync_thread_pool_worker_start_def Let_def)
  qed
  then show "pool_inv fails n (mset (runs (calls w))) (mset (decrefs (calls w))) (fresh w) (\<lambda>r. balance r (calls w))
      (wrld s) (image_mset tag (agents s)) (past s)" "sleepers cv (agents s) = 0" "sleepers_in cv K (agents s)" by blast+
qed

end
