(* ===== verification/Sync_ThreadPool_Correct.thy ===== *)
theory Sync_ThreadPool_Correct
  imports Sync_ThreadPool_Invariant
begin

text \<open>
  Correctness of the thread pool. The safety properties hold for every behaviour of the
  operating system; those about wake-ups are for one whose calls do not fail.
\<close>

section \<open>Specification\<close>

text \<open>What a piece of code does to the fields that threads wait for, on a working system.\<close>

datatype pool_change = Quiet | SleepWork | SleepRoom | SleepStop | Closes | Pushes | Pops | Leaves | Frees

fun changes ::
  "pool_change \<Rightarrow> addr \<Rightarrow> 'v sync_thread_pool_core_t \<Rightarrow> 'v history \<Rightarrow> (pool_ret, 'v pool_k) outcome \<Rightarrow>
   'v sync_thread_pool_core_t option \<Rightarrow> bool" where
  "changes Quiet a c ks out d \<longleftrightarrow> (\<exists>c'. d = Some c' \<and> queued c' = queued c \<and> capacity c' = capacity c \<and>
     accepting c' = accepting c \<and> live_workers c' = live_workers c) \<and> (\<forall>cv k. out \<noteq> Wait cv k)"
| "changes SleepWork a c ks out d \<longleftrightarrow> d = Some c \<and> out = Wait NotEmpty WorkWaitK \<and> queued c = 0 \<and> accepting c \<noteq> 0"
| "changes SleepRoom a c ks out d \<longleftrightarrow> d = Some c \<and> (\<exists>v e. out = Wait NotFull (SubmitK v e)) \<and>
     queued c = capacity c \<and> accepting c \<noteq> 0"
| "changes SleepStop a c ks out d \<longleftrightarrow> d = Some c \<and> (\<exists>k. out = Wait Stopped k) \<and> live_workers c \<noteq> 0"
| "changes Closes a c ks out d \<longleftrightarrow> (\<exists>c'. d = Some c' \<and> queued c' = queued c \<and> capacity c' = capacity c \<and>
     accepting c' = 0 \<and> live_workers c' = live_workers c) \<and> (\<forall>cv k. out \<noteq> Wait cv k) \<and>
     broadcasts a NotEmpty ks \<and> broadcasts a NotFull ks"
| "changes Pushes a c ks out d \<longleftrightarrow> (\<exists>c'. d = Some c' \<and> queued c' = queued c + 1 \<and> capacity c' = capacity c \<and>
     accepting c' = accepting c \<and> live_workers c' = live_workers c) \<and> (\<forall>cv k. out \<noteq> Wait cv k) \<and>
     signals a NotEmpty ks = 1"
| "changes Pops a c ks out d \<longleftrightarrow> (\<exists>c'. d = Some c' \<and> queued c' = queued c - 1 \<and> capacity c' = capacity c \<and>
     accepting c' = accepting c \<and> live_workers c' = live_workers c) \<and> (\<exists>v. out = Again (WorkTaskK v)) \<and>
     queued c \<noteq> 0 \<and> signals a NotFull ks = 1"
| "changes Leaves a c ks out d \<longleftrightarrow> (\<exists>c'. d = Some c' \<and> queued c' = queued c \<and> capacity c' = capacity c \<and>
     accepting c' = accepting c) \<and> out = Again WorkLeaveK \<and> queued c = 0 \<and> accepting c = 0 \<and> broadcasts a Stopped ks"
| "changes Frees a c ks out d \<longleftrightarrow> d = None \<and> (\<forall>cv k. out \<noteq> Wait cv k)"

text \<open>The quantities that the condition variables stand for.\<close>

definition pool_work :: "addr \<Rightarrow> 'v pool_world \<Rightarrow> nat" where
  "pool_work a w = (case mem w a of None \<Rightarrow> 0 | Some c \<Rightarrow> nat (queued c))"

definition pool_room :: "addr \<Rightarrow> 'v pool_world \<Rightarrow> nat" where
  "pool_room a w = (case mem w a of None \<Rightarrow> 0 | Some c \<Rightarrow> if accepting c \<noteq> 0 then nat (capacity c - queued c) else 0)"

definition pool_open :: "addr \<Rightarrow> 'v pool_world \<Rightarrow> bool" where
  "pool_open a w = (case mem w a of None \<Rightarrow> True | Some c \<Rightarrow> accepting c \<noteq> 0)"

definition pool_busy :: "addr \<Rightarrow> 'v pool_world \<Rightarrow> bool" where
  "pool_busy a w = (case mem w a of None \<Rightarrow> True | Some c \<Rightarrow> live_workers c \<noteq> 0)"

fun waits_room :: "'v pool_k \<Rightarrow> bool" where
  "waits_room (SubmitK v e) = True"
| "waits_room _ = False"

text \<open>The agents with what they have to do; the tasks in the queue.\<close>

definition pool_tags :: "('v, 'z, 'v pool_op, pool_agent, 'v pool_k, pool_ret) config \<Rightarrow> 'v pool_tag multiset" where
  "pool_tags t = image_mset tag (agents t)"

definition waiting_tasks :: "addr \<Rightarrow> 'v pool_world \<Rightarrow> 'v list" where
  "waiting_tasks a w = (case mem w a of None \<Rightarrow> [] | Some c \<Rightarrow> pool_queue c)"

text \<open>What a worker has still to do before it is back in the loop, or gone.\<close>

fun stage :: "'v pool_k \<Rightarrow> nat" where
  "stage WorkLockK = 2"
| "stage WorkWaitK = 2"
| "stage (WorkTaskK v) = 3"
| "stage WorkLeaveK = 1"
| "stage _ = 0"

fun stage_after :: "(pool_ret, 'v pool_k) outcome \<Rightarrow> nat" where
  "stage_after (Return r) = 0"
| "stage_after (Again k) = stage k"
| "stage_after (Wait cv k) = stage k"

text \<open>Concrete runs.\<close>

definition pool_empty_world :: "nat pool_world" where
  "pool_empty_world = \<lparr>calls = [], mem = Map.empty, fresh = 0, alloc_fail_after = - 1, next_submit_error = 0, next_shutdown_error = 0\<rparr>"

definition pool_demo ::
  "nat \<Rightarrow> int \<Rightarrow> nat pool_op choice list \<Rightarrow>
   (nat pool_world \<times> (pool_agent \<times> nat pool_k mode) list \<times> (nat pool_op \<times> pool_ret) list) option" where
  "pool_demo n cap xs = do {
     (fails, s) \<leftarrow> pool_boot quiet_os (int n) cap pool_empty_world;
     if fails then None
     else exec (pool_monitor 0) quiet_os xs
       (wrld s, (Client (sync_thread_pool_wrap 0), Ready) # replicate n (sync_thread_pool_worker_start 0), []) }"

section \<open>Lemmas\<close>

subsection \<open>What each piece does to the wait conditions\<close>

lemma new_calls_eq: "calls w' = calls w @ ks \<Longrightarrow> new_calls w w' = ks"
  by (simp add: new_calls_def)

lemma close_core_change:
  assumes "os_ok os" "mem w a = Some c" "sync_thread_pool_close_core os a w = Some (st, w')" "\<forall>cv k. out \<noteq> Wait cv k"
  shows "changes Closes a c (new_calls w w') out (mem w' a) \<and> st = 0"
  using assms by (auto simp: sync_thread_pool_close_core_def os_defs new_calls_eq broadcasts_def)

lemma submit_loop_change:
  assumes ok: "os_ok os" and c: "mem w a = Some c" "pool_shape fails n c A"
    and run: "sync_thread_pool_submit_loop os a v block e (w\<lparr>calls := calls w @ [ev]\<rparr>) = Some (out, w')"
    and ev: "ev \<noteq> (CondSignal a NotEmpty, 0)"
  shows "changes SleepRoom a c (new_calls w w') out (mem w' a) \<or> changes Pushes a c (new_calls w w') out (mem w' a) \<or>
    changes Quiet a c (new_calls w w') out (mem w' a) \<and> (accepting c = 0 \<or> block = 0)"
proof -
  have m: "mem (w\<lparr>calls := calls w @ [ev]\<rparr>) a = Some c" using c(1) by simp
  show ?thesis
  proof (rule submit_loop_cases [OF m c(2) run], goal_cases)
    case 1
    then show ?case using c(1) by simp
  next
    case (2 r e' st)
    then show ?case using c(1) by (auto split: if_splits)
  next
    case (3 e' s1 s2)
    then have "signals a NotEmpty (new_calls w w') = 1" using ok ev by (simp add: new_calls_def signals_def)
    then show ?case using 3 c(1) by (simp add: pushed_def)
  qed
qed

lemma worker_loop_change:
  assumes ok: "os_ok os" and c: "mem w a = Some c" "pool_shape fails n c (add_mset x A)" "is_live x"
    and run: "sync_thread_pool_worker_loop os a (w\<lparr>calls := calls w @ [ev]\<rparr>) = Some (out, w')"
    and ev: "ev \<noteq> (CondSignal a NotFull, 0)"
  shows "changes SleepWork a c (new_calls w w') out (mem w' a) \<or> changes Pops a c (new_calls w w') out (mem w' a) \<or>
    changes Leaves a c (new_calls w w') out (mem w' a)"
proof -
  have m: "mem (w\<lparr>calls := calls w @ [ev]\<rparr>) a = Some c" using c(1) by simp
  consider "queued c = 0" "accepting c \<noteq> 0" | "queued c = 0" "accepting c = 0" | "queued c \<noteq> 0" by blast
  then show ?thesis
  proof cases
    case 1
    then show ?thesis using run worker_loop_sleep [OF m, of os] c(1) by auto
  next
    case 2
    then show ?thesis using worker_loop_leave [OF m 2 c(2,3) run] by (simp add: new_calls_def broadcasts_def)
  next
    case 3
    show ?thesis
    proof (rule worker_loop_take [OF m 3 c(2) run], goal_cases)
      case (1 v)
      then have "signals a NotFull (new_calls w w') = 1" using ev by (simp add: new_calls_def signals_def)
      then show ?case using 1 3 by (simp add: popped_def)
    qed
  qed
qed

lemma release_change:
  assumes "pool_shape fails n c2 (add_mset x A)" "mem w1 a = Some c" "refs c = refs c2"
    "\<not> is_live x" "queued c = queued c2" "\<forall>cv k. out \<noteq> Wait cv k" "sync_thread_pool_core_release os a w1 = Some w'"
  shows "mem w' a = None \<and> calls w' = calls w1 @ [(Free SlotsBlock, 0), (CondDestroy a Stopped, 0),
       (CondDestroy a NotFull, 0), (CondDestroy a NotEmpty, 0), (MutexDestroy a, 0), (Free CoreBlock, 0)] \<or>
    mem w' a = Some (c\<lparr>refs := refs c - 1\<rparr>) \<and> calls w' = calls w1"
proof (cases "refs c = 1")
  case True
  then have "A = {#}" using shape_refs(1) [OF assms(1)] assms(3) by simp
  then have "queued c = 0" using assms(1,4,5) by (auto simp: pool_shape_def)
  then show ?thesis using release_eq(1,2) [OF assms(2,7) True] by simp
qed (use release_eq(3,4) [OF assms(2,7)] in simp)

lemma wait_workers_change:
  assumes ok: "os_ok os" and c: "mem w a = Some c" "pool_shape fails n c (add_mset (Maker a, Some k) A)"
    and run: "sync_thread_pool_wait_workers_loop os a st (w\<lparr>calls := calls w @ [ev]\<rparr>) = Some (out, w')"
  shows "changes SleepStop a c (new_calls w w') out (mem w' a) \<or> changes Frees a c (new_calls w w') out (mem w' a) \<or>
    changes Quiet a c (new_calls w w') out (mem w' a)"
proof (cases "live_workers c = 0")
  case True
  let ?w1 = "w\<lparr>calls := calls w @ [ev, (MutexUnlock a, 0)]\<rparr>"
  have o: "out = Return (MakeFailed st)" "sync_thread_pool_core_release os a ?w1 = Some w'" "mem ?w1 a = Some c"
    using run c(1) True by (auto simp: sync_thread_pool_wait_workers_loop_def pool_lock_defs os_defs bind_eq_Some_conv)
  then show ?thesis using release_change [OF c(2) o(3) _ _ _ _ o(2), of out] by auto
next
  case False
  then show ?thesis using run c(1) by (auto simp: sync_thread_pool_wait_workers_loop_def os_defs)
qed

lemma shutdown_loop_change:
  assumes "mem w a = Some c" "sync_thread_pool_shutdown_loop os a st (w\<lparr>calls := calls w @ [ev]\<rparr>) = Some (out, w')"
  shows "changes SleepStop a c (new_calls w w') out (mem w' a) \<or> changes Quiet a c (new_calls w w') out (mem w' a)"
  using assms by (auto simp: sync_thread_pool_shutdown_loop_def shutdown_end_def os_defs split: if_splits)

subsection \<open>Every entry and every continuation\<close>

lemma finalize_change:
  assumes ok: "os_ok os" and inv: "pool_inv fails n R D a B w (add_mset (Client h, None) A) ps" and c: "mem w a = Some c"
    and run: "sync_thread_pool_finalize os h w = Some w'"
  shows "\<exists>ch. changes ch a c (new_calls w w') (Return PoolDropped) (mem w' a)"
proof -
  obtain c2 where c2: "mem w a = Some c2" "pool_shape fails n c2 (add_mset (Client h, None) A)" by (rule pool_invD [OF inv])
  note a = pool_client [OF inv] and sh = shape_finalize [OF c2(2)]
  have e: "c2 = c" using c2(1) c by simp
  let ?c = "c\<lparr>handles := handles c - 1, accepting := if handles c = 1 then 0 else accepting c\<rparr>"
  let ?ks = "[(MutexLock a, 0)] @ (if handles c = 1 then [(CondBroadcast a NotEmpty, 0), (CondBroadcast a NotFull, 0)] else []) @ [(MutexUnlock a, 0)]"
  let ?w1 = "w\<lparr>calls := calls w @ ?ks, mem := (mem w)(a \<mapsto> ?c)\<rparr>"
  have keep: "handles c \<noteq> 1 \<Longrightarrow> ?c = c\<lparr>handles := handles c - 1\<rparr>" by simp
  have r: "sync_thread_pool_core_release os a ?w1 = Some w'"
    using run a c sh(1,2) keep ok unfolding e
    by (cases "handles c = 1") (auto simp: sync_thread_pool_finalize_def pool_lock_defs os_defs bind_eq_Some_conv)
  have m: "mem ?w1 a = Some ?c" by simp
  from release_change [OF c2(2) m _ _ _ _ r, of "Return PoolDropped"] e
  consider "mem w' a = None" | "mem w' a = Some (?c\<lparr>refs := refs c - 1\<rparr>)" "calls w' = calls w @ ?ks" by auto
  then show ?thesis
  proof cases
    case 1
    then show ?thesis by (intro exI [of _ Frees]) simp
  next
    case 2
    then show ?thesis
      by (intro exI [of _ "if handles c = 1 then Closes else Quiet"]) (auto simp: new_calls_eq broadcasts_def)
  qed
qed

lemma submit_task_change:
  assumes ok: "os_ok os" and c: "core h = Some a" "mem w a = Some c" "pool_shape fails n c A"
    and run: "sync_thread_pool_submit_task os cur h v block w = Some (out, w')"
  shows "\<exists>ch. changes ch a c (new_calls w w') out (mem w' a)"
proof -
  let ?w = "w\<lparr>next_submit_error := 0\<rparr>"
  have n: "new_calls ?w w' = new_calls w w'" by (simp add: new_calls_def)
  show ?thesis
  proof (cases "next_submit_error w \<noteq> 0 \<or> block \<noteq> 0 \<and> accepting c \<noteq> 0 \<and> cur = Some a \<and> queued c = capacity c")
    case True
    then have "changes Quiet a c (new_calls w w') out (mem w' a)"
      using run c ok by (auto simp: sync_thread_pool_submit_task_def sync_thread_pool_take_test_error_def submit_drop_def os_defs split: if_splits)
    then show ?thesis by blast
  next
    case False
    then have "sync_thread_pool_submit_loop os a v block 0 (?w\<lparr>calls := calls ?w @ [(MutexLock a, 0)]\<rparr>) = Some (out, w')"
      using run c ok by (auto simp: sync_thread_pool_submit_task_def sync_thread_pool_take_test_error_def os_defs)
    from submit_loop_change [OF ok _ c(3) this] c(2) n show ?thesis by (auto simp del: changes.simps)
  qed
qed

lemma pool_enter_change:
  assumes ok: "os_ok os" and inv: "pool_inv fails n R D a B w (add_mset (x, None) A) ps" and may: "pool_may op x"
    and c: "mem w a = Some c" and run: "pool_enter os op x w = Some (out, w')"
  shows "\<exists>ch. changes ch a c (new_calls w w') out (mem w' a)"
proof -
  obtain h where x: "x = Client h" using pool_may_client [OF may] by blast
  note inv = inv [unfolded x] and a = pool_client [OF inv [unfolded x]]
  obtain c2 where c2: "mem w a = Some c2" "pool_shape fails n c2 (add_mset (Client h, None) A)" by (rule pool_invD [OF inv])
  have sh: "pool_shape fails n c (add_mset (Client h, None) A)" using c2 c by simp
  have quiet: ?thesis if "changes Quiet a c (new_calls w w') out (mem w' a)" using that by blast
  show ?thesis
  proof (cases op)
    case PoolShare
    then show ?thesis using run x a c ok shape_share(2) [OF sh]
      by (cases "handles c = INT32_MAX") (auto simp: sync_thread_pool_share_def os_defs intro!: quiet)
  next
    case (PoolTryExecute v cur)
    then show ?thesis using run x submit_task_change [OF ok a c sh] by (simp add: sync_thread_pool_try_execute_def)
  next
    case (PoolExecute v cur)
    then show ?thesis using run x submit_task_change [OF ok a c sh] by (simp add: sync_thread_pool_execute_def)
  next
    case PoolClose
    then obtain st where o: "sync_thread_pool_close_core os a w = Some (st, w')" "out = Return (PoolStatus st)"
      using run x a by (auto simp: sync_thread_pool_close_def)
    show ?thesis using close_core_change [OF ok c o(1), of out] o(2) by (intro exI [of _ Closes]) auto
  next
    case (PoolShutdown cur)
    let ?w = "w\<lparr>next_shutdown_error := 0\<rparr>"
    have n: "new_calls ?w w' = new_calls w w'" and m: "mem ?w a = Some c" using c by (simp_all add: new_calls_def)
    show ?thesis
    proof (cases "next_shutdown_error w \<noteq> 0 \<or> cur = Some a")
      case True
      then show ?thesis using run x a c PoolShutdown
        by (auto simp: sync_thread_pool_shutdown_def sync_thread_pool_take_test_error_def os_defs intro!: quiet split: if_splits)
    next
      case False
      then obtain st where o: "sync_thread_pool_close_core os a ?w = Some (st, w')" "\<forall>cv k. out \<noteq> Wait cv k"
        using run x a PoolShutdown
        by (auto simp: sync_thread_pool_shutdown_def sync_thread_pool_take_test_error_def sync_test_atomic_take_def
            Let_def bind_eq_Some_conv split: if_splits)
      show ?thesis using close_core_change [OF ok m o(1), of out] o(2) n by (intro exI [of _ Closes]) auto
    qed
  next
    case PoolIsClosed
    then show ?thesis using run x a c ok by (auto simp: sync_thread_pool_is_closed_def os_defs intro!: quiet)
  next
    case PoolWorkerCount
    then show ?thesis using run x a c by (intro quiet) (auto simp: sync_thread_pool_worker_count_def)
  next
    case PoolPendingCount
    then show ?thesis using run x a c ok by (auto simp: sync_thread_pool_pending_count_def os_defs intro!: quiet)
  next
    case PoolFinalize
    then show ?thesis using run x finalize_change [OF ok inv c] by auto
  qed (use may in simp_all)
qed

lemma pool_resume_change:
  assumes ok: "os_ok os" and inv: "pool_inv fails n R D a B w (add_mset (x, Some k) A) ps"
    and c: "mem w a = Some c" and run: "pool_resume os k x w = Some (out, w')"
  shows "\<exists>ch. changes ch a c (new_calls w w') out (mem w' a) \<and>
    (k = WorkWaitK \<longrightarrow> ch \<in> {SleepWork, Pops, Leaves}) \<and>
    (\<forall>v e. k = SubmitK v e \<longrightarrow> ch \<in> {SleepRoom, Pushes} \<or> ch = Quiet \<and> accepting c = 0)"
proof -
  obtain c2 where c2: "mem w a = Some c2" "pool_shape fails n c2 (add_mset (x, Some k) A)" by (rule pool_invD [OF inv])
  have sh: "pool_shape fails n c (add_mset (x, Some k) A)" using c2 c by simp
  have tag: "tag_ok a (x, Some k)" using inv by (simp add: pool_inv_def)
  then have s: "pool_site x = Some a" by (cases x) auto
  show ?thesis
  proof (cases k)
    case (SubmitK v e)
    then have "sync_thread_pool_submit_loop os a v 1 e (w\<lparr>calls := calls w @ [(CondWait a NotFull, 0)]\<rparr>) = Some (out, w')"
      using run s ok by (simp add: pool_resume_def sync_thread_pool_submit_wake_def os_defs)
    from submit_loop_change [OF ok c sh this] SubmitK show ?thesis by (auto simp del: changes.simps)
  next
    case ShutLockK
    then have "sync_thread_pool_shutdown_loop os a 0 (w\<lparr>calls := calls w @ [(MutexLock a, 0)]\<rparr>) = Some (out, w')"
      using run s ok by (simp add: pool_resume_def sync_thread_pool_shutdown_lock_def os_defs)
    from shutdown_loop_change [OF c this] ShutLockK show ?thesis by (auto simp del: changes.simps)
  next
    case (ShutWaitK st)
    then have "sync_thread_pool_shutdown_loop os a st (w\<lparr>calls := calls w @ [(CondWait a Stopped, 0)]\<rparr>) = Some (out, w')"
      using run s ok by (simp add: pool_resume_def sync_thread_pool_shutdown_wake_def os_defs)
    from shutdown_loop_change [OF c this] ShutWaitK show ?thesis by (auto simp del: changes.simps)
  next
    case WorkLockK
    then have "sync_thread_pool_worker_loop os a (w\<lparr>calls := calls w @ [(MutexLock a, 0)]\<rparr>) = Some (out, w')" "is_live (x, Some k)"
      using run s ok tag by (cases x; simp add: pool_resume_def sync_thread_pool_worker_lock_def pool_lock_defs os_defs)+
    from worker_loop_change [OF ok c sh this(2,1)] WorkLockK show ?thesis by (auto simp del: changes.simps)
  next
    case WorkWaitK
    then have "sync_thread_pool_worker_loop os a (w\<lparr>calls := calls w @ [(CondWait a NotEmpty, 0)]\<rparr>) = Some (out, w')" "is_live (x, Some k)"
      using run s ok tag by (cases x; simp add: pool_resume_def sync_thread_pool_worker_wake_def os_defs)+
    from worker_loop_change [OF ok c sh this(2,1)] WorkWaitK show ?thesis by (auto simp del: changes.simps)
  next
    case (WorkTaskK v)
    then show ?thesis using run s c
      by (intro exI [of _ Quiet]) (auto simp: pool_resume_def sync_thread_pool_worker_task_def run_closure_def os_defs)
  next
    case WorkLeaveK
    then have o: "out = Return WorkerDone" "sync_thread_pool_core_release os a w = Some w'" and l: "\<not> is_live (x, Some k)"
      using run s tag by (cases x; auto simp: pool_resume_def sync_thread_pool_worker_leave_def)+
    from release_change [OF sh c refl l refl _ o(2), of out] o(1)
    have "changes Frees a c (new_calls w w') out (mem w' a) \<or> changes Quiet a c (new_calls w w') out (mem w' a)" by auto
    then show ?thesis using WorkLeaveK by (auto simp del: changes.simps)
  next
    case (MakeLockK st)
    then have x: "x = Maker a" using tag by (cases x) auto
    have "sync_thread_pool_wait_workers_loop os a st (w\<lparr>calls := calls w @ [(MutexLock a, 0)]\<rparr>) = Some (out, w')"
      using run s ok MakeLockK by (simp add: pool_resume_def sync_thread_pool_wait_workers_start_def pool_lock_defs os_defs)
    from wait_workers_change [OF ok c sh [unfolded x] this] MakeLockK show ?thesis by (auto simp del: changes.simps)
  next
    case (MakeWaitK st)
    then have x: "x = Maker a" using tag by (cases x) auto
    have "sync_thread_pool_wait_workers_loop os a st (w\<lparr>calls := calls w @ [(CondWait a Stopped, 0)]\<rparr>) = Some (out, w')"
      using run s ok MakeWaitK by (simp add: pool_resume_def sync_thread_pool_wait_workers_wake_def os_defs)
    from wait_workers_change [OF ok c sh [unfolded x] this] MakeWaitK show ?thesis by (auto simp del: changes.simps)
  qed
qed

subsection \<open>Wake-ups\<close>

lemma changes_signal:
  assumes "changes ch a c ks out (mem w' a)" "mem w a = Some c" "0 \<le> queued c" "queued c \<le> capacity c"
  shows "pool_work a w' \<le> pool_work a w + signals a NotEmpty ks \<or> pool_work a w' = 0"
    "pool_room a w' \<le> pool_room a w + signals a NotFull ks \<or> pool_room a w' = 0"
    "ch \<in> {SleepWork, Pops, Leaves} \<Longrightarrow> pool_work a w' + 1 \<le> pool_work a w \<or> pool_work a w' = 0"
    "ch \<in> {SleepRoom, Pushes} \<Longrightarrow> pool_room a w' + 1 \<le> pool_room a w \<or> pool_room a w' = 0"
    "ch = Quiet \<Longrightarrow> accepting c = 0 \<Longrightarrow> pool_room a w' = 0"
    "out = Wait NotEmpty k \<Longrightarrow> pool_work a w' = 0 \<and> k = WorkWaitK"
    "out = Wait NotFull k \<Longrightarrow> pool_room a w' = 0 \<and> waits_room k"
  using assms by (cases ch; fastforce simp: pool_work_def pool_room_def)+

lemma changes_broadcast:
  assumes "changes ch a c ks out (mem w' a)" "mem w a = Some c"
  shows "pool_open a w \<Longrightarrow> pool_open a w' \<or> broadcasts a NotEmpty ks \<and> broadcasts a NotFull ks"
    "pool_busy a w \<Longrightarrow> pool_busy a w' \<or> broadcasts a Stopped ks"
    "out = Wait NotEmpty k \<Longrightarrow> pool_open a w'" "out = Wait NotFull k \<Longrightarrow> pool_open a w'" "out = Wait Stopped k \<Longrightarrow> pool_busy a w'"
  using assms by (cases ch; auto simp: pool_open_def pool_busy_def)+

lemma pool_entered:
  assumes ok: "os_ok os" and may: "may (pool_monitor a) op x" and inv: "pool_inv fails n R D a B w (add_mset (x, None) A) ps"
    and run: "enter (pool_monitor a) os op x w = Some (out, w')"
  obtains c ch where "changes ch a c (new_calls w w') out (mem w' a)" "mem w a = Some c" "0 \<le> queued c" "queued c \<le> capacity c"
proof (rule pool_invD [OF inv])
  fix c
  assume c: "mem w a = Some c" "pool_shape fails n c (add_mset (x, None) A)"
  have "pool_may op x" "pool_enter os op x w = Some (out, w')" using may run by simp_all
  from pool_enter_change [OF ok inv this(1) c(1) this(2)]
  obtain ch where ch: "changes ch a c (new_calls w w') out (mem w' a)" by blast
  have "ring_ok (tasks c) (capacity c) (head c) (tail c) (queued c)" using c(2) by (simp add: pool_shape_def)
  from that [OF ch c(1) ring_okD(6,7) [OF this]] show thesis .
qed

lemma pool_resumed:
  assumes ok: "os_ok os" and inv: "pool_inv fails n R D a B w (add_mset (x, Some k) A) ps"
    and run: "resume (pool_monitor a) os k x w = Some (out, w')"
  obtains c ch where "changes ch a c (new_calls w w') out (mem w' a)" "mem w a = Some c" "0 \<le> queued c" "queued c \<le> capacity c"
    "k = WorkWaitK \<Longrightarrow> ch \<in> {SleepWork, Pops, Leaves}"
    "waits_room k \<Longrightarrow> ch \<in> {SleepRoom, Pushes} \<or> ch = Quiet \<and> accepting c = 0"
proof (rule pool_invD [OF inv])
  fix c
  assume c: "mem w a = Some c" "pool_shape fails n c (add_mset (x, Some k) A)"
  have "pool_resume os k x w = Some (out, w')" using run by simp
  from pool_resume_change [OF ok inv c(1) this]
  obtain ch where ch: "changes ch a c (new_calls w w') out (mem w' a)" "k = WorkWaitK \<Longrightarrow> ch \<in> {SleepWork, Pops, Leaves}"
    "\<And>v e. k = SubmitK v e \<Longrightarrow> ch \<in> {SleepRoom, Pushes} \<or> ch = Quiet \<and> accepting c = 0" by blast
  have w: "waits_room k \<Longrightarrow> ch \<in> {SleepRoom, Pushes} \<or> ch = Quiet \<and> accepting c = 0" using ch(3) by (cases k) simp_all
  have "ring_ok (tasks c) (capacity c) (head c) (tail c) (queued c)" using c(2) by (simp add: pool_shape_def)
  from that [OF ch(1) c(1) ring_okD(6,7) [OF this] ch(2) w] show thesis .
qed

interpretation pool_empty: signalled os_ok "pool_monitor a" "pool_inv fails n R D a B" NotEmpty "pool_work a"
  "\<lambda>k. k = WorkWaitK" for fails n R D a B
proof (unfold_locales, goal_cases)
  case (1 os op h w A ps out w')
  show ?case by (rule pool_entered [OF 1]) (use changes_signal(1) in fastforce)
next
  case (2 os op h w A ps k' w')
  show ?case by (rule pool_entered [OF 2]) (use changes_signal(6) in fastforce)
next
  case (3 os w h k A ps out w')
  show ?case
  proof (rule pool_resumed [OF 3])
    fix c ch
    assume *: "changes ch a c (new_calls w w') out (mem w' a)" "mem w a = Some c" "0 \<le> queued c" "queued c \<le> capacity c"
      "k = WorkWaitK \<Longrightarrow> ch \<in> {SleepWork, Pops, Leaves}"
    show ?case using changes_signal(1,3) [OF *(1-4)] *(5) by (cases "k = WorkWaitK") auto
  qed
next
  case (4 os w h k A ps k' w')
  show ?case by (rule pool_resumed [OF 4]) (use changes_signal(6) in fastforce)
qed

interpretation pool_full: signalled os_ok "pool_monitor a" "pool_inv fails n R D a B" NotFull "pool_room a"
  waits_room for fails n R D a B
proof (unfold_locales, goal_cases)
  case (1 os op h w A ps out w')
  show ?case by (rule pool_entered [OF 1]) (use changes_signal(2) in fastforce)
next
  case (2 os op h w A ps k' w')
  show ?case by (rule pool_entered [OF 2]) (use changes_signal(7) in fastforce)
next
  case (3 os w h k A ps out w')
  show ?case
  proof (rule pool_resumed [OF 3])
    fix c ch
    assume *: "changes ch a c (new_calls w w') out (mem w' a)" "mem w a = Some c" "0 \<le> queued c" "queued c \<le> capacity c"
      "waits_room k \<Longrightarrow> ch \<in> {SleepRoom, Pushes} \<or> ch = Quiet \<and> accepting c = 0"
    show ?case
    proof (cases "waits_room k")
      case True
      then show ?thesis using changes_signal(4,5) [OF *(1-4)] *(5) by auto
    next
      case False
      then show ?thesis using changes_signal(2) [OF *(1-4)] by auto
    qed
  qed
next
  case (4 os w h k A ps k' w')
  show ?case by (rule pool_resumed [OF 4]) (use changes_signal(7) in fastforce)
qed

interpretation pool_empty_open: broadcasting os_ok "pool_monitor a" "pool_inv fails n R D a B" NotEmpty "pool_open a"
  for fails n R D a B
proof (unfold_locales, goal_cases)
  case (1 os op h w A ps out w')
  show ?case by (rule pool_entered [OF 1(1-4)]) (use changes_broadcast(1) 1(5) in fastforce)
next
  case (2 os op h w A ps k' w')
  show ?case by (rule pool_entered [OF 2]) (use changes_broadcast(3) in fastforce)
next
  case (3 os w h k A ps out w')
  show ?case by (rule pool_resumed [OF 3(1-3)]) (use changes_broadcast(1) 3(4) in fastforce)
next
  case (4 os w h k A ps k' w')
  show ?case by (rule pool_resumed [OF 4]) (use changes_broadcast(3) in fastforce)
qed

interpretation pool_full_open: broadcasting os_ok "pool_monitor a" "pool_inv fails n R D a B" NotFull "pool_open a"
  for fails n R D a B
proof (unfold_locales, goal_cases)
  case (1 os op h w A ps out w')
  show ?case by (rule pool_entered [OF 1(1-4)]) (use changes_broadcast(1) 1(5) in fastforce)
next
  case (2 os op h w A ps k' w')
  show ?case by (rule pool_entered [OF 2]) (use changes_broadcast(4) in fastforce)
next
  case (3 os w h k A ps out w')
  show ?case by (rule pool_resumed [OF 3(1-3)]) (use changes_broadcast(1) 3(4) in fastforce)
next
  case (4 os w h k A ps k' w')
  show ?case by (rule pool_resumed [OF 4]) (use changes_broadcast(4) in fastforce)
qed

interpretation pool_stopped: broadcasting os_ok "pool_monitor a" "pool_inv fails n R D a B" Stopped "pool_busy a"
  for fails n R D a B
proof (unfold_locales, goal_cases)
  case (1 os op h w A ps out w')
  show ?case by (rule pool_entered [OF 1(1-4)]) (use changes_broadcast(2) 1(5) in fastforce)
next
  case (2 os op h w A ps k' w')
  show ?case by (rule pool_entered [OF 2]) (use changes_broadcast(5) in fastforce)
next
  case (3 os w h k A ps out w')
  show ?case by (rule pool_resumed [OF 3(1-3)]) (use changes_broadcast(2) 3(4) in fastforce)
next
  case (4 os w h k A ps k' w')
  show ?case by (rule pool_resumed [OF 4]) (use changes_broadcast(5) in fastforce)
qed

subsection \<open>Reachable states\<close>

lemma pool_reach:
  assumes "pool_boot os n cap w = Some (fails, s)" "mutex_state (fresh w) w = Some False" "reach P (pool_monitor (fresh w)) s t"
  shows "pool_inv fails n (mset (runs (calls w))) (mset (decrefs (calls w))) (fresh w) (\<lambda>r. balance r (calls w))
      (wrld t) (pool_tags t) (past t)"
proof -
  have "pool.good fails n (mset (runs (calls w))) (mset (decrefs (calls w))) (fresh w) (\<lambda>r. balance r (calls w)) s"
    using pool_boot_inv(1) [OF assms(1,2)] by (simp add: pool.good_def)
  from pool.reach_good [OF assms(3) this] show ?thesis by (simp add: pool.good_def pool_tags_def)
qed

lemma pool_inv_books:
  assumes "pool_inv fails n R D a B w A ps"
  shows "pool_books R D (mset (waiting_tasks a w)) (calls w) A ps"
  using assms by (cases "A = {#}") (auto simp: pool_inv_def waiting_tasks_def)

lemma pool_idle:
  assumes inv: "pool_inv fails n R D a B w A ps" and l: "lives A = 0"
  shows "waiting_tasks a w = []" "inflight A = {#}"
proof -
  show "waiting_tasks a w = []"
    using inv l by (cases "A = {#}") (auto simp: pool_inv_def waiting_tasks_def pool_shape_def pool_queue_def ring_list_empty)
  show "inflight A = {#}" using lives_inflight [OF l, of a] inv by (auto simp: pool_inv_def)
qed

lemma pool_asleep:
  assumes boot: "pool_boot os n cap w = Some (fails, s)" and free: "mutex_state (fresh w) w = Some False"
    and run: "reach os_ok (pool_monitor (fresh w)) s t" and asleep: "0 < sleepers cv (agents t)"
  obtains c where "mem (wrld t) (fresh w) = Some c" "pool_shape fails n c (pool_tags t)"
proof -
  have "agents t \<noteq> {#}" using asleep by auto
  then show thesis using that pool_reach [OF boot free run] by (auto simp: pool_inv_def pool_tags_def)
qed

lemmas pool_good = pool_boot_inv(1) [folded pool.good_def]

lemma pool_stop_sleeper:
  assumes boot: "pool_boot os n cap w = Some (fails, s)" and free: "mutex_state (fresh w) w = Some False"
    and run: "reach os_ok (pool_monitor (fresh w)) s t" and asleep: "0 < sleepers Stopped (agents t)"
  shows "0 < lives (pool_tags t)"
proof (rule pool_asleep [OF boot free run asleep])
  fix c
  assume c: "mem (wrld t) (fresh w) = Some c" "pool_shape fails n c (pool_tags t)"
  have "pool_stopped.sleep_blocked (fresh w) s"
    by (simp add: pool_stopped.sleep_blocked_def pool_boot_inv(2) [OF boot free])
  from pool_stopped.reach_sleep_blocked [OF run pool_good [OF boot free] this]
  have "pool_busy (fresh w) (wrld t)" using asleep by (simp add: pool_stopped.sleep_blocked_def)
  then show ?thesis using c by (simp add: pool_busy_def pool_shape_def)
qed

subsection \<open>Draining\<close>

lemma worker_loop_defined:
  assumes ok: "os_ok os" and m: "mem w a = Some c" and sh: "pool_shape fails n c (add_mset x A)" "is_live x"
  shows "\<exists>out w'. sync_thread_pool_worker_loop os a w = Some (out, w')"
proof (cases "queued c = 0")
  case True
  have "0 < live_workers c" "live_workers c \<le> 64"
    using sh lives_workers [of "add_mset x A"] by (auto simp: pool_shape_def SYNC_THREAD_POOL_MAX_WORKER_COUNT_def)
  then have "i32_sub (live_workers c) 1 = Some (live_workers c - 1)"
    by (simp add: i32_sub_def i32_def INT32_MIN_def INT32_MAX_def)
  then show ?thesis using ok m True by (simp add: sync_thread_pool_worker_loop_def pool_lock_defs os_defs)
next
  case False
  show ?thesis
    by (rule pool_take [OF sh(1) False]) (use ok m False in \<open>simp add: sync_thread_pool_worker_loop_def pool_lock_defs os_defs\<close>)
qed

lemma release_defined:
  assumes ok: "os_ok os" and m: "mem w a = Some c" and sh: "pool_shape fails n c (add_mset x A)" "\<not> is_live x"
  shows "\<exists>w'. sync_thread_pool_core_release os a w = Some w'"
proof (cases "A = {#}")
  case True
  then have "queued c = 0" using sh by (auto simp: pool_shape_def)
  then show ?thesis using ok m by (simp add: sync_thread_pool_core_release_def os_defs)
next
  case False
  then have "refs c \<noteq> 1" using shape_refs(1) [OF sh(1)] by simp
  then show ?thesis using m by (simp add: sync_thread_pool_core_release_def os_defs)
qed

lemma worker_resume_defined:
  assumes ok: "os_ok os" and inv: "pool_inv fails n R D a B w (add_mset (Worker b cur, Some k) A) ps"
  shows "\<exists>out w'. pool_resume os k (Worker b cur) w = Some (out, w')"
proof -
  obtain c where c: "mem w a = Some c" "pool_shape fails n c (add_mset (Worker b cur, Some k) A)" by (rule pool_invD [OF inv])
  have tag: "tag_ok a (Worker b cur, Some k)" using inv by (simp add: pool_inv_def)
  have loop: "\<exists>out w'. sync_thread_pool_worker_loop os a (w\<lparr>calls := calls w @ ks\<rparr>) = Some (out, w')" if "is_live (Worker b cur, Some k)" for ks
    using worker_loop_defined [OF ok _ c(2) that, of "w\<lparr>calls := calls w @ ks\<rparr>"] c(1) by simp
  show ?thesis
  proof (cases k)
    case WorkLockK
    then show ?thesis using loop [of "[(MutexLock a, 0)]"] ok tag
      by (simp add: pool_resume_def sync_thread_pool_worker_lock_def pool_lock_defs os_defs)
  next
    case WorkWaitK
    then show ?thesis using loop [of "[(CondWait a NotEmpty, 0)]"] ok tag
      by (simp add: pool_resume_def sync_thread_pool_worker_wake_def os_defs)
  next
    case (WorkTaskK v)
    then show ?thesis by (simp add: pool_resume_def sync_thread_pool_worker_task_def)
  next
    case WorkLeaveK
    then show ?thesis using release_defined [OF ok c] tag by (auto simp: pool_resume_def sync_thread_pool_worker_leave_def)
  qed (use tag in simp_all)
qed

lemma worker_step_decreases:
  assumes ok: "os_ok os" and inv: "pool_inv fails n R D a B w (add_mset (Worker b cur, Some k) A) ps"
    and c: "mem w a = Some c" "accepting c = 0" and run: "pool_resume os k (Worker b cur) w = Some (out, w')"
  shows "(\<forall>cv k'. out \<noteq> Wait cv k') \<and> 2 * pool_work a w' + stage_after out < 2 * pool_work a w + stage k"
proof -
  have tag: "tag_ok a (Worker b cur, Some k)" using inv by (simp add: pool_inv_def)
  obtain c2 where c2: "mem w a = Some c2" "pool_shape fails n c2 (add_mset (Worker b cur, Some k) A)" by (rule pool_invD [OF inv])
  have sh: "pool_shape fails n c (add_mset (Worker b cur, Some k) A)" using c2 c by simp
  then have q: "0 \<le> queued c" using ring_okD(6) by (auto simp only: pool_shape_def)
  have loop: ?thesis if "k = WorkLockK \<or> k = WorkWaitK" "sync_thread_pool_worker_loop os a (w\<lparr>calls := calls w @ [e]\<rparr>) = Some (out, w')"
    "e \<noteq> (CondSignal a NotFull, 0)" for e
  proof -
    have "is_live (Worker b cur, Some k)" using that(1) by auto
    from worker_loop_change [OF ok c(1) sh this that(2,3)] show ?thesis
      using c q that(1) by (auto simp: pool_work_def)
  qed
  show ?thesis
  proof (cases k)
    case WorkLockK
    then show ?thesis using run ok tag
      by (intro loop [of "(MutexLock a, 0)"]) (auto simp: pool_resume_def sync_thread_pool_worker_lock_def pool_lock_defs os_defs)
  next
    case WorkWaitK
    then show ?thesis using run ok tag
      by (intro loop [of "(CondWait a NotEmpty, 0)"]) (auto simp: pool_resume_def sync_thread_pool_worker_wake_def os_defs)
  next
    case (WorkTaskK v)
    then show ?thesis using run c(1)
      by (auto simp: pool_resume_def sync_thread_pool_worker_task_def run_closure_def os_defs pool_work_def)
  next
    case WorkLeaveK
    then have o: "out = Return WorkerDone" "sync_thread_pool_core_release os a w = Some w'" "\<not> is_live (Worker b cur, Some k)"
      using run tag by (auto simp: pool_resume_def sync_thread_pool_worker_leave_def)
    from release_change [OF sh c(1) refl o(3) refl _ o(2), of out] show ?thesis
      using o(1) WorkLeaveK c(1) by (auto simp: pool_work_def)
  qed (use tag in simp_all)
qed

subsection \<open>Concrete runs\<close>

lemmas pool_eval = pool_boot_def sync_thread_pool_worker_start_def sync_thread_pool_new_def sync_thread_pool_try_alloc_def sync_thread_pool_test_should_fail_alloc_def
  should_fail_alone sync_test_atomic_load_def SYNC_THREAD_POOL_MAX_WORKER_COUNT_def SYNC_THREAD_POOL_MAX_CAPACITY_def
  sync_thread_pool_wrap_def pool_lock_defs os_defs quiet_os_def posix_status_def pool_empty_world_def
  exec_step_def pool_monitor_def settle_list_def record_past_def new_calls_def others_def wake_one_def asleep_on_def rouse_def
  pool_resume_def sync_thread_pool_execute_def sync_thread_pool_submit_task_def sync_thread_pool_submit_loop_def
  sync_thread_pool_take_test_error_def submit_drop_def sync_thread_pool_worker_lock_def sync_thread_pool_worker_loop_def
  sync_thread_pool_worker_wake_def sync_thread_pool_worker_task_def run_closure_def sync_thread_pool_worker_leave_def
  sync_thread_pool_core_release_def sync_thread_pool_shutdown_def sync_thread_pool_shutdown_lock_def
  sync_thread_pool_shutdown_loop_def sync_thread_pool_shutdown_wake_def shutdown_end_def
  sync_thread_pool_close_def sync_thread_pool_close_core_def sync_thread_pool_finalize_def
  cell_get_def cell_set_def i32_add_def i32_sub_def i32_rem_def c_rem_def i32_def INT32_MIN_def INT32_MAX_def

lemma pool_demo_reach:
  assumes d: "pool_demo n cap xs = Some t" and P: "P quiet_os"
  obtains s where "pool_boot quiet_os (int n) cap pool_empty_world = Some (False, s)"
    "reach P (pool_monitor (fresh pool_empty_world)) s (config_of t)"
proof -
  have f: "fresh pool_empty_world = 0" by (simp add: pool_empty_world_def)
  obtain s where s: "pool_boot quiet_os (int n) cap pool_empty_world = Some (False, s)"
      "exec (pool_monitor 0) quiet_os xs
         (wrld s, (Client (sync_thread_pool_wrap 0), Ready) # replicate n (sync_thread_pool_worker_start 0), []) = Some t"
    using d by (auto simp: pool_demo_def bind_eq_Some_conv split: if_splits)
  have "s = config_of (wrld s, (Client (sync_thread_pool_wrap 0), Ready) # replicate n (sync_thread_pool_worker_start 0), [])"
    by (rule pool_boot_cases [OF s(1)]) (use f in simp)
  then show thesis using that s(1) f exec_reach [OF s(2), of P] P by auto
qed

lemma pool_empty_world_clean:
  "mutex_state (fresh pool_empty_world) pool_empty_world = Some False" "fresh pool_empty_world = 0"
  "runs (calls pool_empty_world) = []" "decrefs (calls pool_empty_world) = []"
  by (simp_all add: pool_empty_world_def mutex_state_def)

lemmas pool_demo_eval = pool_demo_def pool_eval pool_tags_def waiting_tasks_def pool_queue_def ring_list_def

subsection \<open>A worker and its own pool\<close>

lemma pool_worker_core:
  assumes boot: "pool_boot os n cap w = Some (fails, s)" and free: "mutex_state (fresh w) w = Some False"
    and run: "reach P (pool_monitor (fresh w)) s t"
    and worker: "(Worker b cur, Runnable k) \<in># agents t"
  obtains c A where "mem (wrld t) (fresh w) = Some c" "pool_shape fails n c A" "cur = Some (fresh w)"
proof -
  obtain A where A: "agents t = add_mset (Worker b cur, Runnable k) A" using worker by (metis mset_add)
  note inv = pool_reach [OF boot free run]
  show thesis using inv that by (auto simp: A pool_tags_def elim!: pool_invD)
qed

lemma worker_execute:
  assumes c: "mem w a = Some c" "pool_shape fails n c A" and h: "core h = Some a" and cur: "cur = Some a"
  shows "\<exists>r e w'. sync_thread_pool_execute os cur h v w = Some (Return (Submitted r e), w') \<and>
    mem w' a = Some (if r = 0 then pushed v c else c) \<and>
    (os_ok os \<and> next_submit_error w = 0 \<longrightarrow>
       r = (if accepting c = 0 then 2 else if queued c = capacity c then 3 else 0) \<and> e = 0)"
proof -
  have ok: "ring_ok (tasks c) (capacity c) (head c) (tail c) (queued c)" using c(2) by (simp add: pool_shape_def)
  note unf = sync_thread_pool_execute_def sync_thread_pool_submit_task_def sync_thread_pool_submit_loop_def
    sync_thread_pool_take_test_error_def submit_drop_def os_defs
  consider "accepting c = 0" | "accepting c \<noteq> 0" "queued c = capacity c" | "accepting c \<noteq> 0" "queued c \<noteq> capacity c" by blast
  then show ?thesis
  proof cases
    case 3
    then show ?thesis using c(1) h cur ring_push_code [OF ok 3(2)] by (auto simp: unf pushed_def)
  qed (use c(1) h cur in \<open>auto simp: unf\<close>)
qed

lemma worker_shutdown:
  assumes "core h = Some a" and "cur = Some a"
  shows "\<exists>e w'. sync_thread_pool_shutdown os cur h w = Some (Return (PoolAnswer (if e = 0 then - 1 else 0) e), w') \<and>
    e = next_shutdown_error w \<and> mem w' = mem w \<and> calls w' = calls w"
  using assms by (auto simp: sync_thread_pool_shutdown_def sync_thread_pool_take_test_error_def os_defs)

section \<open>Properties\<close>

text \<open>
  C3. Every task accepted by \<open>execute\<close> or \<open>try_execute\<close> is, at any moment, either run, or with
  exactly one worker, or in the queue: none is lost and none runs twice. A task is released
  exactly once for its run or by the submission that was refused; and at every moment of the
  log, whatever has been released by then and was not refused has been run by then, so no
  closure is released before it is called.
\<close>

theorem pool_tasks_once:
  assumes boot: "pool_boot os n cap w = Some (fails, s)" and free: "mutex_state (fresh w) w = Some False"
    and log: "runs (calls w) = []" "decrefs (calls w) = []" and run: "reach P (pool_monitor (fresh w)) s t"
  shows "mset (accepted (past t)) =
      mset (runs (calls (wrld t))) + inflight (pool_tags t) + mset (waiting_tasks (fresh w) (wrld t)) \<and>
    mset (decrefs (calls (wrld t))) = mset (runs (calls (wrld t))) + mset (rejected (past t)) \<and>
    (\<forall>m. mset (decrefs (take m (calls (wrld t)))) \<subseteq># mset (runs (take m (calls (wrld t)))) + mset (rejected (past t)))"
  using pool_inv_books [OF pool_reach [OF boot free run]] log by (simp add: pool_books_def)

theorem pool_tasks_once_witness:
  "\<exists>t. pool_demo 1 1 [Call (PoolExecute 7 None) 0, Resume 0, Resume 1] = Some t \<and>
     accepted (past (config_of t)) = [7] \<and> mset (runs (calls (wrld (config_of t)))) = {#7#}"
proof -
  obtain t where t: "pool_demo 1 1 [Call (PoolExecute 7 None) 0, Resume 0, Resume 1] = Some t"
    and p: "accepted (past (config_of t)) = [7]" "inflight (pool_tags (config_of t)) = {#}" "waiting_tasks 0 (wrld (config_of t)) = []"
    by (simp add: pool_demo_eval)
  show ?thesis
    by (rule pool_demo_reach [OF t, of os_ok])
      (use pool_tasks_once [OF _ pool_empty_world_clean(1,3,4)] t p in \<open>fastforce simp: pool_empty_world_clean\<close>)+
qed

text \<open>
  C8. When a \<open>shutdown\<close> has reported success, every accepted task has been run and no worker
  is left.
\<close>

theorem pool_shutdown_drains:
  assumes boot: "pool_boot os n cap w = Some (fails, s)" and free: "mutex_state (fresh w) w = Some False"
    and log: "runs (calls w) = []" and run: "reach P (pool_monitor (fresh w)) s t"
    and stopped: "(PoolShutdown cur, PoolAnswer 0 0) \<in> set (past t)"
  shows "mset (runs (calls (wrld t))) = mset (accepted (past t)) \<and> lives (pool_tags t) = 0"
proof -
  note inv = pool_reach [OF boot free run]
  have "list_ex stops (past t)" using stopped by (auto simp: list_ex_iff intro!: bexI [of _ "(PoolShutdown cur, PoolAnswer 0 0)"])
  then have l: "lives (pool_tags t) = 0" using pool_inv_books [OF inv] by (simp add: pool_books_def)
  then show ?thesis using pool_inv_books [OF inv] pool_idle [OF inv l] log by (simp add: pool_books_def)
qed

theorem pool_shutdown_drains_witness:
  "\<exists>t. pool_demo 1 1 [Call (PoolExecute 7 None) 0, Resume 0, Resume 1, Call (PoolShutdown None) 0, Resume 0, Resume 0] = Some t \<and>
     (PoolShutdown None, PoolAnswer 0 0) \<in> set (past (config_of t)) \<and> accepted (past (config_of t)) = [7] \<and>
     mset (runs (calls (wrld (config_of t)))) = {#7#} \<and> lives (pool_tags (config_of t)) = 0"
proof -
  obtain t where t: "pool_demo 1 1 [Call (PoolExecute 7 None) 0, Resume 0, Resume 1, Call (PoolShutdown None) 0, Resume 0, Resume 0] = Some t"
    and p: "accepted (past (config_of t)) = [7]" "(PoolShutdown None, PoolAnswer 0 0) \<in> set (past (config_of t))"
    by (simp add: pool_demo_eval)
  obtain s where s: "pool_boot quiet_os (int 1) 1 pool_empty_world = Some (False, s)"
      "reach os_ok (pool_monitor (fresh pool_empty_world)) s (config_of t)"
    by (rule pool_demo_reach [OF t, of os_ok]) simp_all
  show ?thesis using pool_shutdown_drains [OF s(1) pool_empty_world_clean(1,3) s(2) p(2)] t p by simp
qed

text \<open>
  C25. The core's reference count is the number of agents that use it (handles, workers, the
  constructor), \<open>live_workers\<close> is the number of workers in the loop, the mutex is free between
  pieces of code, and the last agent to leave frees the core with all its resources.
\<close>

theorem pool_lifetime:
  assumes boot: "pool_boot os n cap w = Some (fails, s)" and free: "mutex_state (fresh w) w = Some False"
    and run: "reach P (pool_monitor (fresh w)) s t"
  shows "mutex_state (fresh w) (wrld t) = Some False \<and> (case mem (wrld t) (fresh w) of
      Some c \<Rightarrow> agents t \<noteq> {#} \<and> refs c = of_nat (size (agents t)) \<and> live_workers c = int (lives (pool_tags t)) \<and>
        ring_ok (tasks c) (capacity c) (head c) (tail c) (queued c) \<and>
        (fails \<or> handles c = int (clients (pool_tags t))) \<and>
        (\<forall>r. balance r (calls (wrld t)) = balance r (calls w) + owning (pool_resources (fresh w)) r)
    | None \<Rightarrow> agents t = {#} \<and> (\<forall>r. balance r (calls (wrld t)) = balance r (calls w)))"
  using pool_reach [OF boot free run]
  by (cases "agents t = {#}") (auto simp: pool_inv_def pool_shape_def pool_tags_def)

theorem pool_lifetime_witness:
  "\<exists>t. pool_demo 1 1 [Call PoolClose 0, Resume 0, Resume 1, Call PoolFinalize 0] = Some t \<and>
     mem (wrld (config_of t)) 0 = None \<and> agents (config_of t) = {#} \<and>
     balance (MutexRes 0) (calls (wrld (config_of t))) = 0"
proof -
  obtain t where t: "pool_demo 1 1 [Call PoolClose 0, Resume 0, Resume 1, Call PoolFinalize 0] = Some t"
    and p: "mem (wrld (config_of t)) 0 = None"
    by (simp add: pool_demo_eval)
  obtain s where s: "pool_boot quiet_os (int 1) 1 pool_empty_world = Some (False, s)"
      "reach os_ok (pool_monitor (fresh pool_empty_world)) s (config_of t)"
    by (rule pool_demo_reach [OF t, of os_ok]) simp_all
  show ?thesis using pool_lifetime [OF s(1) pool_empty_world_clean(1) s(2)] t p
    by (simp add: pool_empty_world_clean) (simp add: pool_empty_world_def)
qed

text \<open>
  C16. While a worker sleeps the pool accepts tasks and there are at least as many workers
  on their way out of the wait as tasks in the queue: no wake-up is lost.
\<close>

theorem pool_no_lost_worker:
  assumes boot: "pool_boot os n cap w = Some (fails, s)" and free: "mutex_state (fresh w) w = Some False"
    and run: "reach os_ok (pool_monitor (fresh w)) s t" and asleep: "0 < sleepers NotEmpty (agents t)"
  shows "\<exists>c. mem (wrld t) (fresh w) = Some c \<and> accepting c \<noteq> 0 \<and>
    queued c \<le> int (roused (\<lambda>k. k = WorkWaitK) (agents t))"
proof (rule pool_asleep [OF boot free run asleep])
  fix c
  assume c: "mem (wrld t) (fresh w) = Some c"
  have "pool_empty.awake_enough (fresh w) s"
    by (simp add: pool_empty.awake_enough_def pool_boot_inv(2,3) [OF boot free])
  from pool_empty.reach_awake [OF run pool_good [OF boot free] this]
  have "pool_work (fresh w) (wrld t) \<le> roused (\<lambda>k. k = WorkWaitK) (agents t)" using asleep by (simp add: pool_empty.awake_enough_def)
  moreover have "pool_empty_open.sleep_blocked (fresh w) s"
    by (simp add: pool_empty_open.sleep_blocked_def pool_boot_inv(2) [OF boot free])
  from pool_empty_open.reach_sleep_blocked [OF run pool_good [OF boot free] this]
  have "pool_open (fresh w) (wrld t)" using asleep by (simp add: pool_empty_open.sleep_blocked_def)
  ultimately show ?thesis using c by (auto simp: pool_work_def pool_open_def)
qed

theorem pool_no_lost_worker_witness:
  "\<exists>t c. pool_demo 2 1 [Resume 1, Resume 1, Call (PoolExecute 7 None) 0] = Some t \<and>
     sleepers NotEmpty (agents (config_of t)) = 1 \<and> mem (wrld (config_of t)) 0 = Some c \<and> queued c = 1 \<and> accepting c \<noteq> 0 \<and>
     queued c \<le> int (roused (\<lambda>k. k = WorkWaitK) (agents (config_of t)))"
proof -
  obtain t c where t: "pool_demo 2 1 [Resume 1, Resume 1, Call (PoolExecute 7 None) 0] = Some t"
    and p: "sleepers NotEmpty (agents (config_of t)) = 1" "mem (wrld (config_of t)) 0 = Some c" "queued c = 1"
    by (simp add: pool_demo_eval numeral_2_eq_2)
  obtain s where s: "pool_boot quiet_os (int 2) 1 pool_empty_world = Some (False, s)"
      "reach os_ok (pool_monitor (fresh pool_empty_world)) s (config_of t)"
    by (rule pool_demo_reach [OF t, of os_ok]) simp_all
  show ?thesis using pool_no_lost_worker [OF s(1) pool_empty_world_clean(1) s(2)] t p
    by (auto simp: pool_empty_world_clean)
qed

text \<open>
  C17. While a blocked \<open>execute\<close> sleeps the pool accepts tasks and at least as many blocked
  submissions are on their way out of the wait as there are free places in the queue.
\<close>

theorem pool_no_lost_submitter:
  assumes boot: "pool_boot os n cap w = Some (fails, s)" and free: "mutex_state (fresh w) w = Some False"
    and run: "reach os_ok (pool_monitor (fresh w)) s t" and asleep: "0 < sleepers NotFull (agents t)"
  shows "\<exists>c. mem (wrld t) (fresh w) = Some c \<and> accepting c \<noteq> 0 \<and>
    capacity c - queued c \<le> int (roused waits_room (agents t))"
proof (rule pool_asleep [OF boot free run asleep])
  fix c
  assume c: "mem (wrld t) (fresh w) = Some c"
  have "pool_full.awake_enough (fresh w) s"
    by (simp add: pool_full.awake_enough_def pool_boot_inv(2,3) [OF boot free])
  from pool_full.reach_awake [OF run pool_good [OF boot free] this]
  have "pool_room (fresh w) (wrld t) \<le> roused waits_room (agents t)" using asleep by (simp add: pool_full.awake_enough_def)
  moreover have "pool_full_open.sleep_blocked (fresh w) s"
    by (simp add: pool_full_open.sleep_blocked_def pool_boot_inv(2) [OF boot free])
  from pool_full_open.reach_sleep_blocked [OF run pool_good [OF boot free] this]
  have "pool_open (fresh w) (wrld t)" using asleep by (simp add: pool_full_open.sleep_blocked_def)
  ultimately show ?thesis using c by (auto simp: pool_room_def pool_open_def)
qed

theorem pool_no_lost_submitter_witness:
  "\<exists>t c. pool_demo 1 1 [Call PoolShare 0, Call (PoolExecute 7 None) 1, Call (PoolExecute 8 None) 1] = Some t \<and>
     sleepers NotFull (agents (config_of t)) = 1 \<and> mem (wrld (config_of t)) 0 = Some c \<and> accepting c \<noteq> 0 \<and>
     capacity c - queued c \<le> int (roused waits_room (agents (config_of t)))"
proof -
  obtain t c where t: "pool_demo 1 1 [Call PoolShare 0, Call (PoolExecute 7 None) 1, Call (PoolExecute 8 None) 1] = Some t"
    and p: "sleepers NotFull (agents (config_of t)) = 1" "mem (wrld (config_of t)) 0 = Some c"
    by (simp add: pool_demo_eval sync_thread_pool_share_def)
  obtain s where s: "pool_boot quiet_os (int 1) 1 pool_empty_world = Some (False, s)"
      "reach os_ok (pool_monitor (fresh pool_empty_world)) s (config_of t)"
    by (rule pool_demo_reach [OF t, of os_ok]) simp_all
  show ?thesis using pool_no_lost_submitter [OF s(1) pool_empty_world_clean(1) s(2)] t p
    by (auto simp: pool_empty_world_clean)
qed

text \<open>
  C15. Once the pool is closed no worker sleeps, every step of a worker is possible, none
  puts it to sleep, and each makes the measure of the remaining work smaller: the workers end.
\<close>

theorem pool_drains:
  assumes boot: "pool_boot os n cap w = Some (fails, s)" and free: "mutex_state (fresh w) w = Some False"
    and run: "reach os_ok (pool_monitor (fresh w)) s t" and c: "mem (wrld t) (fresh w) = Some c" "accepting c = 0"
    and worker: "(Worker b cur, Runnable k) \<in># agents t" and ok: "os_ok os'"
  shows "sleepers NotEmpty (agents t) = 0 \<and> (\<exists>out w'. pool_resume os' k (Worker b cur) (wrld t) = Some (out, w') \<and>
    (\<forall>cv k'. out \<noteq> Wait cv k') \<and>
    2 * pool_work (fresh w) w' + stage_after out < 2 * pool_work (fresh w) (wrld t) + stage k)"
proof -
  have "pool_empty_open.sleep_blocked (fresh w) s"
    by (simp add: pool_empty_open.sleep_blocked_def pool_boot_inv(2) [OF boot free])
  from pool_empty_open.reach_sleep_blocked [OF run pool_good [OF boot free] this]
  have "sleepers NotEmpty (agents t) = 0" using c by (simp add: pool_empty_open.sleep_blocked_def pool_open_def)
  moreover obtain A where "agents t = add_mset (Worker b cur, Runnable k) A" using worker by (metis multi_member_split)
  with pool_reach [OF boot free run]
  have inv: "pool_inv fails n (mset (runs (calls w))) (mset (decrefs (calls w))) (fresh w) (\<lambda>r. balance r (calls w))
      (wrld t) (add_mset (Worker b cur, Some k) (image_mset tag A)) (past t)" by (simp add: pool_tags_def)
  obtain out w' where "pool_resume os' k (Worker b cur) (wrld t) = Some (out, w')" using worker_resume_defined [OF ok inv] by blast
  moreover from worker_step_decreases [OF ok inv c this]
  have "(\<forall>cv k'. out \<noteq> Wait cv k') \<and> 2 * pool_work (fresh w) w' + stage_after out < 2 * pool_work (fresh w) (wrld t) + stage k" .
  ultimately show ?thesis by blast
qed

theorem pool_drains_witness:
  "\<exists>t out w'. pool_demo 1 1 [Call (PoolExecute 7 None) 0, Call PoolClose 1] = Some t \<and> pool_work 0 (wrld (config_of t)) = 1 \<and>
     pool_resume quiet_os WorkLockK (Worker 0 (Some 0)) (wrld (config_of t)) = Some (out, w') \<and>
     2 * pool_work 0 w' + stage_after out < 4"
proof -
  obtain t c where t: "pool_demo 1 1 [Call (PoolExecute 7 None) 0, Call PoolClose 1] = Some t"
    and p: "mem (wrld (config_of t)) 0 = Some c" "accepting c = 0" "(Worker 0 (Some 0), Runnable WorkLockK) \<in># agents (config_of t)"
      "pool_work 0 (wrld (config_of t)) = 1"
    by (simp add: pool_demo_eval pool_work_def)
  obtain s where s: "pool_boot quiet_os (int 1) 1 pool_empty_world = Some (False, s)"
      "reach os_ok (pool_monitor (fresh pool_empty_world)) s (config_of t)"
    by (rule pool_demo_reach [OF t, of os_ok]) simp_all
  show ?thesis using pool_drains [OF s(1) pool_empty_world_clean(1) s(2) _ p(2,3), of quiet_os] t p(1,4)
    by (auto simp: pool_empty_world_clean)
qed

text \<open>
  C34. A pool does not wait for itself. Take any worker with a task in hand, in any reachable
  configuration, and the value of \<open>sync_current_thread_pool\<close> in its thread. An \<open>execute\<close> called
  there on a handle of the same pool returns at once: with code 2 when the pool is closed,
  with code 3 when the queue is full, with code 0 otherwise, unless an error was injected or a
  call of the system fails; the queue is changed exactly with code 0. A \<open>shutdown\<close> called there
  is refused with -1, or reports the injected error, and touches nothing.
\<close>

theorem pool_worker_never_waits:
  assumes boot: "pool_boot os n cap w = Some (fails, s)" and free: "mutex_state (fresh w) w = Some False"
    and run: "reach P (pool_monitor (fresh w)) s t"
    and worker: "(Worker b cur, Runnable (WorkTaskK u)) \<in># agents t" and h: "core h = Some (fresh w)"
  shows "\<exists>c. mem (wrld t) (fresh w) = Some c \<and>
    (\<exists>r e w'. sync_thread_pool_execute os' cur h v (wrld t) = Some (Return (Submitted r e), w') \<and>
       mem w' (fresh w) = Some (if r = 0 then pushed v c else c) \<and>
       (os_ok os' \<and> next_submit_error (wrld t) = 0 \<longrightarrow>
          r = (if accepting c = 0 then 2 else if queued c = capacity c then 3 else 0) \<and> e = 0)) \<and>
    (\<exists>e w'. sync_thread_pool_shutdown os' cur h (wrld t) = Some (Return (PoolAnswer (if e = 0 then - 1 else 0) e), w') \<and>
       e = next_shutdown_error (wrld t) \<and> mem w' = mem (wrld t) \<and> calls w' = calls (wrld t))"
proof -
  obtain c A where c: "mem (wrld t) (fresh w) = Some c" "pool_shape fails n c A" "cur = Some (fresh w)"
    by (rule pool_worker_core [OF boot free run worker])
  show ?thesis by (rule exI [of _ c], intro conjI c(1) worker_execute [OF c(1,2) h c(3)] worker_shutdown [OF h c(3)])
qed

theorem pool_worker_never_waits_witness:
  "\<exists>t cur. pool_demo 1 1 [Call (PoolExecute 7 None) 0, Resume 0, Call (PoolExecute 8 None) 0] = Some t \<and>
     (Worker 0 cur, Runnable (WorkTaskK 7)) \<in># agents (config_of t) \<and>
     (\<exists>w'. sync_thread_pool_execute quiet_os cur (sync_thread_pool_wrap 0) 9 (wrld (config_of t)) =
        Some (Return (Submitted 3 0), w'))"
proof -
  obtain t c cur where t: "pool_demo 1 1 [Call (PoolExecute 7 None) 0, Resume 0, Call (PoolExecute 8 None) 0] = Some t"
    and p: "(Worker 0 cur, Runnable (WorkTaskK 7)) \<in># agents (config_of t)" "next_submit_error (wrld (config_of t)) = 0"
      "mem (wrld (config_of t)) 0 = Some c" "accepting c \<noteq> 0" "queued c = capacity c"
    by (simp add: pool_demo_eval)
  obtain s where s: "pool_boot quiet_os (int 1) 1 pool_empty_world = Some (False, s)"
      "reach os_ok (pool_monitor (fresh pool_empty_world)) s (config_of t)"
    by (rule pool_demo_reach [OF t, of os_ok]) simp_all
  show ?thesis
    using pool_worker_never_waits [OF s(1) pool_empty_world_clean(1) s(2) p(1), of "sync_thread_pool_wrap 0" quiet_os 9] t p
    by (auto simp: sync_thread_pool_wrap_def pool_empty_world_clean)
qed

text \<open>
  A constructor that reports failure at once reports a status different from 0 and has
  given back everything it had allocated or initialized.
\<close>

theorem pool_new_refused:
  assumes "sync_thread_pool_new os n cap w = Some (Refused st, w')"
  shows "st \<noteq> 0 \<and> (\<forall>r. balance r (calls w') = balance r (calls w)) \<and> (\<forall>b. b \<noteq> fresh w \<longrightarrow> mem w' b = mem w b)"
proof (rule pool_new_cases [OF assms], goal_cases)
  case (2 w1 st' m)
  then show ?case by (simp split: if_splits)
qed auto

theorem pool_new_refused_witness:
  "\<exists>st w'. sync_thread_pool_new quiet_os 1 1 (pool_empty_world\<lparr>alloc_fail_after := 1\<rparr>) = Some (Refused st, w') \<and>
     st \<noteq> 0 \<and> balance (BlockRes CoreBlock) (calls w') = 0 \<and> calls w' \<noteq> []"
proof -
  obtain st w' where r: "sync_thread_pool_new quiet_os 1 1 (pool_empty_world\<lparr>alloc_fail_after := 1\<rparr>) = Some (Refused st, w')"
    and c: "calls w' \<noteq> []"
    by (simp add: pool_eval)
  show ?thesis using pool_new_refused [OF r] r c by (simp add: pool_empty_world_def)
qed

end
