(* ===== verification/Sync_Thread.thy ===== *)
theory Sync_Thread
  imports Sync_Monitor
begin

text \<open>
  Operating system threads, \<^verbatim>\<open>src/src/unsafe/thread/native.c\<close>: a core shared by the handle
  and the thread it started, with a state machine that decides who may join or detach, and
  who releases the task.

  The agents are the users of the handle and the body of the thread. A user is a thread with a
  reference to the one handle object; the MoonBit runtime counts these references (\<open>uses\<close>)
  and calls the finalizer when the last one is dropped. \<open>exited\<close> says whether the started
  thread has returned from its main function, which is what joining it waits for.

  An identifier stands for the bytes of a \<open>pthread_t\<close>, or for the identifier of a Windows
  thread, in 64 bits.
\<close>

section \<open>State\<close>

definition SYNC_THREAD_CREATED :: int where
  "SYNC_THREAD_CREATED = 0"

definition SYNC_THREAD_JOINABLE :: int where
  "SYNC_THREAD_JOINABLE = 1"

definition SYNC_THREAD_JOINING :: int where
  "SYNC_THREAD_JOINING = 2"

definition SYNC_THREAD_DETACHING :: int where
  "SYNC_THREAD_DETACHING = 3"

definition SYNC_THREAD_JOINED :: int where
  "SYNC_THREAD_JOINED = 4"

definition SYNC_THREAD_DETACHED :: int where
  "SYNC_THREAD_DETACHED = 5"

definition SYNC_THREAD_FAILED :: int where
  "SYNC_THREAD_FAILED = 6"

type_synonym tid = "64 word"

record 'v sync_thread_core_t =
  refs :: sync_arc_t
  mutex_initialized :: int
  thread :: "tid option"
  task :: "'v option"
  result :: "'v option"
  id_bits :: tid
  started :: int
  finished :: int
  state :: int

record sync_thread_handle_t =
  core :: "addr option"

record 'v thread_world = "('v, 'v sync_thread_core_t) world" +
  next_start_error :: int
  next_join_error :: int
  next_detach_error :: int
  uses :: nat
  exited :: bool

section \<open>The core\<close>

definition sync_thread_lock_or_abort :: "'v os \<Rightarrow> addr \<Rightarrow> 'v thread_world \<Rightarrow> 'v thread_world option" where
  "sync_thread_lock_or_abort os a w = abort_if_failed (sync_os_mutex_lock os a w)"

definition sync_thread_unlock_or_abort :: "'v os \<Rightarrow> addr \<Rightarrow> 'v thread_world \<Rightarrow> 'v thread_world option" where
  "sync_thread_unlock_or_abort os a w = abort_if_failed (sync_os_mutex_unlock os a w)"

definition sync_thread_take_task :: "'v sync_thread_core_t \<Rightarrow> 'v option \<times> 'v sync_thread_core_t" where
  "sync_thread_take_task c = (task c, c\<lparr>task := None\<rparr>)"

text \<open>\<open>if (value != NULL) moonbit_decref(value)\<close>\<close>

definition decref_opt :: "'v option \<Rightarrow> 'v thread_world \<Rightarrow> 'v thread_world" where
  "decref_opt value w = (case value of None \<Rightarrow> w | Some v \<Rightarrow> moonbit_decref v w)"

definition sync_thread_core_release :: "'v os \<Rightarrow> addr \<Rightarrow> 'v thread_world \<Rightarrow> 'v thread_world option" where
  "sync_thread_core_release os a w = do {
     c \<leftarrow> mem w a;
     let r = sync_arc_dec (refs c);
     let w = store a (c\<lparr>refs := r\<rparr>) w;
     if r \<noteq> 0 then Some w else do {
       let w = decref_opt (task c) w;
       let w = decref_opt (result c) w;
       w \<leftarrow> (if mutex_initialized c \<noteq> 0 then abort_if_failed (sync_os_mutex_destroy os a w) else Some w);
       Some (free_core a w)
     }
   }"

definition terminal :: "int \<Rightarrow> bool" where
  "terminal s \<longleftrightarrow> s = SYNC_THREAD_JOINED \<or> s = SYNC_THREAD_DETACHED \<or> s = SYNC_THREAD_FAILED"

definition sync_thread_finalize ::
  "'v os \<Rightarrow> sync_thread_handle_t \<Rightarrow> 'v thread_world \<Rightarrow> 'v thread_world option" where
  "sync_thread_finalize os handle w = (case core handle of None \<Rightarrow> Some w | Some a \<Rightarrow> do {
     w \<leftarrow> sync_thread_lock_or_abort os a w;
     c \<leftarrow> mem w a;
     let terminal = terminal (state c);
     w \<leftarrow> sync_thread_unlock_or_abort os a w;
     if \<not> terminal then None else sync_thread_core_release os a w
   })"

definition sync_thread_wrap :: "addr \<Rightarrow> sync_thread_handle_t" where
  "sync_thread_wrap a = \<lparr>core = Some a\<rparr>"

definition sync_thread_new ::
  "'v os \<Rightarrow> 'v thread_world \<Rightarrow> ((sync_thread_handle_t option \<times> int) \<times> 'v thread_world) option" where
  "sync_thread_new os w = do {
     w \<leftarrow> sync_alloc os CoreBlock w;
     let a = fresh w;
     let c = \<lparr>refs = 1, mutex_initialized = 0, thread = None, task = None, result = None, id_bits = 0,
       started = 0, finished = 0, state = SYNC_THREAD_CREATED\<rparr>;
     let w = store a c (w\<lparr>fresh := Suc a\<rparr>);
     let (status, w) = sync_os_mutex_init os a w;
     if status \<noteq> 0 then Some ((None, status), free_core a w)
     else Some ((Some (sync_thread_wrap a), status), store a (c\<lparr>mutex_initialized := 1\<rparr>) w)
   }"

definition sync_thread_state :: "sync_thread_handle_t \<Rightarrow> addr option" where
  "sync_thread_state value = core value"

section \<open>Agents\<close>

datatype thread_agent = User sync_thread_handle_t tid | Body addr

text \<open>
  What an agent that does not hold the mutex still has to do: a start that has created the
  thread; a join that waits; a detach, with the injected error; the body that has to call the
  closure, to store the outcome, to finish, or to leave with the task it has to release.
\<close>

datatype 'v thread_k =
    StartK | JoinK | DetachK int
  | CallK | CompleteK 'v | EndK | LeaveK "'v option"

datatype thread_op =
    HandleStart | HandleClone tid | HandleJoin | HandleDetach | HandleIsFinished | HandleId | HandleDrop | BodyRun

datatype 'v thread_ret =
    Started int | Cloned thread_agent | Joined "'v option" int | Detached int | IsFinished int int
  | IdIs tid | HandleDropped | BodyDone

section \<open>The started thread\<close>

definition sync_thread_complete :: "'v os \<Rightarrow> addr \<Rightarrow> 'v \<Rightarrow> 'v thread_world \<Rightarrow> 'v thread_world option" where
  "sync_thread_complete os a r w = do {
     w \<leftarrow> sync_thread_lock_or_abort os a w;
     c \<leftarrow> mem w a;
     let w = (if result c = None then store a (c\<lparr>result := Some r\<rparr>) w else moonbit_decref r w);
     sync_thread_unlock_or_abort os a w
   }"

text \<open>
  \<open>sync_thread_main\<close>. The closure is the \<open>runner\<close> of \<open>spawn_raw\<close>: it runs the user's task and
  hands the boxed outcome, \<open>f v\<close> for the task \<open>v\<close>, to \<open>sync_thread_complete\<close>.
\<close>

definition sync_thread_main_call ::
  "('v \<Rightarrow> 'v) \<Rightarrow> addr \<Rightarrow> 'v thread_world \<Rightarrow> (('v thread_ret, 'v thread_k) outcome \<times> 'v thread_world) option" where
  "sync_thread_main_call f a w = do {
     c \<leftarrow> mem w a;
     v \<leftarrow> task c;
     Some (Again (CompleteK (f v)), log_call (RunClosure v) 0 w)
   }"

definition sync_thread_main_complete ::
  "'v os \<Rightarrow> addr \<Rightarrow> 'v \<Rightarrow> 'v thread_world \<Rightarrow> (('v thread_ret, 'v thread_k) outcome \<times> 'v thread_world) option" where
  "sync_thread_main_complete os a r w = map_option (Pair (Again EndK)) (sync_thread_complete os a r w)"

definition sync_thread_main_end ::
  "'v os \<Rightarrow> addr \<Rightarrow> 'v thread_world \<Rightarrow> (('v thread_ret, 'v thread_k) outcome \<times> 'v thread_world) option" where
  "sync_thread_main_end os a w = do {
     w \<leftarrow> sync_thread_lock_or_abort os a w;
     c \<leftarrow> mem w a;
     let c = c\<lparr>finished := 1\<rparr>;
     let (t, c) = (if state c = SYNC_THREAD_DETACHED then sync_thread_take_task c else (None, c));
     w \<leftarrow> sync_thread_unlock_or_abort os a (store a c w);
     Some (Again (LeaveK t), w)
   }"

definition sync_thread_main_leave ::
  "'v os \<Rightarrow> addr \<Rightarrow> 'v option \<Rightarrow> 'v thread_world \<Rightarrow> (('v thread_ret, 'v thread_k) outcome \<times> 'v thread_world) option" where
  "sync_thread_main_leave os a t w = do {
     w \<leftarrow> sync_thread_core_release os a (decref_opt t w);
     Some (Return BodyDone, w\<lparr>exited := True\<rparr>)
   }"

section \<open>Starting\<close>

text \<open>A start that fails: nobody else knows the core yet.\<close>

definition sync_thread_start_fail ::
  "'v os \<Rightarrow> addr \<Rightarrow> 'v \<Rightarrow> int \<Rightarrow> 'v thread_world \<Rightarrow> (('v thread_ret, 'v thread_k) outcome \<times> 'v thread_world) option" where
  "sync_thread_start_fail os a v status w = do {
     c \<leftarrow> mem w a;
     let w = moonbit_decref v (store a (c\<lparr>task := None\<rparr>) w);
     w \<leftarrow> sync_thread_lock_or_abort os a w;
     c \<leftarrow> mem w a;
     let w = store a (c\<lparr>state := SYNC_THREAD_FAILED\<rparr>) w;
     w \<leftarrow> sync_thread_unlock_or_abort os a w;
     w \<leftarrow> sync_thread_core_release os a w;
     Some (Return (Started status), w)
   }"

text \<open>
  Up to the creation of the thread, which the system calls \<open>t\<close>; \<open>Again StartK\<close>: the thread runs.
\<close>

definition sync_thread_start ::
  "'v os \<Rightarrow> sync_thread_handle_t \<Rightarrow> 'v \<Rightarrow> tid \<Rightarrow> 'v thread_world \<Rightarrow>
   (('v thread_ret, 'v thread_k) outcome \<times> 'v thread_world) option" where
  "sync_thread_start os value v t w = do {
     a \<leftarrow> core value;
     c \<leftarrow> mem w a;
     let w = store a (c\<lparr>task := Some v, refs := sync_arc_inc (refs c)\<rparr>) w;
     let (injected, next) = sync_test_atomic_take (next_start_error w);
     let w = w\<lparr>next_start_error := next\<rparr>;
     if injected \<noteq> 0 then sync_thread_start_fail os a v injected w else do {
       let (status, w) = os_call os (ThreadCreate a) w;
       if status \<noteq> 0 then sync_thread_start_fail os a v status w else do {
         c \<leftarrow> mem w a;
         Some (Again StartK, store a (c\<lparr>thread := Some t, id_bits := t\<rparr>) w)
       }
     }
   }"

definition sync_thread_start_end ::
  "'v os \<Rightarrow> addr \<Rightarrow> 'v thread_world \<Rightarrow> (('v thread_ret, 'v thread_k) outcome \<times> 'v thread_world) option" where
  "sync_thread_start_end os a w = do {
     w \<leftarrow> sync_thread_lock_or_abort os a w;
     c \<leftarrow> mem w a;
     let w = store a (c\<lparr>started := 1, state := SYNC_THREAD_JOINABLE\<rparr>) w;
     w \<leftarrow> sync_thread_unlock_or_abort os a w;
     Some (Return (Started 0), w)
   }"

section \<open>Joining and detaching\<close>

text \<open>Leaving an operation with the mutex held, and going back to the joinable state.\<close>

definition thread_refuse ::
  "'v os \<Rightarrow> addr \<Rightarrow> 'v thread_ret \<Rightarrow> 'v thread_world \<Rightarrow> (('v thread_ret, 'v thread_k) outcome \<times> 'v thread_world) option" where
  "thread_refuse os a r w = map_option (Pair (Return r)) (sync_thread_unlock_or_abort os a w)"

definition thread_rollback ::
  "'v os \<Rightarrow> addr \<Rightarrow> 'v thread_ret \<Rightarrow> 'v thread_world \<Rightarrow> (('v thread_ret, 'v thread_k) outcome \<times> 'v thread_world) option" where
  "thread_rollback os a r w = do {
     w \<leftarrow> sync_thread_lock_or_abort os a w;
     c \<leftarrow> mem w a;
     let w = store a (c\<lparr>state := SYNC_THREAD_JOINABLE\<rparr>) w;
     w \<leftarrow> sync_thread_unlock_or_abort os a w;
     Some (Return r, w)
   }"

text \<open>
  Is the caller, thread \<open>self\<close>, the thread it wants to join? The POSIX branch compares the
  threads; the Windows branch the identifiers, and that the thread is still running.
\<close>

definition joining_self :: "'v os \<Rightarrow> tid \<Rightarrow> 'v sync_thread_core_t \<Rightarrow> 'v thread_world \<Rightarrow> bool" where
  "joining_self os self c w \<longleftrightarrow> (if win32 os then self = id_bits c \<and> \<not> exited w else thread c = Some self)"

definition sync_thread_join ::
  "'v os \<Rightarrow> tid \<Rightarrow> sync_thread_handle_t \<Rightarrow> 'v thread_world \<Rightarrow> (('v thread_ret, 'v thread_k) outcome \<times> 'v thread_world) option" where
  "sync_thread_join os self value w = do {
     a \<leftarrow> core value;
     w \<leftarrow> sync_thread_lock_or_abort os a w;
     c \<leftarrow> mem w a;
     if started c = 0 \<or> state c = SYNC_THREAD_FAILED \<or> state c = SYNC_THREAD_JOINED then
       thread_refuse os a (Joined None (- 1)) w
     else if state c = SYNC_THREAD_DETACHED then thread_refuse os a (Joined None (- 3)) w
     else if state c = SYNC_THREAD_JOINING \<or> state c = SYNC_THREAD_DETACHING then
       thread_refuse os a (Joined None (- 4)) w
     else if joining_self os self c w then thread_refuse os a (Joined None (- 2)) w
     else do {
       let (injected, next) = sync_test_atomic_take (next_join_error w);
       let w = w\<lparr>next_join_error := next\<rparr>;
       if injected \<noteq> 0 then thread_refuse os a (Joined None injected) w else do {
         let w = store a (c\<lparr>state := SYNC_THREAD_JOINING\<rparr>) w;
         w \<leftarrow> sync_thread_unlock_or_abort os a w;
         Some (Again JoinK, w)
       }
     }
   }"

text \<open>
  Waiting for the thread: \<open>pthread_join\<close>, or \<open>WaitForSingleObject\<close> and \<open>CloseHandle\<close>. A failure
  may be reported at any time, success only when the thread is over; until then the call
  does not return.
\<close>

definition os_join :: "'v os \<Rightarrow> addr \<Rightarrow> 'v thread_world \<Rightarrow> (int \<times> 'v thread_world) option" where
  "os_join os a w =
     (let (st, w) = os_call os (ThreadJoin a) w
      in if st \<noteq> 0 then Some (st, w)
         else if \<not> exited w then None
         else if win32 os then Some (os_call os (ThreadDetach a) w) else Some (st, w))"

definition sync_thread_join_wait ::
  "'v os \<Rightarrow> addr \<Rightarrow> 'v thread_world \<Rightarrow> (('v thread_ret, 'v thread_k) outcome \<times> 'v thread_world) option" where
  "sync_thread_join_wait os a w = do {
     (status, w) \<leftarrow> os_join os a w;
     if status \<noteq> 0 then thread_rollback os a (Joined None status) w else do {
       w \<leftarrow> sync_thread_lock_or_abort os a w;
       c \<leftarrow> mem w a;
       let r = result c;
       let (t, c) = sync_thread_take_task (c\<lparr>result := None\<rparr>);
       w \<leftarrow> sync_thread_unlock_or_abort os a (store a (c\<lparr>state := SYNC_THREAD_JOINED\<rparr>) w);
       Some (Return (Joined r 0), decref_opt t w)
     }
   }"

definition sync_thread_detach ::
  "'v os \<Rightarrow> sync_thread_handle_t \<Rightarrow> 'v thread_world \<Rightarrow> (('v thread_ret, 'v thread_k) outcome \<times> 'v thread_world) option" where
  "sync_thread_detach os value w = do {
     a \<leftarrow> core value;
     w \<leftarrow> sync_thread_lock_or_abort os a w;
     c \<leftarrow> mem w a;
     if started c = 0 \<or> state c = SYNC_THREAD_FAILED \<or> state c = SYNC_THREAD_JOINED then
       thread_refuse os a (Detached (- 1)) w
     else if state c = SYNC_THREAD_DETACHED then thread_refuse os a (Detached (- 2)) w
     else if state c = SYNC_THREAD_JOINING \<or> state c = SYNC_THREAD_DETACHING then
       thread_refuse os a (Detached (- 3)) w
     else do {
       let w = store a (c\<lparr>state := SYNC_THREAD_DETACHING\<rparr>) w;
       let (injected, next) = sync_test_atomic_take (next_detach_error w);
       let w = w\<lparr>next_detach_error := next\<rparr>;
       w \<leftarrow> sync_thread_unlock_or_abort os a w;
       Some (Again (DetachK injected), w)
     }
   }"

definition sync_thread_detach_end ::
  "'v os \<Rightarrow> addr \<Rightarrow> int \<Rightarrow> 'v thread_world \<Rightarrow> (('v thread_ret, 'v thread_k) outcome \<times> 'v thread_world) option" where
  "sync_thread_detach_end os a injected w =
     (if injected \<noteq> 0 then thread_rollback os a (Detached injected) w else do {
       let (status, w) = os_call os (ThreadDetach a) w;
       if status \<noteq> 0 then thread_rollback os a (Detached status) w else do {
         w \<leftarrow> sync_thread_lock_or_abort os a w;
         c \<leftarrow> mem w a;
         let c = c\<lparr>state := SYNC_THREAD_DETACHED\<rparr>;
         let (t, c) = (if finished c \<noteq> 0 then sync_thread_take_task c else (None, c));
         w \<leftarrow> sync_thread_unlock_or_abort os a (store a c w);
         Some (Return (Detached 0), decref_opt t w)
       }
     })"

section \<open>Queries and tests\<close>

definition sync_thread_is_finished ::
  "'v os \<Rightarrow> sync_thread_handle_t \<Rightarrow> 'v thread_world \<Rightarrow> ((int \<times> int) \<times> 'v thread_world) option" where
  "sync_thread_is_finished os value w = do {
     a \<leftarrow> core value;
     let (status, w) = sync_os_mutex_lock os a w;
     if status \<noteq> 0 then Some ((0, status), w) else do {
       c \<leftarrow> mem w a;
       let result = finished c;
       let (unlock_status, w) = sync_os_mutex_unlock os a w;
       Some ((result, if status = 0 then unlock_status else status), w)
     }
   }"

definition sync_thread_test_fail_next_start :: "int \<Rightarrow> 'v thread_world \<Rightarrow> 'v thread_world" where
  "sync_thread_test_fail_next_start status w =
     w\<lparr>next_start_error := sync_test_atomic_store (next_start_error w) status\<rparr>"

definition sync_thread_test_fail_next_join :: "int \<Rightarrow> 'v thread_world \<Rightarrow> 'v thread_world" where
  "sync_thread_test_fail_next_join status w =
     w\<lparr>next_join_error := sync_test_atomic_store (next_join_error w) status\<rparr>"

definition sync_thread_test_fail_next_detach :: "int \<Rightarrow> 'v thread_world \<Rightarrow> 'v thread_world" where
  "sync_thread_test_fail_next_detach status w =
     w\<lparr>next_detach_error := sync_test_atomic_store (next_detach_error w) status\<rparr>"

definition sync_thread_test_abort_if_unjoined :: "'v os \<Rightarrow> 'v thread_world \<Rightarrow> 'v thread_world option" where
  "sync_thread_test_abort_if_unjoined os w = do {
     ((handle, status), w) \<leftarrow> sync_thread_new os w;
     if status \<noteq> 0 \<or> handle = None then None else do {
       h \<leftarrow> handle;
       sync_thread_finalize os h w
     }
   }"

definition sync_thread_id :: "sync_thread_handle_t \<Rightarrow> 'v thread_world \<Rightarrow> tid option" where
  "sync_thread_id value w = do {
     a \<leftarrow> core value;
     c \<leftarrow> mem w a;
     Some (id_bits c)
   }"

text \<open>The calling thread's own identifier; giving up the processor changes nothing.\<close>

definition sync_current_thread_id :: "tid \<Rightarrow> tid" where
  "sync_current_thread_id self = self"

definition sync_thread_yield :: "'v thread_world \<Rightarrow> 'v thread_world" where
  "sync_thread_yield w = w"

section \<open>The thread as a monitor\<close>

text \<open>The references to the handle object, which the runtime counts.\<close>

definition handle_clone :: "sync_thread_handle_t \<Rightarrow> tid \<Rightarrow> 'v thread_world \<Rightarrow> thread_agent \<times> 'v thread_world" where
  "handle_clone h t w = (User h t, w\<lparr>uses := Suc (uses w)\<rparr>)"

definition handle_drop :: "'v os \<Rightarrow> sync_thread_handle_t \<Rightarrow> 'v thread_world \<Rightarrow> 'v thread_world option" where
  "handle_drop os h w =
     (let w' = w\<lparr>uses := uses w - 1\<rparr> in if uses w = 1 then sync_thread_finalize os h w' else Some w')"

fun thread_may :: "thread_op \<Rightarrow> thread_agent \<Rightarrow> bool" where
  "thread_may HandleStart _ = False"
| "thread_may BodyRun _ = False"
| "thread_may _ (User h t) = True"
| "thread_may _ (Body a) = False"

fun thread_enter ::
  "'v os \<Rightarrow> thread_op \<Rightarrow> thread_agent \<Rightarrow> 'v thread_world \<Rightarrow>
   (('v thread_ret, 'v thread_k) outcome \<times> 'v thread_world) option" where
  "thread_enter os (HandleClone t') (User h t) w = (let (x, w) = handle_clone h t' w in Some (Return (Cloned x), w))"
| "thread_enter os HandleJoin (User h t) w = sync_thread_join os (sync_current_thread_id t) h w"
| "thread_enter os HandleDetach (User h t) w = sync_thread_detach os h w"
| "thread_enter os HandleIsFinished (User h t) w =
     map_option (\<lambda>((r, st), w). (Return (IsFinished r st), w)) (sync_thread_is_finished os h w)"
| "thread_enter os HandleId (User h t) w = map_option (\<lambda>i. (Return (IdIs i), w)) (sync_thread_id h w)"
| "thread_enter os HandleDrop (User h t) w = map_option (Pair (Return HandleDropped)) (handle_drop os h w)"
| "thread_enter _ _ _ _ = None"

fun thread_site :: "thread_agent \<Rightarrow> addr option" where
  "thread_site (User h t) = core h"
| "thread_site (Body a) = Some a"

definition thread_resume ::
  "('v \<Rightarrow> 'v) \<Rightarrow> 'v os \<Rightarrow> 'v thread_k \<Rightarrow> thread_agent \<Rightarrow> 'v thread_world \<Rightarrow>
   (('v thread_ret, 'v thread_k) outcome \<times> 'v thread_world) option" where
  "thread_resume f os k x w = do {
     a \<leftarrow> thread_site x;
     case k of
       StartK \<Rightarrow> sync_thread_start_end os a w
     | JoinK \<Rightarrow> sync_thread_join_wait os a w
     | DetachK injected \<Rightarrow> sync_thread_detach_end os a injected w
     | CallK \<Rightarrow> sync_thread_main_call f a w
     | CompleteK r \<Rightarrow> sync_thread_main_complete os a r w
     | EndK \<Rightarrow> sync_thread_main_end os a w
     | LeaveK t \<Rightarrow> sync_thread_main_leave os a t w
   }"

fun thread_pending :: "'v thread_k \<Rightarrow> thread_op" where
  "thread_pending StartK = HandleStart"
| "thread_pending JoinK = HandleJoin"
| "thread_pending (DetachK i) = HandleDetach"
| "thread_pending _ = BodyRun"

fun thread_born :: "'v thread_ret \<Rightarrow> thread_agent option" where
  "thread_born (Cloned x) = Some x"
| "thread_born _ = None"

definition thread_monitor where
  "thread_monitor f a = \<lparr>site = a, may = thread_may, enter = thread_enter, resume = thread_resume f,
     pending = thread_pending, drops = (\<lambda>op. op = HandleDrop \<or> op = BodyRun), born = thread_born\<rparr>"

text \<open>
  \<open>spawn_raw\<close> of \<^verbatim>\<open>src/src/unsafe/thread/thread.mbt\<close> up to the creation of the thread: the caller,
  thread \<open>self\<close>, has the only reference to the new handle. When the creation fails \<open>start\<close> has
  returned already.
\<close>

definition spawn_raw ::
  "'v os \<Rightarrow> tid \<Rightarrow> 'v \<Rightarrow> tid \<Rightarrow> 'v thread_world \<Rightarrow>
   ('v, _, thread_op, thread_agent, 'v thread_k, 'v thread_ret) config option" where
  "spawn_raw os self v t w = do {
     ((handle, creation_status), w) \<leftarrow> sync_thread_new os w;
     h \<leftarrow> handle;
     a \<leftarrow> sync_thread_state h;
     (out, w) \<leftarrow> sync_thread_start os h v t (w\<lparr>uses := 1, exited := False\<rparr>);
     Some \<lparr>wrld = w,
       agents = (case out of Again k \<Rightarrow> {#(User h self, Runnable k), (Body a, Runnable CallK)#} | _ \<Rightarrow> {#(User h self, Ready)#}),
       past = record_past HandleStart out []\<rparr>
   }"

end
