(* ===== verification/Sync_Thread_Invariant.thy ===== *)
theory Sync_Thread_Invariant
  imports Sync_Thread
begin

text \<open>
  The invariant of a thread and its handle, and that every piece of code keeps it: the state
  machine against what the users have pending, who owns the task and the result, and the
  reference count.
\<close>

section \<open>Specification\<close>

type_synonym 'v thread_tag = "thread_agent \<times> 'v thread_k option"

text \<open>Agents with what they have to do.\<close>

fun is_user :: "'v thread_tag \<Rightarrow> bool" where
  "is_user (User h t, k) = True"
| "is_user _ = False"

definition users :: "'v thread_tag multiset \<Rightarrow> nat" where
  "users A = size (filter_mset is_user A)"

definition bodies :: "'v thread_tag multiset \<Rightarrow> nat" where
  "bodies A = size (filter_mset (\<lambda>x. \<not> is_user x) A)"

definition pend :: "('v thread_k \<Rightarrow> bool) \<Rightarrow> 'v thread_tag multiset \<Rightarrow> nat" where
  "pend K A = size (filter_mset (\<lambda>x. case snd x of None \<Rightarrow> False | Some k \<Rightarrow> K k) A)"

fun is_detach :: "'v thread_k \<Rightarrow> bool" where
  "is_detach (DetachK i) = True"
| "is_detach _ = False"

definition opt_mset :: "'v option \<Rightarrow> 'v multiset" where
  "opt_mset x = (case x of None \<Rightarrow> {#} | Some v \<Rightarrow> {#v#})"

text \<open>The objects an agent holds a reference to.\<close>

fun carries :: "'v thread_tag \<Rightarrow> 'v multiset" where
  "carries (x, Some (CompleteK r)) = {#r#}"
| "carries (x, Some (LeaveK t)) = opt_mset t"
| "carries _ = {#}"

definition carried :: "'v thread_tag multiset \<Rightarrow> 'v multiset" where
  "carried A = sum_mset (image_mset carries A)"

text \<open>Which agent can have which continuation.\<close>

fun tag_fits :: "addr \<Rightarrow> 'v thread_tag \<Rightarrow> bool" where
  "tag_fits a (User h t, k) \<longleftrightarrow> core h = Some a \<and>
     (case k of None \<Rightarrow> True | Some StartK \<Rightarrow> True | Some JoinK \<Rightarrow> True | Some (DetachK i) \<Rightarrow> True | _ \<Rightarrow> False)"
| "tag_fits a (Body b, k) \<longleftrightarrow> b = a \<and>
     (case k of Some CallK \<Rightarrow> True | Some (CompleteK r) \<Rightarrow> True | Some EndK \<Rightarrow> True | Some (LeaveK t) \<Rightarrow> True | _ \<Rightarrow> False)"

text \<open>What the body has done so far; \<open>v\<close> is the task, \<open>f\<close> gives its outcome.\<close>

fun phase :: "'v \<Rightarrow> ('v \<Rightarrow> 'v) \<Rightarrow> 'v sync_thread_core_t \<Rightarrow> 'v thread_tag \<Rightarrow> bool" where
  "phase v f c (Body b, Some CallK) \<longleftrightarrow> finished c = 0 \<and> result c = None"
| "phase v f c (Body b, Some (CompleteK r)) \<longleftrightarrow> finished c = 0 \<and> result c = None \<and> r = f v"
| "phase v f c (Body b, Some EndK) \<longleftrightarrow> finished c = 0 \<and> result c = Some (f v)"
| "phase v f c (Body b, Some (LeaveK t)) \<longleftrightarrow> finished c = 1 \<and> result c = Some (f v)"
| "phase v f c _ \<longleftrightarrow> True"

text \<open>The results that joins have delivered.\<close>

fun delivered_by :: "thread_op \<times> 'v thread_ret \<Rightarrow> 'v list" where
  "delivered_by (HandleJoin, Joined (Some r) st) = [r]"
| "delivered_by _ = []"

text \<open>A \<open>join\<close> has a result exactly when its status is 0.\<close>

fun join_ok :: "thread_op \<times> 'v thread_ret \<Rightarrow> bool" where
  "join_ok (op, Joined r st) \<longleftrightarrow> (r = None \<longleftrightarrow> st \<noteq> 0)"
| "join_ok _ \<longleftrightarrow> True"

definition silent :: "thread_op \<times> 'v thread_ret \<Rightarrow> bool" where
  "silent x \<longleftrightarrow> delivered_by x = [] \<and> join_ok x"

definition delivered :: "(thread_op \<times> 'v thread_ret) list \<Rightarrow> 'v list" where
  "delivered ps = concat (map delivered_by ps)"

text \<open>The closures called, in order.\<close>

definition task_runs :: "'v history \<Rightarrow> 'v list" where
  "task_runs ks = concat (map (\<lambda>(k, st). case k of RunClosure v \<Rightarrow> [v] | _ \<Rightarrow> []) ks)"

definition thread_resources :: "addr \<Rightarrow> resource list" where
  "thread_resources a = [MutexRes a, BlockRes CoreBlock]"

text \<open>The core, given the agents; \<open>fails\<close>: the thread could not be created; \<open>ex\<close>: it is over.\<close>

definition thread_shape ::
  "bool \<Rightarrow> 'v \<Rightarrow> ('v \<Rightarrow> 'v) \<Rightarrow> bool \<Rightarrow> 'v sync_thread_core_t \<Rightarrow> 'v thread_tag multiset \<Rightarrow> bool" where
  "thread_shape fails v f ex c A \<longleftrightarrow>
     refs c = of_nat ((if users A = 0 then 0 else 1) + bodies A) \<and> mutex_initialized c = 1 \<and>
     state c \<in> {0, 1, 2, 3, 4, 5, 6} \<and> fails = (state c = 6) \<and> finished c \<in> {0, 1} \<and>
     pend (\<lambda>k. k = StartK) A = (if state c = 0 then 1 else 0) \<and>
     pend (\<lambda>k. k = JoinK) A = (if state c = 2 then 1 else 0) \<and>
     pend is_detach A = (if state c = 3 then 1 else 0) \<and>
     started c = (if state c \<in> {0, 6} then 0 else 1) \<and>
     (users A = 0 \<longrightarrow> state c \<in> {4, 5, 6}) \<and>
     task c = (if state c \<in> {4, 6} \<or> state c = 5 \<and> finished c = 1 then None else Some v) \<and>
     bodies A = (if ex \<or> fails then 0 else 1) \<and> (state c = 4 \<longrightarrow> ex) \<and>
     (ex \<and> \<not> fails \<longrightarrow> finished c = 1 \<and> result c = (if state c = 4 then None else Some (f v))) \<and>
     (fails \<longrightarrow> finished c = 0 \<and> result c = None) \<and> (\<forall>x \<in># A. phase v f c x)"

text \<open>The accounts of task and result: \<open>R\<close> and \<open>D\<close> are the calls and releases before the
  thread, \<open>Q\<close> what the core holds, \<open>ks\<close> the log.\<close>

definition thread_books ::
  "bool \<Rightarrow> 'v \<Rightarrow> ('v \<Rightarrow> 'v) \<Rightarrow> 'v multiset \<Rightarrow> 'v multiset \<Rightarrow> 'v multiset \<Rightarrow> 'v history \<Rightarrow> 'v thread_tag multiset \<Rightarrow>
   (thread_op \<times> 'v thread_ret) list \<Rightarrow> bool" where
  "thread_books fails v f R D Q ks A ps \<longleftrightarrow>
     mset (decrefs ks) + Q + carried A + mset (delivered ps) + image_mset f R =
       D + {#v#} + image_mset f (mset (task_runs ks)) \<and>
     mset (task_runs ks) = R + (if fails \<or> 0 < pend (\<lambda>k. k = CallK) A then {#} else {#v#}) \<and>
     delivered ps \<in> {[], [f v]} \<and> (fails \<longrightarrow> delivered ps = []) \<and> list_all join_ok ps"

definition thread_inv ::
  "bool \<Rightarrow> 'v \<Rightarrow> ('v \<Rightarrow> 'v) \<Rightarrow> 'v multiset \<Rightarrow> 'v multiset \<Rightarrow> addr \<Rightarrow> (resource \<Rightarrow> int) \<Rightarrow> 'v thread_world \<Rightarrow>
   'v thread_tag multiset \<Rightarrow> (thread_op \<times> 'v thread_ret) list \<Rightarrow> bool" where
  "thread_inv fails v f R D a B w A ps \<longleftrightarrow>
     (\<forall>x \<in># A. tag_fits a x) \<and> mutex_state a w = Some False \<and> uses w = users A \<and>
     (if A = {#} then mem w a = None \<and> (\<forall>r. balance r (calls w) = B r) \<and> thread_books fails v f R D {#} (calls w) A ps
      else \<exists>c. mem w a = Some c \<and> thread_shape fails v f (exited w) c A \<and>
        thread_books fails v f R D (opt_mset (task c) + opt_mset (result c)) (calls w) A ps \<and>
        (delivered ps = [f v] \<longleftrightarrow> state c = 4) \<and>
        (\<forall>r. balance r (calls w) = B r + owning (thread_resources a) r))"

section \<open>Lemmas\<close>

subsection \<open>Counting agents\<close>

lemma tag_counts [simp]:
  "users {#} = 0" "bodies {#} = 0" "pend K {#} = 0" "carried {#} = {#}"
  "users (add_mset x A) = (if is_user x then 1 else 0) + users A"
  "bodies (add_mset x A) = (if is_user x then 0 else 1) + bodies A"
  "pend K (add_mset x A) = (case snd x of None \<Rightarrow> 0 | Some k \<Rightarrow> if K k then 1 else 0) + pend K A"
  "carried (add_mset x A) = carries x + carried A"
  "users (A + C) = users A + users C" "bodies (A + C) = bodies A + bodies C" "pend K (A + C) = pend K A + pend K C"
  "carried (A + C) = carried A + carried C"
  by (simp_all add: users_def bodies_def pend_def carried_def split: option.splits)

lemma opt_mset_simps [simp]: "opt_mset None = {#}" "opt_mset (Some v) = {#v#}"
  by (simp_all add: opt_mset_def)

lemma delivered_simps [simp]:
  "delivered [] = []" "delivered (ps @ [x]) = delivered ps @ delivered_by x"
  by (simp_all add: delivered_def)

lemma task_runs_simps [simp]:
  "task_runs [] = []" "task_runs (xs @ ys) = task_runs xs @ task_runs ys"
  "task_runs ((k, st) # ks) = (case k of RunClosure v \<Rightarrow> v # task_runs ks | _ \<Rightarrow> task_runs ks)"
  by (auto simp: task_runs_def split: call.splits)

lemma bodies_none: "bodies A = 0 \<Longrightarrow> x \<in># A \<Longrightarrow> is_user x"
  unfolding bodies_def by (cases x) auto

lemma size_agents: "size A = users A + bodies A"
  by (induction A) auto

lemma no_agents: "users A = 0 \<Longrightarrow> bodies A = 0 \<Longrightarrow> A = {#}"
  using size_agents [of A] by simp

lemmas thread_states = SYNC_THREAD_CREATED_def SYNC_THREAD_JOINABLE_def SYNC_THREAD_JOINING_def SYNC_THREAD_DETACHING_def
  SYNC_THREAD_JOINED_def SYNC_THREAD_DETACHED_def SYNC_THREAD_FAILED_def

lemmas thread_defs = os_defs sync_thread_lock_or_abort_def sync_thread_unlock_or_abort_def thread_states

subsection \<open>What keeps the invariant\<close>

lemma thread_invD:
  assumes "thread_inv fails v f R D a B w (add_mset x A) ps"
  obtains c where "mem w a = Some c" "thread_shape fails v f (exited w) c (add_mset x A)"
    "thread_books fails v f R D (opt_mset (task c) + opt_mset (result c)) (calls w) (add_mset x A) ps"
    "delivered ps = [f v] \<longleftrightarrow> state c = 4" "\<And>r. balance r (calls w) = B r + owning (thread_resources a) r"
    "tag_fits a x" "\<forall>y \<in># A. tag_fits a y" "mutex_state a w = Some False" "uses w = users (add_mset x A)"
  using assms by (auto simp: thread_inv_def)

text \<open>A piece that leaves the core allocated.\<close>

lemma thread_keep:
  assumes inv: "thread_inv fails v f R D a B w (add_mset x A) ps" and log: "calls w' = calls w @ ks"
    and ks: "\<And>r. balance r ks = 0" "mutex_run a False ks = Some False" and m: "mem w' a = Some c'"
    and u: "uses w' = users (add_mset y A)" and y: "tag_fits a y"
    and sh: "thread_shape fails v f (exited w') c' (add_mset y A)"
    and bk: "thread_books fails v f R D (opt_mset (task c') + opt_mset (result c')) (calls w') (add_mset y A) ps'"
    and d: "delivered ps' = [f v] \<longleftrightarrow> state c' = 4"
  shows "thread_inv fails v f R D a B w' (add_mset y A) ps'"
proof -
  have "mutex_state a w' = Some False"
    by (rule thread_invD [OF inv]) (use log ks(2) in \<open>simp add: mutex_state_def mutex_run_append\<close>)
  moreover have "balance r (calls w') = B r + owning (thread_resources a) r" for r
    by (rule thread_invD [OF inv]) (use log ks(1) in simp)
  moreover have "\<forall>z \<in># A. tag_fits a z" by (rule thread_invD [OF inv])
  ultimately show ?thesis using m u y sh bk d by (auto simp: thread_inv_def)
qed

text \<open>The core is as before and a user has nothing pending.\<close>

lemma thread_quiet:
  assumes inv: "thread_inv fails v f R D a B w (add_mset (User h t, None) A) ps" and log: "calls w' = calls w @ ks"
    and ks: "\<And>r. balance r ks = 0" "mutex_run a False ks = Some False" "decrefs ks = []" "task_runs ks = []"
    and same: "mem w' a = mem w a" "uses w' = uses w" "exited w' = exited w" and r: "silent (op, r)"
  shows "thread_inv fails v f R D a B w' (add_mset (User h t, None) A) (ps @ [(op, r)])"
proof (rule thread_invD [OF inv])
  fix c
  assume c: "mem w a = Some c" "thread_shape fails v f (exited w) c (add_mset (User h t, None) A)"
    "thread_books fails v f R D (opt_mset (task c) + opt_mset (result c)) (calls w) (add_mset (User h t, None) A) ps"
    "delivered ps = [f v] \<longleftrightarrow> state c = 4" "tag_fits a (User h t, None)" "uses w = users (add_mset (User h t, None) A)"
  show ?thesis
    by (rule thread_keep [OF inv log ks(1,2)]) (use c same ks r log in \<open>auto simp: thread_books_def silent_def\<close>)
qed

subsection \<open>Refused operations and claims\<close>

lemma thread_same [simp]:
  "thread_inv fails v f R D a B (w\<lparr>next_join_error := e\<rparr>) A ps = thread_inv fails v f R D a B w A ps"
  "thread_inv fails v f R D a B (w\<lparr>next_detach_error := e\<rparr>) A ps = thread_inv fails v f R D a B w A ps"
  by (simp_all add: thread_inv_def mutex_state_def)

lemma thread_settle [simp]:
  "image_mset tag (settle (thread_monitor f a) op x (Again k)) = {#(x, Some k)#}"
  "image_mset tag (settle (thread_monitor f a) op x (Return r)) =
     (if op = HandleDrop \<or> op = BodyRun then {#} else {#(x, None)#}) +
     (case thread_born r of None \<Rightarrow> {#} | Some y \<Rightarrow> {#(y, None)#})"
  "record_past op (Again k) ps = ps" "record_past op (Return r) ps = ps @ [(op, r)]"
  by (auto simp: settle_def thread_monitor_def record_past_def split: option.splits)

lemma refuse_inv:
  assumes inv: "thread_inv fails v f R D a B w (add_mset (User h t, None) A) ps"
    and run: "thread_refuse os a r (w\<lparr>calls := calls w @ [(MutexLock a, 0)]\<rparr>) = Some (out, w')"
    and r: "silent (op, r)"
  shows "out = Return r \<and> thread_inv fails v f R D a B w' (add_mset (User h t, None) A) (ps @ [(op, r)])"
proof -
  have w': "out = Return r" "w' = w\<lparr>calls := calls w @ [(MutexLock a, 0), (MutexUnlock a, 0)]\<rparr>"
    using run by (auto simp: thread_refuse_def thread_defs)
  show ?thesis using w' thread_quiet [OF inv, of w' "[(MutexLock a, 0), (MutexUnlock a, 0)]"] r by simp
qed

text \<open>A user takes the joinable thread for itself.\<close>

lemma claim_inv:
  assumes inv: "thread_inv fails v f R D a B w (add_mset (User h t, None) A) ps"
    and c: "mem w a = Some c" "state c = 1" and log: "calls w' = calls w @ [(MutexLock a, 0), (MutexUnlock a, 0)]"
    and m: "mem w' a = Some (c\<lparr>state := s\<rparr>)" and same: "uses w' = uses w" "exited w' = exited w"
    and k: "s = 2 \<and> k = JoinK \<or> s = 3 \<and> k = DetachK i"
  shows "thread_inv fails v f R D a B w' (add_mset (User h t, Some k) A) ps"
proof (rule thread_invD [OF inv])
  fix d
  assume d: "mem w a = Some d" "thread_shape fails v f (exited w) d (add_mset (User h t, None) A)"
    "thread_books fails v f R D (opt_mset (task d) + opt_mset (result d)) (calls w) (add_mset (User h t, None) A) ps"
    "delivered ps = [f v] \<longleftrightarrow> state d = 4" "tag_fits a (User h t, None)" "uses w = users (add_mset (User h t, None) A)"
  have ph: "phase v f (c\<lparr>state := s\<rparr>) x = phase v f c x" for x by (induction v f c x rule: phase.induct) auto
  have sh: "thread_shape fails v f (exited w') (c\<lparr>state := s\<rparr>) (add_mset (User h t, Some k) A)"
    using c d(1,2) same(2) k ph by (elim disjE) (simp_all add: thread_shape_def)
  have bk: "thread_books fails v f R D (opt_mset (task c) + opt_mset (result c)) (calls w') (add_mset (User h t, Some k) A) ps"
    using c(1) d(1,3) k log by (elim disjE) (simp_all add: thread_books_def)
  show ?thesis
    by (rule thread_keep [OF inv log _ _ m _ _ sh]) (use c d(1,4-6) same k bk in auto)
qed

lemma join_inv:
  assumes inv: "thread_inv fails v f R D a B w (add_mset (User h t, None) A) ps"
    and run: "sync_thread_join os t h w = Some (out, w')"
  shows "thread_inv fails v f R D a B w' (A + image_mset tag (settle (thread_monitor f a) HandleJoin (User h t) out))
    (record_past HandleJoin out ps)"
proof (rule thread_invD [OF inv])
  fix c
  assume m: "mem w a = Some c" and sh: "thread_shape fails v f (exited w) c (add_mset (User h t, None) A)"
    and "tag_fits a (User h t, None)"
  then have a: "core h = Some a" by simp
  let ?l = "w\<lparr>calls := calls w @ [(MutexLock a, 0)]\<rparr>"
  have inv2: "thread_inv fails v f R D a B (w\<lparr>next_join_error := 0\<rparr>) (add_mset (User h t, None) A) ps" using inv by simp
  have swap: "?l\<lparr>next_join_error := 0\<rparr> = w\<lparr>next_join_error := 0, calls := calls w @ [(MutexLock a, 0)]\<rparr>" by simp
  have ref: ?thesis if "st \<noteq> 0" "thread_refuse os a (Joined None st) ?l = Some (out, w') \<or>
      thread_refuse os a (Joined None st) (?l\<lparr>next_join_error := 0\<rparr>) = Some (out, w')" for st
    using that refuse_inv [OF inv, of os "Joined None st" out w' HandleJoin]
      refuse_inv [OF inv2, of os "Joined None st" out w' HandleJoin] by (auto simp: swap silent_def)
  have go: "state c = 1" if "started c \<noteq> 0" "state c \<notin> {2, 3, 4, 5, 6}" using that sh by (auto simp: thread_shape_def)
  consider st where "thread_refuse os a (Joined None st) ?l = Some (out, w')" "st \<noteq> 0"
    | st where "thread_refuse os a (Joined None st) (?l\<lparr>next_join_error := 0\<rparr>) = Some (out, w')" "st \<noteq> 0"
    | "out = Again JoinK" "state c = 1" "mem w' a = Some (c\<lparr>state := 2\<rparr>)" "uses w' = uses w" "exited w' = exited w"
        "calls w' = calls w @ [(MutexLock a, 0), (MutexUnlock a, 0)]"
    using run a m go by (auto simp: sync_thread_join_def thread_defs split: if_splits)
  then show ?thesis
  proof cases
    case 3
    then show ?thesis using claim_inv [OF inv m 3(2,6,3,4,5), of JoinK] by simp
  qed (simp_all add: ref)
qed

lemma detach_inv:
  assumes inv: "thread_inv fails v f R D a B w (add_mset (User h t, None) A) ps"
    and run: "sync_thread_detach os h w = Some (out, w')"
  shows "thread_inv fails v f R D a B w' (A + image_mset tag (settle (thread_monitor f a) HandleDetach (User h t) out))
    (record_past HandleDetach out ps)"
proof (rule thread_invD [OF inv])
  fix c
  assume m: "mem w a = Some c" and sh: "thread_shape fails v f (exited w) c (add_mset (User h t, None) A)"
    and "tag_fits a (User h t, None)"
  then have a: "core h = Some a" by simp
  let ?l = "w\<lparr>calls := calls w @ [(MutexLock a, 0)]\<rparr>"
  have go: "state c = 1" if "started c \<noteq> 0" "state c \<notin> {2, 3, 4, 5, 6}" using that sh by (auto simp: thread_shape_def)
  consider st where "thread_refuse os a (Detached st) ?l = Some (out, w')"
    | i where "out = Again (DetachK i)" "state c = 1" "mem w' a = Some (c\<lparr>state := 3\<rparr>)" "uses w' = uses w" "exited w' = exited w"
        "calls w' = calls w @ [(MutexLock a, 0), (MutexUnlock a, 0)]"
    using run a m go by (auto simp: sync_thread_detach_def thread_defs split: if_splits)
  then show ?thesis
  proof cases
    case (1 st)
    then show ?thesis using refuse_inv [OF inv, of os "Detached st" out w' HandleDetach] by (auto simp: silent_def)
  next
    case (2 i)
    then show ?thesis using claim_inv [OF inv m 2(2,6,3,4,5), of "DetachK i"] by simp
  qed
qed

subsection \<open>Users that settle\<close>

lemma phase_cong: "finished c' = finished c \<Longrightarrow> result c' = result c \<Longrightarrow> phase v f c' x = phase v f c x"
  by (induction v f c x rule: phase.induct) auto

lemma phase_user: "is_user x \<Longrightarrow> phase v f c x"
  by (cases x; cases "fst x") auto

lemma no_body_phase: "bodies A = 0 \<Longrightarrow> \<forall>x \<in># A. phase v f c x"
  by (intro ballI phase_user bodies_none)

text \<open>A user that has started, joined, detached or given up: back to nothing pending.\<close>

lemma user_settles:
  assumes inv: "thread_inv fails v f R D a B w (add_mset (User h t, Some k) A) ps" and c: "mem w a = Some c"
    and log: "calls w' = calls w @ ks" "\<And>r. balance r ks = 0" "mutex_run a False ks = Some False"
      "decrefs ks = []" "task_runs ks = []"
    and m: "mem w' a = Some (c\<lparr>started := 1, state := 1\<rparr>)" and same: "uses w' = uses w" "exited w' = exited w"
    and r: "silent (op, r)"
  shows "thread_inv fails v f R D a B w' (add_mset (User h t, None) A) (ps @ [(op, r)])"
proof (rule thread_invD [OF inv])
  fix d
  assume d: "mem w a = Some d" "thread_shape fails v f (exited w) d (add_mset (User h t, Some k) A)"
    "thread_books fails v f R D (opt_mset (task d) + opt_mset (result d)) (calls w) (add_mset (User h t, Some k) A) ps"
    "delivered ps = [f v] \<longleftrightarrow> state d = 4" "tag_fits a (User h t, Some k)" "uses w = users (add_mset (User h t, Some k) A)"
  have ph: "phase v f (c\<lparr>started := 1, state := 1\<rparr>) x = phase v f c x" for x by (rule phase_cong) simp_all
  have k: "k = StartK \<or> k = JoinK \<or> (\<exists>i. k = DetachK i)" using d(5) by (cases k) auto
  have s: "state c \<in> {0, 2, 3}" "\<not> fails" "finished c \<in> {0, 1}"
    "pend (\<lambda>k. k = StartK) A = 0" "pend (\<lambda>k. k = JoinK) A = 0" "pend is_detach A = 0"
    using k d(1,2) c by (auto simp: thread_shape_def split: if_splits)
  then have n: "state c \<noteq> 4" "state c \<noteq> 5" by auto
  have sh: "thread_shape fails v f (exited w') (c\<lparr>started := 1, state := 1\<rparr>) (add_mset (User h t, None) A)"
    using d(1,2) c s(2-) n ph same(2) by (simp add: thread_shape_def)
  have bk: "thread_books fails v f R D (opt_mset (task c) + opt_mset (result c)) (calls w') (add_mset (User h t, None) A) (ps @ [(op, r)])"
    using d(1,3) c k log r by (auto simp: thread_books_def silent_def)
  show ?thesis
    by (rule thread_keep [OF inv log(1-3) m _ _ sh]) (use c d(1,4-6) s(1) bk r same in \<open>auto simp: silent_def\<close>)
qed

lemma start_end_inv:
  assumes inv: "thread_inv fails v f R D a B w (add_mset (User h t, Some StartK) A) ps"
    and run: "sync_thread_start_end os a w = Some (out, w')"
  shows "thread_inv fails v f R D a B w' (A + image_mset tag (settle (thread_monitor f a) HandleStart (User h t) out))
    (record_past HandleStart out ps)"
proof (rule thread_invD [OF inv])
  fix c
  assume m: "mem w a = Some c"
  have w': "out = Return (Started 0)" "calls w' = calls w @ [(MutexLock a, 0), (MutexUnlock a, 0)]"
    "mem w' a = Some (c\<lparr>started := 1, state := 1\<rparr>)" "uses w' = uses w" "exited w' = exited w"
    using run m by (auto simp: sync_thread_start_end_def thread_defs)
  show ?thesis using user_settles [OF inv m w'(2) _ _ _ _ w'(3-5), of HandleStart "Started 0"] w'(1) by (simp add: silent_def)
qed

text \<open>Giving up after a failure, in \<open>join\<close> or \<open>detach\<close>.\<close>

lemma rollback_inv:
  assumes inv: "thread_inv fails v f R D a B w (add_mset (User h t, Some k) A) ps" and k: "k = JoinK \<or> (\<exists>i. k = DetachK i)"
    and run: "thread_rollback os a r (w\<lparr>calls := calls w @ ks\<rparr>) = Some (out, w')"
    and ks: "\<And>r. balance r ks = 0" "mutex_run a False ks = Some False" "decrefs ks = []" "task_runs ks = []"
    and r: "silent (op, r)"
  shows "out = Return r \<and> thread_inv fails v f R D a B w' (add_mset (User h t, None) A) (ps @ [(op, r)])"
proof (rule thread_invD [OF inv])
  fix c
  assume m: "mem w a = Some c" and sh: "thread_shape fails v f (exited w) c (add_mset (User h t, Some k) A)"
  have "started c = 1" using sh k by (auto simp: thread_shape_def split: if_splits)
  then have st: "c\<lparr>started := 1, state := 1\<rparr> = c\<lparr>state := 1\<rparr>" by (cases c) simp
  have w': "out = Return r" "calls w' = calls w @ ks @ [(MutexLock a, 0), (MutexUnlock a, 0)]"
    "mem w' a = Some (c\<lparr>state := 1\<rparr>)" "uses w' = uses w" "exited w' = exited w"
    using run m by (auto simp: thread_rollback_def thread_defs)
  show ?thesis using user_settles [OF inv m w'(2) _ _ _ _ w'(3) [folded st] w'(4,5), of op r] w'(1) ks r
    by (simp add: mutex_run_append)
qed

lemma os_join_cases:
  assumes run: "os_join os a w = Some (st, w')"
  obtains "w' = w\<lparr>calls := calls w @ [(ThreadJoin a, st)]\<rparr>" "st = 0 \<longrightarrow> exited w"
  | "w' = w\<lparr>calls := calls w @ [(ThreadJoin a, 0), (ThreadDetach a, st)]\<rparr>" "exited w"
  using run by (auto simp: os_join_def os_call_def log_call_def Let_def split: if_splits)

text \<open>The join that succeeds: the result is delivered and the task released.\<close>

lemma joined_inv:
  assumes inv: "thread_inv fails v f R D a B w (add_mset (User h t, Some JoinK) A) ps" and c: "mem w a = Some c"
    and ex: "exited w" and log: "calls w' = calls w @ ks @ [(Decref v, 0)]" "\<And>r. balance r ks = 0"
      "mutex_run a False ks = Some False" "decrefs ks = []" "task_runs ks = []"
    and m: "mem w' a = Some (c\<lparr>result := None, task := None, state := 4\<rparr>)" and same: "uses w' = uses w" "exited w' = exited w"
  shows "thread_inv fails v f R D a B w' (add_mset (User h t, None) A) (ps @ [(HandleJoin, Joined (Some (f v)) 0)])"
proof (rule thread_invD [OF inv])
  fix d
  assume d: "mem w a = Some d" "thread_shape fails v f (exited w) d (add_mset (User h t, Some JoinK) A)"
    "thread_books fails v f R D (opt_mset (task d) + opt_mset (result d)) (calls w) (add_mset (User h t, Some JoinK) A) ps"
    "delivered ps = [f v] \<longleftrightarrow> state d = 4" "tag_fits a (User h t, Some JoinK)" "uses w = users (add_mset (User h t, Some JoinK) A)"
  have s: "state c = 2" "\<not> fails" using c d(1,2) by (auto simp: thread_shape_def split: if_splits)
  then have dl: "delivered ps = []" using d c by (auto simp: thread_books_def)
  have b: "bodies A = 0" using d(2) ex by (simp add: thread_shape_def)
  have q: "task c = Some v" "result c = Some (f v)" using d(1,2) c s ex by (auto simp: thread_shape_def)
  have sh: "thread_shape fails v f (exited w') (c\<lparr>result := None, task := None, state := 4\<rparr>) (add_mset (User h t, None) A)"
    using d(1,2) c s no_body_phase [OF b] ex same(2) b by (simp add: thread_shape_def)
  have bk: "thread_books fails v f R D {#} (calls w') (add_mset (User h t, None) A) (ps @ [(HandleJoin, Joined (Some (f v)) 0)])"
    using d(1,3) c q dl log s(2) by (simp add: thread_books_def ac_simps)
  show ?thesis
    by (rule thread_keep [OF inv log(1) _ _ m _ _ sh]) (use d(5,6) bk same dl log(2,3) in \<open>auto simp: mutex_run_append\<close>)
qed

lemma join_wait_inv:
  assumes inv: "thread_inv fails v f R D a B w (add_mset (User h t, Some JoinK) A) ps"
    and run: "sync_thread_join_wait os a w = Some (out, w')"
  shows "thread_inv fails v f R D a B w' (A + image_mset tag (settle (thread_monitor f a) HandleJoin (User h t) out))
    (record_past HandleJoin out ps)"
proof (rule thread_invD [OF inv])
  fix c
  assume m: "mem w a = Some c" and sh: "thread_shape fails v f (exited w) c (add_mset (User h t, Some JoinK) A)"
  obtain st w1 where j: "os_join os a w = Some (st, w1)" using run by (auto simp: sync_thread_join_wait_def bind_eq_Some_conv)
  obtain ks where ks: "w1 = w\<lparr>calls := calls w @ ks\<rparr>" "\<And>r. balance r ks = 0" "mutex_run a False ks = Some False"
    "decrefs ks = []" "task_runs ks = []" "st = 0 \<longrightarrow> exited w"
    by (rule os_join_cases [OF j]) auto
  show ?thesis
  proof (cases "st = 0")
    case False
    then have "thread_rollback os a (Joined None st) (w\<lparr>calls := calls w @ ks\<rparr>) = Some (out, w')"
      using run j ks(1) by (simp add: sync_thread_join_wait_def)
    from rollback_inv [OF inv _ this ks(2-5), of HandleJoin] show ?thesis using False by (simp add: silent_def)
  next
    case True
    then have ex: "exited w" using ks by simp
    then have q: "task c = Some v" "result c = Some (f v)" using sh by (auto simp: thread_shape_def split: if_splits)
    have w': "out = Return (Joined (Some (f v)) 0)" "mem w' a = Some (c\<lparr>result := None, task := None, state := 4\<rparr>)"
      "calls w' = calls w @ (ks @ [(MutexLock a, 0), (MutexUnlock a, 0)]) @ [(Decref v, 0)]" "uses w' = uses w" "exited w' = exited w"
      using run j True ks(1) m q
      by (auto simp: sync_thread_join_wait_def sync_thread_take_task_def decref_opt_def thread_defs)
    show ?thesis using joined_inv [OF inv m ex w'(3) _ _ _ _ w'(2,4,5)] ks w'(1) by (simp add: mutex_run_append)
  qed
qed

text \<open>The detach that succeeds releases the task if the thread is done with it.\<close>

subsection \<open>Detaching\<close>

lemma detached_inv:
  assumes inv: "thread_inv fails v f R D a B w (add_mset (User h t, Some (DetachK i)) A) ps" and c: "mem w a = Some c"
    and log: "calls w' = calls w @ ks" "\<And>r. balance r ks = 0" "mutex_run a False ks = Some False" "task_runs ks = []"
      "decrefs ks = (if finished c = 0 then [] else [v])"
    and m: "mem w' a = Some (c\<lparr>state := 5, task := if finished c = 0 then task c else None\<rparr>)"
    and same: "uses w' = uses w" "exited w' = exited w"
  shows "thread_inv fails v f R D a B w' (add_mset (User h t, None) A) (ps @ [(HandleDetach, Detached 0)])"
proof (rule thread_invD [OF inv])
  fix d
  assume d: "mem w a = Some d" "thread_shape fails v f (exited w) d (add_mset (User h t, Some (DetachK i)) A)"
    "thread_books fails v f R D (opt_mset (task d) + opt_mset (result d)) (calls w) (add_mset (User h t, Some (DetachK i)) A) ps"
    "delivered ps = [f v] \<longleftrightarrow> state d = 4" "tag_fits a (User h t, Some (DetachK i))"
    "uses w = users (add_mset (User h t, Some (DetachK i)) A)"
  let ?c = "c\<lparr>state := 5, task := if finished c = 0 then task c else None\<rparr>"
  have ph: "phase v f ?c x = phase v f c x" for x by (rule phase_cong) simp_all
  have s: "state c = 3" "\<not> fails" "task c = Some v" using c d(1,2) by (auto simp: thread_shape_def split: if_splits)
  have sh: "thread_shape fails v f (exited w') ?c (add_mset (User h t, None) A)"
    using d(1,2) c s ph same(2) by (auto simp: thread_shape_def)
  have bk: "thread_books fails v f R D (opt_mset (task ?c) + opt_mset (result ?c)) (calls w') (add_mset (User h t, None) A)
      (ps @ [(HandleDetach, Detached 0)])"
    using d(1,3) c s(2,3) log by (cases "finished c = 0") (auto simp: thread_books_def ac_simps)
  show ?thesis
    by (rule thread_keep [OF inv log(1-3) m _ _ sh bk]) (use c d(1,4-6) s(1) same in \<open>auto simp: \<close>)
qed

lemma detach_end_inv:
  assumes inv: "thread_inv fails v f R D a B w (add_mset (User h t, Some (DetachK i)) A) ps"
    and run: "sync_thread_detach_end os a i w = Some (out, w')"
  shows "thread_inv fails v f R D a B w' (A + image_mset tag (settle (thread_monitor f a) HandleDetach (User h t) out))
    (record_past HandleDetach out ps)"
proof (rule thread_invD [OF inv])
  fix c
  assume m: "mem w a = Some c" and sh: "thread_shape fails v f (exited w) c (add_mset (User h t, Some (DetachK i)) A)"
  have q: "task c = Some v" using sh by (auto simp: thread_shape_def split: if_splits)
  let ?st = "ret os (calls w) (ThreadDetach a)"
  consider "i \<noteq> 0" | "i = 0" "?st \<noteq> 0" | "i = 0" "?st = 0" by blast
  then show ?thesis
  proof cases
    case 1
    then have "thread_rollback os a (Detached i) (w\<lparr>calls := calls w @ []\<rparr>) = Some (out, w')"
      using run by (simp add: sync_thread_detach_end_def)
    from rollback_inv [OF inv _ this, of HandleDetach] show ?thesis by (simp add: silent_def)
  next
    case 2
    then have "thread_rollback os a (Detached ?st) (w\<lparr>calls := calls w @ [(ThreadDetach a, ?st)]\<rparr>) = Some (out, w')"
      using run by (simp add: sync_thread_detach_end_def os_call_def log_call_def Let_def)
    from rollback_inv [OF inv _ this, of HandleDetach] show ?thesis by (simp add: silent_def)
  next
    case 3
    let ?ks = "[(ThreadDetach a, 0), (MutexLock a, 0), (MutexUnlock a, 0)] @ (if finished c = 0 then [] else [(Decref v, 0)])"
    have w': "out = Return (Detached 0)" "mem w' a = Some (c\<lparr>state := 5, task := if finished c = 0 then task c else None\<rparr>)"
      "calls w' = calls w @ ?ks" "uses w' = uses w" "exited w' = exited w"
      using run 3 m q by (auto simp: sync_thread_detach_end_def sync_thread_take_task_def decref_opt_def thread_defs split: if_splits)
    show ?thesis using detached_inv [OF inv m w'(3) _ _ _ _ w'(2,4,5)] w'(1) by simp
  qed
qed

text \<open>The body of the thread goes on.\<close>

subsection \<open>The body\<close>

lemma body_goes_on:
  assumes inv: "thread_inv fails v f R D a B w (add_mset (Body b, Some k) A) ps" and c: "mem w a = Some c"
    and log: "calls w' = calls w @ ks" "\<And>r. balance r ks = 0" "mutex_run a False ks = Some False"
    and m: "mem w' a = Some c'" and same: "uses w' = uses w" "exited w' = exited w"
      "refs c' = refs c" "mutex_initialized c' = mutex_initialized c" "state c' = state c" "started c' = started c"
    and k': "tag_fits a (Body b, Some k')" and ph: "phase v f c' (Body b, Some k')"
    and tk: "task c' = (if state c \<in> {4, 6} \<or> state c = 5 \<and> finished c' = 1 then None else Some v)"
    and bk: "thread_books fails v f R D (opt_mset (task c') + opt_mset (result c')) (calls w') (add_mset (Body b, Some k') A) ps"
  shows "thread_inv fails v f R D a B w' (add_mset (Body b, Some k') A) ps"
proof (rule thread_invD [OF inv])
  fix d
  assume d: "mem w a = Some d" "thread_shape fails v f (exited w) d (add_mset (Body b, Some k) A)"
    "delivered ps = [f v] \<longleftrightarrow> state d = 4" "tag_fits a (Body b, Some k)" "uses w = users (add_mset (Body b, Some k) A)"
  have s: "\<not> fails" "\<not> exited w" "bodies A = 0" using d(2) by (auto simp: thread_shape_def split: if_splits)
  have kk: "\<not> is_detach k" "k \<noteq> StartK" "k \<noteq> JoinK" "\<not> is_detach k'" "k' \<noteq> StartK" "k' \<noteq> JoinK" using d(4) k' by (cases k; cases k'; simp)+
  have fin: "finished c' \<in> {0, 1}" using k' ph by (cases k') auto
  have sh: "thread_shape fails v f (exited w') c' (add_mset (Body b, Some k') A)"
    using d(1,2) c s kk same ph tk fin no_body_phase [OF s(3), of v f c'] unfolding thread_shape_def by simp blast
  show ?thesis
    by (rule thread_keep [OF inv log m _ k' sh bk]) (use c d(1,3,5) same in simp_all)
qed

lemma users_only:
  assumes "bodies A = 0" "\<forall>x \<in># A. tag_fits a x"
  shows "pend (\<lambda>k. k = CallK) A = 0" "carried A = {#}"
proof -
  have "pend (\<lambda>k. k = CallK) A = 0 \<and> carried A = {#}"
    using assms
  proof (induction A)
    case (add x A)
    then obtain h t k where "x = (User h t, k)" by (cases x; cases "fst x") (auto split: if_splits)
    with add show ?case by (auto split: option.splits thread_k.splits)
  qed simp
  then show "pend (\<lambda>k. k = CallK) A = 0" "carried A = {#}" by simp_all
qed

text \<open>What the invariant says while the body runs.\<close>

lemma body_facts:
  assumes inv: "thread_inv fails v f R D a B w (add_mset (Body b, Some k) A) ps"
  obtains c where "mem w a = Some c" "b = a" "\<not> fails" "\<not> exited w" "state c \<noteq> 4" "phase v f c (Body b, Some k)" "bodies A = 0"
    "refs c = of_nat ((if users A = 0 then 0 else 1) + 1)" "mutex_initialized c = 1" "users A = 0 \<longrightarrow> state c = 5"
    "task c = (if state c = 5 \<and> finished c = 1 then None else Some v)" "pend (\<lambda>k. k = CallK) A = 0" "carried A = {#}"
    "thread_books fails v f R D (opt_mset (task c) + opt_mset (result c)) (calls w) (add_mset (Body b, Some k) A) ps"
    "thread_shape fails v f (exited w) c (add_mset (Body b, Some k) A)"
proof (rule thread_invD [OF inv])
  fix c
  assume c: "mem w a = Some c" "thread_shape fails v f (exited w) c (add_mset (Body b, Some k) A)"
    "thread_books fails v f R D (opt_mset (task c) + opt_mset (result c)) (calls w) (add_mset (Body b, Some k) A) ps"
    "tag_fits a (Body b, Some k)" "\<forall>y \<in># A. tag_fits a y"
  have b0: "bodies A = 0" "\<not> fails" "\<not> exited w" using c(2) by (auto simp: thread_shape_def split: if_splits)
  have s: "state c \<noteq> 4" "state c \<noteq> 6" "users A = 0 \<longrightarrow> state c = 5" using c(2) b0 by (auto simp: thread_shape_def)
  show thesis
    by (rule that [OF c(1) _ b0(2,3) s(1) _ b0(1) _ _ s(3) _ users_only [OF b0(1) c(5)] c(3,2)])
      (use c(2,4) s b0 in \<open>simp_all add: thread_shape_def\<close>)
qed

lemma body_call_inv:
  assumes inv: "thread_inv fails v f R D a B w (add_mset (Body b, Some CallK) A) ps"
    and run: "sync_thread_main_call f a w = Some (out, w')"
  shows "thread_inv fails v f R D a B w' (A + image_mset tag (settle (thread_monitor f a) BodyRun (Body b) out))
    (record_past BodyRun out ps)"
proof (rule body_facts [OF inv])
  fix c
  assume c: "mem w a = Some c" "b = a" "\<not> fails" "phase v f c (Body b, Some CallK)" "state c \<noteq> 4"
    "task c = (if state c = 5 \<and> finished c = 1 then None else Some v)" "pend (\<lambda>k. k = CallK) A = 0"
    "thread_books fails v f R D (opt_mset (task c) + opt_mset (result c)) (calls w) (add_mset (Body b, Some CallK) A) ps"
    "thread_shape fails v f (exited w) c (add_mset (Body b, Some CallK) A)"
  have t: "task c = Some v" using c(4,6) by simp
  then have w': "out = Again (CompleteK (f v))" "w' = w\<lparr>calls := calls w @ [(RunClosure v, 0)]\<rparr>"
    using run c(1) by (auto simp: sync_thread_main_call_def log_call_def)
  have s6: "state c \<noteq> 6" using c(3,9) by (simp add: thread_shape_def)
  have bk: "thread_books fails v f R D (opt_mset (task c) + opt_mset (result c)) (calls w')
      (add_mset (Body b, Some (CompleteK (f v))) A) ps"
    using c(3,7,8) w'(2) by (simp add: thread_books_def)
  have "thread_inv fails v f R D a B w' (add_mset (Body b, Some (CompleteK (f v))) A) ps"
    by (rule body_goes_on [OF inv c(1), of w' "[(RunClosure v, 0)]" c, OF _ _ _ _ _ _ _ _ _ _ _ _ _ bk])
      (use w'(2) c t s6 in simp_all)
  then show ?thesis using w'(1) by simp
qed

lemma body_complete_inv:
  assumes inv: "thread_inv fails v f R D a B w (add_mset (Body b, Some (CompleteK r)) A) ps"
    and run: "sync_thread_main_complete os a r w = Some (out, w')"
  shows "thread_inv fails v f R D a B w' (A + image_mset tag (settle (thread_monitor f a) BodyRun (Body b) out))
    (record_past BodyRun out ps)"
proof (rule body_facts [OF inv])
  fix c
  assume c: "mem w a = Some c" "b = a" "\<not> fails" "phase v f c (Body b, Some (CompleteK r))" "state c \<noteq> 4"
    "task c = (if state c = 5 \<and> finished c = 1 then None else Some v)" "pend (\<lambda>k. k = CallK) A = 0"
    "thread_books fails v f R D (opt_mset (task c) + opt_mset (result c)) (calls w) (add_mset (Body b, Some (CompleteK r)) A) ps"
    "thread_shape fails v f (exited w) c (add_mset (Body b, Some (CompleteK r)) A)"
  let ?c = "c\<lparr>result := Some r\<rparr>"
  have s6: "state c \<noteq> 6" using c(3,9) by (simp add: thread_shape_def)
  have r: "result c = None" "r = f v" using c(4) by simp_all
  then have w': "out = Again EndK" "calls w' = calls w @ [(MutexLock a, 0), (MutexUnlock a, 0)]" "mem w' a = Some ?c"
    "uses w' = uses w" "exited w' = exited w"
    using run c(1) by (auto simp: sync_thread_main_complete_def sync_thread_complete_def thread_defs)
  have bk: "thread_books fails v f R D (opt_mset (task ?c) + opt_mset (result ?c)) (calls w') (add_mset (Body b, Some EndK) A) ps"
    using c(3,7,8) w'(2) r by (simp add: thread_books_def)
  have "thread_inv fails v f R D a B w' (add_mset (Body b, Some EndK) A) ps"
    by (rule body_goes_on [OF inv c(1) w'(2) _ _ w'(3-5) _ _ _ _ _ _ _ bk]) (use c s6 r in simp_all)
  then show ?thesis using w'(1) by simp
qed

lemma body_end_inv:
  assumes inv: "thread_inv fails v f R D a B w (add_mset (Body b, Some EndK) A) ps"
    and run: "sync_thread_main_end os a w = Some (out, w')"
  shows "thread_inv fails v f R D a B w' (A + image_mset tag (settle (thread_monitor f a) BodyRun (Body b) out))
    (record_past BodyRun out ps)"
proof (rule body_facts [OF inv])
  fix c
  assume c: "mem w a = Some c" "b = a" "\<not> fails" "phase v f c (Body b, Some EndK)" "state c \<noteq> 4"
    "task c = (if state c = 5 \<and> finished c = 1 then None else Some v)" "pend (\<lambda>k. k = CallK) A = 0"
    "thread_books fails v f R D (opt_mset (task c) + opt_mset (result c)) (calls w) (add_mset (Body b, Some EndK) A) ps"
    "thread_shape fails v f (exited w) c (add_mset (Body b, Some EndK) A)"
  let ?d = "state c = 5"
  let ?c = "c\<lparr>finished := 1, task := if ?d then None else Some v\<rparr>"
  let ?k = "LeaveK (if ?d then Some v else None)"
  have s6: "state c \<noteq> 6" using c(3,9) by (simp add: thread_shape_def)
  have t: "task c = Some v" "result c = Some (f v)" using c(4,6) by simp_all
  then have e: "c\<lparr>finished := 1\<rparr> = c\<lparr>finished := 1, task := Some v\<rparr>" by (cases c) simp
  have w': "out = Again ?k" "calls w' = calls w @ [(MutexLock a, 0), (MutexUnlock a, 0)]" "mem w' a = Some ?c"
    "uses w' = uses w" "exited w' = exited w"
    using run c(1) t e
    by (cases ?d; auto simp: sync_thread_main_end_def sync_thread_take_task_def thread_defs)+
  have bk: "thread_books fails v f R D (opt_mset (task ?c) + opt_mset (result ?c)) (calls w') (add_mset (Body b, Some ?k) A) ps"
    using c(3,7,8) w'(2) t by (cases ?d) (auto simp: thread_books_def ac_simps)
  have "thread_inv fails v f R D a B w' (add_mset (Body b, Some ?k) A) ps"
    by (rule body_goes_on [OF inv c(1) w'(2) _ _ w'(3-5) _ _ _ _ _ _ _ bk]) (use c s6 t in simp_all)
  then show ?thesis using w'(1) by simp
qed

subsection \<open>Leaving\<close>

lemma word_not_zero [simp]: "(2 :: 32 word) - 1 = 1" "(2 :: 32 word) - 1 \<noteq> 0"
  by simp_all

lemma thread_release_last:
  assumes "sync_thread_core_release os a w = Some w'" "mem w a = Some c" "refs c = 1" "mutex_initialized c = 1"
    "task c = None"
  shows "calls w' = calls w @ map (\<lambda>v. (Decref v, 0)) (case result c of None \<Rightarrow> [] | Some r \<Rightarrow> [r]) @ [(MutexDestroy a, 0), (Free CoreBlock, 0)]"
    "mem w' a = None" "uses w' = uses w"
  using assms by (auto simp: sync_thread_core_release_def decref_opt_def thread_defs split: option.splits)

lemma thread_release_other:
  assumes "sync_thread_core_release os a w = Some w'" "mem w a = Some c" "refs c = 2"
  shows "calls w' = calls w" "mem w' a = Some (c\<lparr>refs := 1\<rparr>)" "uses w' = uses w" "exited w' = exited w"
  using assms by (auto simp: sync_thread_core_release_def thread_defs)

text \<open>The last agent has gone, and the core with it.\<close>

lemma thread_gone:
  assumes inv: "thread_inv fails v f R D a B w (add_mset x {#}) ps"
    and log: "calls w' = calls w @ ks @ [(MutexDestroy a, 0), (Free CoreBlock, 0)]" "\<And>r. balance r ks = 0"
      "mutex_run a False ks = Some False" "task_runs ks = []"
    and gone: "mem w' a = None" "uses w' = 0" and nc: "snd x \<noteq> Some CallK" and c: "mem w a = Some c"
    and q: "mset (decrefs ks) = opt_mset (task c) + opt_mset (result c) + carries x" and r: "silent r"
  shows "thread_inv fails v f R D a B w' {#} (ps @ [r])"
proof (rule thread_invD [OF inv])
  fix d
  assume d: "mem w a = Some d" "mutex_state a w = Some False" "\<And>r. balance r (calls w) = B r + owning (thread_resources a) r"
    "thread_books fails v f R D (opt_mset (task d) + opt_mset (result d)) (calls w) {#x#} ps"
  have cx: "(case snd x of None \<Rightarrow> 0 | Some k \<Rightarrow> if k = CallK then 1 else 0) = (0 :: nat)" using nc by (auto split: option.splits)
  have bk: "thread_books fails v f R D {#} (calls w') {#} (ps @ [r])"
    using d(1,4) c q r log(1,4) cx by (auto simp: thread_books_def silent_def ac_simps)
  have "mutex_state a w' = Some False" using d(2) log by (simp add: mutex_state_def mutex_run_append)
  moreover have "balance r (calls w') = B r" for r using d(3) log by (auto simp: thread_resources_def)
  ultimately show ?thesis using bk gone by (simp add: thread_inv_def)
qed

text \<open>An agent has gone and others use the core.\<close>

lemma thread_drop:
  assumes inv: "thread_inv fails v f R D a B w (add_mset x A) ps" and A: "A \<noteq> {#}"
    and log: "calls w' = calls w @ ks" "\<And>r. balance r ks = 0" "mutex_run a False ks = Some False" "task_runs ks = []"
    and c: "mem w a = Some c" "mem w' a = Some (c\<lparr>refs := rc\<rparr>)" and u: "uses w' = users A"
    and nc: "snd x \<noteq> Some CallK" and q: "mset (decrefs ks) = carries x" and r: "silent r"
    and sh: "thread_shape fails v f (exited w') (c\<lparr>refs := rc\<rparr>) A"
  shows "thread_inv fails v f R D a B w' A (ps @ [r])"
proof (rule thread_invD [OF inv])
  fix d
  assume d: "mem w a = Some d" "mutex_state a w = Some False" "\<And>r. balance r (calls w) = B r + owning (thread_resources a) r"
    "thread_books fails v f R D (opt_mset (task d) + opt_mset (result d)) (calls w) (add_mset x A) ps"
    "delivered ps = [f v] \<longleftrightarrow> state d = 4" "\<forall>y \<in># A. tag_fits a y"
  have cx: "(case snd x of None \<Rightarrow> 0 | Some k \<Rightarrow> if k = CallK then 1 else 0) = (0 :: nat)" using nc by (auto split: option.splits)
  have bk: "thread_books fails v f R D (opt_mset (task c) + opt_mset (result c)) (calls w') A (ps @ [r])"
    using d(1,4) c(1) q r log(1,4) cx by (auto simp: thread_books_def silent_def ac_simps)
  have "mutex_state a w' = Some False" using d(2) log by (simp add: mutex_state_def mutex_run_append)
  moreover have "balance r (calls w') = B r + owning (thread_resources a) r" for r using d(3) log by simp
  ultimately show ?thesis using bk u A c d(1,5,6) r sh by (auto simp: thread_inv_def silent_def)
qed

lemma body_leave_inv:
  assumes inv: "thread_inv fails v f R D a B w (add_mset (Body b, Some (LeaveK t)) A) ps"
    and run: "sync_thread_main_leave os a t w = Some (out, w')"
  shows "thread_inv fails v f R D a B w' (A + image_mset tag (settle (thread_monitor f a) BodyRun (Body b) out))
    (record_past BodyRun out ps)"
proof (rule body_facts [OF inv])
  fix c
  assume c: "mem w a = Some c" "\<not> fails" "\<not> exited w" "phase v f c (Body b, Some (LeaveK t))" "state c \<noteq> 4" "bodies A = 0"
    "refs c = of_nat ((if users A = 0 then 0 else 1) + 1)" "mutex_initialized c = 1" "users A = 0 \<longrightarrow> state c = 5"
    "task c = (if state c = 5 \<and> finished c = 1 then None else Some v)"
    "thread_shape fails v f (exited w) c (add_mset (Body b, Some (LeaveK t)) A)"
  have u: "uses w = users A" by (rule thread_invD [OF inv]) simp
  let ?ts = "map (\<lambda>v. (Decref v, 0)) (case t of None \<Rightarrow> [] | Some v \<Rightarrow> [v])"
  let ?w = "decref_opt t w"
  have w: "calls ?w = calls w @ ?ts" "mem ?w a = Some c" "uses ?w = uses w" "exited ?w = exited w"
    using c(1) by (auto simp: decref_opt_def os_defs split: option.splits)
  obtain w1 where rel: "sync_thread_core_release os a ?w = Some w1" and w': "w' = w1\<lparr>exited := True\<rparr>" "out = Return BodyDone"
    using run by (auto simp: sync_thread_main_leave_def bind_eq_Some_conv)
  have fr: "finished c = 1" "result c = Some (f v)" using c(4) by simp_all
  have ts: "mset (decrefs ?ts) = opt_mset t" by (cases t) simp_all
  show ?thesis
  proof (cases "users A = 0")
    case True
    then have A: "A = {#}" using c(6) no_agents by blast
    have q: "refs c = 1" "task c = None" using c(7,9,10) True fr by simp_all
    note l = thread_release_last [OF rel w(2) q(1) c(8) q(2)]
    have "thread_inv fails v f R D a B w' {#} (ps @ [(BodyRun, BodyDone)])"
      by (rule thread_gone [OF inv [unfolded A], of w' "?ts @ [(Decref (f v), 0)]", OF _ _ _ _ _ _ _ c(1)])
        (use l w w' u q fr ts True in \<open>auto simp: mutex_run_append silent_def split: option.splits\<close>)
    then show ?thesis using A w'(2) by simp
  next
    case False
    then have q: "refs c = 2" "A \<noteq> {#}" using c(7) by auto
    note l = thread_release_other [OF rel w(2) q(1)]
    have sh: "thread_shape fails v f True (c\<lparr>refs := 1\<rparr>) A"
      using c(2,3,5,6,11) False fr no_body_phase [OF c(6), of v f "c\<lparr>refs := 1\<rparr>"] by (simp add: thread_shape_def) blast
    have "thread_inv fails v f R D a B w' A (ps @ [(BodyRun, BodyDone)])"
      by (rule thread_drop [OF inv q(2), of w' ?ts, OF _ _ _ _ c(1)])
        (use l w w' u ts sh in \<open>auto simp: silent_def split: option.splits\<close>)
    then show ?thesis using w'(2) by simp
  qed
qed

subsection \<open>Dropping the handle\<close>

lemma finalize_cases:
  assumes run: "sync_thread_finalize os h w = Some w'" and a: "core h = Some a" and m: "mem w a = Some c"
  shows "state c \<in> {4, 5, 6}"
    "sync_thread_core_release os a (w\<lparr>calls := calls w @ [(MutexLock a, 0), (MutexUnlock a, 0)]\<rparr>) = Some w'"
  using run a m by (auto simp: sync_thread_finalize_def terminal_def thread_defs split: if_splits)

lemma last_user_inv:
  assumes inv: "thread_inv fails v f R D a B w (add_mset (User h t, None) A) ps" and u0: "users A = 0"
    and run: "sync_thread_finalize os h (w\<lparr>uses := 0\<rparr>) = Some w'"
  shows "thread_inv fails v f R D a B w' A (ps @ [(HandleDrop, HandleDropped)])"
proof (rule thread_invD [OF inv])
  fix c
  assume c: "mem w a = Some c" "thread_shape fails v f (exited w) c (add_mset (User h t, None) A)" "tag_fits a (User h t, None)"
  let ?l = "[(MutexLock a, 0), (MutexUnlock a, 0)]"
  let ?w = "w\<lparr>uses := 0, calls := calls w @ ?l\<rparr>"
  have fin: "state c \<in> {4, 5, 6}" "sync_thread_core_release os a ?w = Some w'"
    using finalize_cases [OF run, of a c] c(1,3) by simp_all
  have q: "refs c = of_nat (1 + bodies A)" "mutex_initialized c = 1" "bodies A = (if exited w \<or> fails then 0 else 1)"
    "fails = (state c = 6)" "state c = 4 \<longrightarrow> exited w" "exited w \<longrightarrow> \<not> fails \<longrightarrow> finished c = 1"
    "task c = (if state c \<in> {4, 6} \<or> state c = 5 \<and> finished c = 1 then None else Some v)"
    using c(2) by (simp_all add: thread_shape_def)
  have m: "mem ?w a = Some c" using c(1) by simp
  show ?thesis
  proof (cases "exited w \<or> fails")
    case True
    then have A: "A = {#}" using q(3) u0 no_agents by simp
    have q2: "refs c = 1" "task c = None" using q True fin(1) by auto
    note l = thread_release_last [OF fin(2) m q2(1) q(2) q2(2)]
    show ?thesis unfolding A
      by (rule thread_gone [OF inv [unfolded A], of w' "?l @ map (\<lambda>v. (Decref v, 0)) (case result c of None \<Rightarrow> [] | Some r \<Rightarrow> [r])",
            OF _ _ _ _ _ _ _ c(1)])
        (use l q2 in \<open>auto simp: silent_def split: option.splits\<close>)
  next
    case False
    then have q2: "refs c = 2" "A \<noteq> {#}" "state c = 5" using q fin(1) by auto
    note l = thread_release_other [OF fin(2) m q2(1)]
    have ph: "phase v f (c\<lparr>refs := 1\<rparr>) x = phase v f c x" for x by (rule phase_cong) simp_all
    have sh: "thread_shape fails v f (exited w) (c\<lparr>refs := 1\<rparr>) A"
      using c(2) u0 q2(3) False ph by (simp add: thread_shape_def)
    show ?thesis
      by (rule thread_drop [OF inv q2(2), of w' ?l, OF _ _ _ _ c(1)]) (use l u0 sh in \<open>auto simp: silent_def\<close>)
  qed
qed

lemma drop_inv:
  assumes inv: "thread_inv fails v f R D a B w (add_mset (User h t, None) A) ps"
    and run: "handle_drop os h w = Some w'"
  shows "thread_inv fails v f R D a B w' A (ps @ [(HandleDrop, HandleDropped)])"
proof (rule thread_invD [OF inv])
  fix c
  assume c: "mem w a = Some c" "thread_shape fails v f (exited w) c (add_mset (User h t, None) A)"
    "uses w = users (add_mset (User h t, None) A)"
  show ?thesis
  proof (cases "users A = 0")
    case True
    then show ?thesis using run c(3) last_user_inv [OF inv True] by (simp add: handle_drop_def)
  next
    case False
    then have w': "w' = w\<lparr>uses := users A\<rparr>" "A \<noteq> {#}" using run c(3) by (auto simp: handle_drop_def)
    have e: "c\<lparr>refs := refs c\<rparr> = c" by simp
    have sh: "thread_shape fails v f (exited w) c A" using c(2) False by (simp add: thread_shape_def)
    show ?thesis
      by (rule thread_drop [OF inv w'(2), of w' "[]" c "refs c"]) (use w' c(1) sh in \<open>simp_all add: e silent_def\<close>)
  qed
qed

lemma clone_inv:
  assumes inv: "thread_inv fails v f R D a B w (add_mset (User h t, None) A) ps"
  shows "thread_inv fails v f R D a B (w\<lparr>uses := Suc (uses w)\<rparr>) (add_mset (User h t', None) (add_mset (User h t, None) A))
    (ps @ [(HandleClone t', Cloned (User h t'))])"
proof (rule thread_invD [OF inv])
  fix c
  assume c: "mem w a = Some c" "thread_shape fails v f (exited w) c (add_mset (User h t, None) A)"
    "thread_books fails v f R D (opt_mset (task c) + opt_mset (result c)) (calls w) (add_mset (User h t, None) A) ps"
  have sh: "thread_shape fails v f (exited w) c (add_mset (User h t', None) (add_mset (User h t, None) A))"
    using c(2) by (simp add: thread_shape_def)
  have bk: "thread_books fails v f R D (opt_mset (task c) + opt_mset (result c)) (calls w)
      (add_mset (User h t', None) (add_mset (User h t, None) A)) (ps @ [(HandleClone t', Cloned (User h t'))])"
    using c(3) by (simp add: thread_books_def)
  show ?thesis using inv c(1) sh bk by (auto simp: thread_inv_def mutex_state_def)
qed

lemma is_finished_inv:
  assumes inv: "thread_inv fails v f R D a B w (add_mset (User h t, None) A) ps"
    and run: "sync_thread_is_finished os h w = Some ((r, st), w')"
  shows "thread_inv fails v f R D a B w' (add_mset (User h t, None) A) (ps @ [(HandleIsFinished, IsFinished r st)])"
proof (rule thread_invD [OF inv])
  fix c
  assume c: "mem w a = Some c" "tag_fits a (User h t, None)"
  then have a: "core h = Some a" by simp
  consider st1 where "w' = w\<lparr>calls := calls w @ [(MutexLock a, st1)]\<rparr>" "st1 \<noteq> 0"
    | st1 where "w' = w\<lparr>calls := calls w @ [(MutexLock a, 0), (MutexUnlock a, st1)]\<rparr>"
    using run a c(1) by (auto simp: sync_thread_is_finished_def os_defs split: if_splits)
  then show ?thesis
  proof cases
    case (1 st1)
    then show ?thesis by (intro thread_quiet [OF inv, of w' "[(MutexLock a, st1)]"]) (auto simp: silent_def)
  next
    case (2 st1)
    then show ?thesis by (intro thread_quiet [OF inv, of w' "[(MutexLock a, 0), (MutexUnlock a, st1)]"]) (auto simp: silent_def)
  qed
qed

subsection \<open>The thread is a monitor\<close>

lemma thread_monitor_simps [simp]:
  "site (thread_monitor f a) = a" "may (thread_monitor f a) = thread_may" "enter (thread_monitor f a) = thread_enter"
  "resume (thread_monitor f a) = thread_resume f" "pending (thread_monitor f a) = thread_pending"
  by (simp_all add: thread_monitor_def)

lemma thread_enter_inv:
  assumes inv: "thread_inv fails v f R D a B w (add_mset (x, None) A) ps" and may: "thread_may op x"
    and run: "thread_enter os op x w = Some (out, w')"
  shows "thread_inv fails v f R D a B w' (A + image_mset tag (settle (thread_monitor f a) op x out)) (record_past op out ps)"
proof -
  obtain h t where x: "x = (User h t)" using may by (cases x; cases op) auto
  note inv = inv [unfolded x] and run = run [unfolded x]
  show ?thesis unfolding x
  proof (cases op)
    case (HandleClone t')
    then show "thread_inv fails v f R D a B w' (A + image_mset tag (settle (thread_monitor f a) op (User h t) out)) (record_past op out ps)"
      using run clone_inv [OF inv, of t'] by (auto simp: handle_clone_def add_mset_commute)
  next
    case HandleJoin
    then show "thread_inv fails v f R D a B w' (A + image_mset tag (settle (thread_monitor f a) op (User h t) out)) (record_past op out ps)"
      using run join_inv [OF inv] by (simp add: sync_current_thread_id_def)
  next
    case HandleDetach
    then show "thread_inv fails v f R D a B w' (A + image_mset tag (settle (thread_monitor f a) op (User h t) out)) (record_past op out ps)"
      using run detach_inv [OF inv] by simp
  next
    case HandleIsFinished
    then show "thread_inv fails v f R D a B w' (A + image_mset tag (settle (thread_monitor f a) op (User h t) out)) (record_past op out ps)"
      using run is_finished_inv [OF inv] by auto
  next
    case HandleId
    then show "thread_inv fails v f R D a B w' (A + image_mset tag (settle (thread_monitor f a) op (User h t) out)) (record_past op out ps)"
      using run thread_quiet [OF inv, of w "[]" HandleId] by (auto simp: silent_def)
  next
    case HandleDrop
    then show "thread_inv fails v f R D a B w' (A + image_mset tag (settle (thread_monitor f a) op (User h t) out)) (record_past op out ps)"
      using run drop_inv [OF inv] by auto
  qed (use may in simp_all)
qed

lemma thread_resume_inv:
  assumes inv: "thread_inv fails v f R D a B w (add_mset (x, Some k) A) ps"
    and run: "thread_resume f os k x w = Some (out, w')"
  shows "thread_inv fails v f R D a B w' (A + image_mset tag (settle (thread_monitor f a) (thread_pending k) x out))
    (record_past (thread_pending k) out ps)"
proof -
  have fits: "tag_fits a (x, Some k)" by (rule thread_invD [OF inv])
  then have s: "thread_site x = Some a" by (cases x) auto
  show ?thesis
  proof (cases x)
    case (User h t)
    note fits = fits [unfolded User] and inv = inv [unfolded User]
    show ?thesis using fits run s User start_end_inv join_wait_inv detach_end_inv inv
      by (cases k) (auto simp: thread_resume_def)
  next
    case (Body b)
    note fits = fits [unfolded Body] and inv = inv [unfolded Body]
    show ?thesis using fits run s Body body_call_inv body_complete_inv body_end_inv body_leave_inv inv
      by (cases k) (auto simp: thread_resume_def)
  qed
qed

interpretation thread: monitor_keeps P "thread_monitor f a" "thread_inv fails v f R D a B" for P fails v f R D a B
  by unfold_locales (auto intro: thread_enter_inv thread_resume_inv)

end
