(* ===== verification/Sync_Thread_Correct.thy ===== *)
theory Sync_Thread_Correct
  imports Sync_Thread_Invariant
begin

text \<open>
  Correctness of threads: results, the state machine, lifetimes, and the abort of a handle
  that is dropped too early.
\<close>

section \<open>Specification\<close>

text \<open>The agents with what they have to do.\<close>

definition thread_tags :: "('v, 'z, thread_op, thread_agent, 'v thread_k, 'v thread_ret) config \<Rightarrow> 'v thread_tag multiset" where
  "thread_tags t = image_mset tag (agents t)"

text \<open>The moves of the state machine.\<close>

definition thread_edges :: "(int \<times> int) set" where
  "thread_edges = {(SYNC_THREAD_CREATED, SYNC_THREAD_JOINABLE),
     (SYNC_THREAD_JOINABLE, SYNC_THREAD_JOINING), (SYNC_THREAD_JOINABLE, SYNC_THREAD_DETACHING),
     (SYNC_THREAD_JOINING, SYNC_THREAD_JOINED), (SYNC_THREAD_JOINING, SYNC_THREAD_JOINABLE),
     (SYNC_THREAD_DETACHING, SYNC_THREAD_DETACHED), (SYNC_THREAD_DETACHING, SYNC_THREAD_JOINABLE)}"

text \<open>How much the body has still to do.\<close>

fun body_stage :: "'v thread_k \<Rightarrow> nat" where
  "body_stage CallK = 4"
| "body_stage (CompleteK r) = 3"
| "body_stage EndK = 2"
| "body_stage (LeaveK t) = 1"
| "body_stage _ = 0"

fun stage_left :: "('v thread_ret, 'v thread_k) outcome \<Rightarrow> nat" where
  "stage_left (Again k) = body_stage k"
| "stage_left _ = 0"

text \<open>Concrete runs.\<close>

definition thread_empty_world :: "nat thread_world" where
  "thread_empty_world = \<lparr>calls = [], mem = Map.empty, fresh = 0, next_start_error = 0, next_join_error = 0,
     next_detach_error = 0, uses = 0, exited = False\<rparr>"

definition thread_demo ::
  "thread_op choice list \<Rightarrow>
   (nat thread_world \<times> (thread_agent \<times> nat thread_k mode) list \<times> (thread_op \<times> nat thread_ret) list) option" where
  "thread_demo xs = do {
     s \<leftarrow> spawn_raw quiet_os 1 7 2 thread_empty_world;
     exec (thread_monitor Suc 0) quiet_os xs
       (wrld s, [(User (sync_thread_wrap 0) 1, Runnable StartK), (Body 0, Runnable CallK)], []) }"

definition thread_join_run :: "thread_op choice list" where
  "thread_join_run = [Resume 0, Call HandleJoin 1, Resume 0, Resume 1, Resume 1, Resume 1, Resume 0]"

section \<open>Lemmas\<close>

subsection \<open>The first state\<close>

lemma spawn_cases:
  assumes "spawn_raw os self v t w = Some s"
  obtains ks where "agents s = {#(User (sync_thread_wrap (fresh w)) self, Runnable StartK), (Body (fresh w), Runnable CallK)#}"
    "past s = []" "uses (wrld s) = 1" "\<not> exited (wrld s)"
    "mem (wrld s) (fresh w) = Some \<lparr>refs = 2, mutex_initialized = 1, thread = Some t, task = Some v, result = None,
      id_bits = t, started = 0, finished = 0, state = 0\<rparr>"
    "calls (wrld s) = calls w @ [(Calloc CoreBlock, 0), (MutexInit (fresh w), 0)] @ ks"
    "ks = [(ThreadCreate (fresh w), 0)]"
  | ks st where "agents s = {#(User (sync_thread_wrap (fresh w)) self, Ready)#}" "past s = [(HandleStart, Started st)]" "st \<noteq> 0"
    "uses (wrld s) = 1" "\<not> exited (wrld s)"
    "mem (wrld s) (fresh w) = Some \<lparr>refs = 1, mutex_initialized = 1, thread = None, task = None, result = None,
      id_bits = 0, started = 0, finished = 0, state = 6\<rparr>"
    "calls (wrld s) = calls w @ [(Calloc CoreBlock, 0), (MutexInit (fresh w), 0)] @ ks"
    "ks = [(Decref v, 0), (MutexLock (fresh w), 0), (MutexUnlock (fresh w), 0)] \<or>
     ks = [(ThreadCreate (fresh w), st), (Decref v, 0), (MutexLock (fresh w), 0), (MutexUnlock (fresh w), 0)]"
  using assms
  by (auto simp: spawn_raw_def sync_thread_new_def sync_thread_wrap_def sync_thread_state_def sync_thread_start_def
      sync_thread_start_fail_def sync_thread_core_release_def thread_defs bind_eq_Some_conv record_past_def split: if_splits)

lemma spawn_inv:
  assumes boot: "spawn_raw os self v t w = Some s" and free: "mutex_state (fresh w) w = Some False"
  shows "\<exists>fails. thread_inv fails v f (mset (task_runs (calls w))) (mset (decrefs (calls w))) (fresh w) (\<lambda>r. balance r (calls w))
    (wrld s) (thread_tags s) (past s) \<and> (fails \<longleftrightarrow> (\<exists>st. (HandleStart, Started st) \<in> set (past s)))"
proof (rule spawn_cases [OF boot], goal_cases)
  case (1 ks)
  show ?case
    by (rule exI [of _ False])
      (use 1 free in \<open>simp add: thread_inv_def thread_tags_def thread_shape_def thread_books_def thread_resources_def
        sync_thread_wrap_def mutex_state_def mutex_run_append\<close>)
next
  case (2 ks st)
  show ?case
    by (rule exI [of _ True])
      (use 2 free in \<open>auto simp: thread_inv_def thread_tags_def thread_shape_def thread_books_def thread_resources_def
        sync_thread_wrap_def mutex_state_def mutex_run_append delivered_def\<close>)
qed

subsection \<open>Reachable states\<close>

lemma thread_reach:
  assumes boot: "spawn_raw os self v i w = Some s" and free: "mutex_state (fresh w) w = Some False"
    and run: "reach P (thread_monitor f (fresh w)) s t"
  shows "\<exists>fails. thread_inv fails v f (mset (task_runs (calls w))) (mset (decrefs (calls w))) (fresh w) (\<lambda>r. balance r (calls w))
    (wrld t) (thread_tags t) (past t)"
proof -
  obtain fails where "thread.good fails v f (mset (task_runs (calls w))) (mset (decrefs (calls w))) (fresh w) (\<lambda>r. balance r (calls w)) s"
    using spawn_inv [OF boot free, of f] by (auto simp: thread.good_def thread_tags_def)
  from thread.reach_good [OF run this] show ?thesis by (auto simp: thread.good_def thread_tags_def)
qed

lemma thread_inv_books:
  assumes "thread_inv fails v f R D a B w A ps"
  shows "\<exists>Q. thread_books fails v f R D Q (calls w) A ps"
    "delivered ps = [f v] \<Longrightarrow> bodies A = 0"
proof -
  show "\<exists>Q. thread_books fails v f R D Q (calls w) A ps" using assms by (cases "A = {#}") (auto simp: thread_inv_def)
  show "bodies A = 0" if d: "delivered ps = [f v]"
  proof (cases "A = {#}")
    case False
    then obtain c where "thread_shape fails v f (exited w) c A" "state c = 4" using assms d by (auto simp: thread_inv_def)
    then show ?thesis by (simp add: thread_shape_def)
  qed simp
qed

subsection \<open>Progress\<close>

lemma body_exists: "0 < bodies A \<Longrightarrow> \<exists>x. x \<in># A \<and> \<not> is_user x"
  by (induction A) (auto split: if_splits)

lemma body_steps:
  assumes inv: "thread_inv fails v f R D a B w (add_mset (Body b, Some k) A) ps" and ok: "os_ok os"
  shows "\<exists>out w'. thread_resume f os k (Body b) w = Some (out, w') \<and> stage_left out < body_stage k"
proof (rule body_facts [OF inv])
  fix c
  assume c: "mem w a = Some c" "b = a" "phase v f c (Body b, Some k)" "mutex_initialized c = 1"
    "task c = (if state c = 5 \<and> finished c = 1 then None else Some v)"
  have fits: "tag_fits a (Body b, Some k)" by (rule thread_invD [OF inv])
  show ?thesis
  proof (cases k)
    case (LeaveK t)
    have "mem (decref_opt t w) a = Some c" using c(1) by (cases t) (simp_all add: decref_opt_def os_defs)
    then show ?thesis using LeaveK c(2) ok
      by (auto simp: thread_resume_def sync_thread_main_leave_def sync_thread_core_release_def thread_defs
          decref_opt_def split: option.splits)
  qed (use c ok fits in \<open>auto simp: thread_resume_def sync_thread_main_call_def sync_thread_main_complete_def sync_thread_complete_def
      sync_thread_main_end_def sync_thread_take_task_def thread_defs\<close>)
qed

subsection \<open>Moves of the state machine\<close>

lemma release_state:
  assumes "sync_thread_core_release os b w = Some w'" "mem w a = Some c" "mem w' a = Some c'"
  shows "state c' = state c"
proof (rule ccontr)
  assume n: "state c' \<noteq> state c"
  obtain d where d: "mem w b = Some d" using assms(1) by (auto simp: sync_thread_core_release_def bind_eq_Some_conv)
  have e: "mem (decref_opt x u) = mem u" for x and u :: "'a thread_world" by (cases x) (simp_all add: decref_opt_def os_defs)
  show False using assms n d
    by (auto simp: sync_thread_core_release_def thread_defs e bind_eq_Some_conv split: if_splits)
qed

lemma drop_state:
  assumes "handle_drop os h w = Some w'" "mem w a = Some c" "mem w' a = Some c'"
  shows "state c' = state c"
proof -
  have "state c' = state c" if b: "core h = Some b" "sync_thread_finalize os h (w\<lparr>uses := 0\<rparr>) = Some w'" for b
  proof -
    obtain d where "mem w b = Some d" using b by (cases "mem w b") (auto simp: sync_thread_finalize_def thread_defs)
    then have "sync_thread_core_release os b (w\<lparr>uses := 0, calls := calls w @ [(MutexLock b, 0), (MutexUnlock b, 0)]\<rparr>) = Some w'"
      using finalize_cases(2) [OF b(2,1), of d] by simp
    from release_state [OF this, of a c c'] show ?thesis using assms by simp
  qed
  then show ?thesis using assms
    by (cases "core h") (auto simp: handle_drop_def Let_def sync_thread_finalize_def split: if_splits)
qed

lemma refuse_state: "thread_refuse os b r w = Some (out, w') \<Longrightarrow> mem w' = mem w"
  by (auto simp: thread_refuse_def thread_defs)

lemma join_edge:
  assumes run: "sync_thread_join os t h w = Some (out, w')" and a: "core h = Some a" and m: "mem w a = Some c" "mem w' a = Some c'"
    and j: "started c \<noteq> 0 \<Longrightarrow> state c \<notin> {2, 3, 4, 5, 6} \<Longrightarrow> state c = 1"
  shows "state c' = state c \<or> (state c, state c') \<in> thread_edges"
  using run a m(1)
  by (auto simp: sync_thread_join_def thread_defs split: if_splits dest!: refuse_state)
    (use j m in \<open>auto simp: thread_edges_def thread_states\<close>)

lemma detach_edge:
  assumes run: "sync_thread_detach os h w = Some (out, w')" and a: "core h = Some a" and m: "mem w a = Some c" "mem w' a = Some c'"
    and j: "started c \<noteq> 0 \<Longrightarrow> state c \<notin> {2, 3, 4, 5, 6} \<Longrightarrow> state c = 1"
  shows "state c' = state c \<or> (state c, state c') \<in> thread_edges"
  using run a m(1)
  by (auto simp: sync_thread_detach_def thread_defs split: if_splits dest!: refuse_state)
    (use j m in \<open>auto simp: thread_edges_def thread_states\<close>)

lemma enter_edge:
  assumes run: "thread_enter os op x w = Some (out, w')" and m: "mem w a = Some c" "mem w' a = Some c'"
    and inv: "thread_inv fails v f R D a B w (add_mset (x, None) A) ps"
  shows "state c' = state c \<or> (state c, state c') \<in> thread_edges"
proof -
  obtain h t where x: "x = User h t" "core h = Some a"
    by (rule thread_invD [OF inv]) (cases x; simp)
  have j: "state c = 1" if "started c \<noteq> 0" "state c \<notin> {2, 3, 4, 5, 6}"
    by (rule thread_invD [OF inv]) (use m that in \<open>auto simp: thread_shape_def\<close>)
  show ?thesis
  proof (cases op)
    case HandleDrop
    then show ?thesis using run m x drop_state by auto
  next
    case HandleJoin
    then show ?thesis using run m x join_edge [OF _ x(2) m j] by auto
  next
    case HandleDetach
    then show ?thesis using run m x detach_edge [OF _ x(2) m j] by auto
  qed (use run m x in \<open>auto simp: handle_clone_def sync_thread_is_finished_def sync_thread_id_def os_defs split: if_splits\<close>)
qed

lemma resume_edge:
  assumes run: "thread_resume f os k x w = Some (out, w')" and m: "mem w a = Some c" "mem w' a = Some c'"
    and inv: "thread_inv fails v f R D a B w (add_mset (x, Some k) A) ps"
  shows "state c' = state c \<or> (state c, state c') \<in> thread_edges"
proof -
  have fits: "tag_fits a (x, Some k)" by (rule thread_invD [OF inv])
  then have s: "thread_site x = Some a" by (cases x) auto
  have st: "state c = (case k of StartK \<Rightarrow> 0 | JoinK \<Rightarrow> 2 | DetachK i \<Rightarrow> 3 | _ \<Rightarrow> state c)"
  proof (rule thread_invD [OF inv])
    fix d
    assume d: "mem w a = Some d" "thread_shape fails v f (exited w) d (add_mset (x, Some k) A)"
    then have "k = StartK \<Longrightarrow> state c = 0" "k = JoinK \<Longrightarrow> state c = 2" "is_detach k \<Longrightarrow> state c = 3"
      using m(1) by (simp_all add: thread_shape_def split: if_splits)
    then show ?thesis by (cases k) simp_all
  qed
  have e: "mem (decref_opt u w) = mem w" for u and w :: "'a thread_world" by (cases u) (simp_all add: decref_opt_def os_defs)
  show ?thesis
  proof (cases k)
    case (LeaveK t)
    then show ?thesis using run s m release_state [of os a "decref_opt t w" _ a c c']
      by (auto simp: thread_resume_def sync_thread_main_leave_def bind_eq_Some_conv e)
  next
    case JoinK
    obtain st w1 where j: "os_join os a w = Some (st, w1)"
      using run s JoinK by (auto simp: thread_resume_def sync_thread_join_wait_def bind_eq_Some_conv)
    have "mem w1 = mem w" by (rule os_join_cases [OF j]) simp_all
    then show ?thesis using run s m st JoinK j
      by (auto simp: thread_resume_def sync_thread_join_wait_def thread_rollback_def sync_thread_take_task_def e
          thread_edges_def thread_defs split: if_splits)
  next
    case (DetachK i)
    then show ?thesis using run s m st
      by (auto simp: thread_resume_def sync_thread_detach_end_def thread_rollback_def sync_thread_take_task_def e
          thread_edges_def thread_defs split: if_splits)
  qed (use run s m st in \<open>auto simp: thread_resume_def sync_thread_start_end_def sync_thread_main_call_def sync_thread_main_complete_def
      sync_thread_complete_def sync_thread_main_end_def sync_thread_take_task_def thread_edges_def thread_defs
      bind_eq_Some_conv split: if_splits\<close>)
qed

subsection \<open>Concrete runs\<close>

lemmas thread_eval = spawn_raw_def thread_empty_world_def sync_thread_new_def sync_thread_wrap_def sync_thread_state_def
  sync_thread_start_def quiet_os_def posix_status_def exec_step_def thread_monitor_def settle_list_def record_past_def
  new_calls_def others_def wake_one_def asleep_on_def rouse_def thread_resume_def sync_thread_start_end_def sync_thread_main_call_def
  sync_thread_main_complete_def sync_thread_complete_def sync_thread_main_end_def sync_thread_main_leave_def
  sync_thread_core_release_def decref_opt_def sync_thread_join_def sync_current_thread_id_def joining_self_def
  sync_thread_join_wait_def os_join_def sync_thread_take_task_def handle_drop_def sync_thread_finalize_def terminal_def thread_defs
  sync_thread_detach_def sync_thread_detach_end_def handle_clone_def thread_refuse_def

lemma thread_boot_demo: "\<exists>s. spawn_raw quiet_os 1 7 2 thread_empty_world = Some s \<and>
    agents s = {#(User (sync_thread_wrap 0) 1, Runnable StartK), (Body 0, Runnable CallK)#} \<and> past s = []"
  by (simp add: thread_eval)

lemma thread_demo_reach:
  assumes d: "thread_demo xs = Some t"
  obtains s where "spawn_raw quiet_os 1 7 2 thread_empty_world = Some s"
    "reach os_ok (thread_monitor Suc (fresh thread_empty_world)) s (config_of t)"
proof -
  obtain s where s: "spawn_raw quiet_os 1 7 2 thread_empty_world = Some s" "past s = []"
      "agents s = {#(User (sync_thread_wrap 0) 1, Runnable StartK), (Body 0, Runnable CallK)#}"
    using thread_boot_demo by blast
  let ?i = "(wrld s, [(User (sync_thread_wrap 0) 1, Runnable StartK), (Body 0, Runnable CallK)], [])"
  have "exec (thread_monitor Suc 0) quiet_os xs ?i = Some t" using d s(1) by (simp add: thread_demo_def)
  from exec_reach [OF this, of os_ok] have "reach os_ok (thread_monitor Suc 0) (config_of ?i) (config_of t)" by simp
  moreover have "config_of ?i = s" using s(2,3) by simp
  ultimately show thesis using that s(1) by (simp add: thread_empty_world_def)
qed

lemma exec_snoc: "exec M os (xs @ [x]) s = Option.bind (exec M os xs s) (exec_step M os x)"
  by (induction xs arbitrary: s) (auto split: Option.bind_splits)

lemma thread_demo_snoc:
  assumes "thread_demo xs = Some t" "thread_demo (xs @ [x]) = Some t'"
  shows "exec_step (thread_monitor Suc 0) quiet_os x t = Some t'"
  using assms by (auto simp: thread_demo_def exec_snoc bind_eq_Some_conv)

lemma thread_world_clean:
  "mutex_state (fresh thread_empty_world) thread_empty_world = Some False" "fresh thread_empty_world = 0"
  "task_runs (calls thread_empty_world) = []" "decrefs (calls thread_empty_world) = []"
  by (simp_all add: thread_empty_world_def mutex_state_def)

section \<open>Properties\<close>

text \<open>
  C4. The task is called at most once. A \<open>join\<close> delivers a result exactly when it reports
  success; at most one \<open>join\<close> ever does, its result is the outcome of the task, and by then
  the task has been called and the thread is over.
\<close>

theorem thread_result_once:
  assumes boot: "spawn_raw os self v i w = Some s" and free: "mutex_state (fresh w) w = Some False"
    and log: "task_runs (calls w) = []" and run: "reach P (thread_monitor f (fresh w)) s t"
  shows "list_all join_ok (past t) \<and> delivered (past t) \<in> {[], [f v]} \<and> mset (task_runs (calls (wrld t))) \<subseteq># {#v#} \<and>
    (delivered (past t) = [f v] \<longrightarrow> task_runs (calls (wrld t)) = [v] \<and> bodies (thread_tags t) = 0)"
proof -
  obtain fails Q where i: "thread_inv fails v f {#} (mset (decrefs (calls w))) (fresh w) (\<lambda>r. balance r (calls w)) (wrld t) (thread_tags t) (past t)"
    and b: "thread_books fails v f {#} (mset (decrefs (calls w))) Q (calls (wrld t)) (thread_tags t) (past t)"
    using thread_reach [OF boot free run] thread_inv_books(1) log by fastforce
  have z: "pend (\<lambda>k. k = CallK) A = 0" if "bodies A = 0" "\<forall>x \<in># A. tag_fits (fresh w) x" for A :: "'a thread_tag multiset"
    using users_only(1) [OF that] .
  have "\<forall>x \<in># thread_tags t. tag_fits (fresh w) x" using i by (simp add: thread_inv_def)
  then show ?thesis using b thread_inv_books(2) [OF i] z [of "thread_tags t"]
    by (auto simp: thread_books_def split: if_splits)
qed

theorem thread_result_once_witness:
  "\<exists>t. thread_demo thread_join_run = Some t \<and> delivered (past (config_of t)) = [8] \<and>
     task_runs (calls (wrld (config_of t))) = [7] \<and> bodies (thread_tags (config_of t)) = 0"
proof -
  obtain t where t: "thread_demo thread_join_run = Some t" "delivered (past (config_of t)) = [8]"
    by (simp add: thread_demo_def thread_join_run_def thread_eval delivered_def)
  obtain s where s: "spawn_raw quiet_os 1 7 2 thread_empty_world = Some s"
    "reach os_ok (thread_monitor Suc (fresh thread_empty_world)) s (config_of t)" by (rule thread_demo_reach [OF t(1)])
  show ?thesis using t thread_result_once [OF s(1) thread_world_clean(1,3) s(2)] by simp
qed

text \<open>
  C18. A \<open>join\<close> that waits can return with the outcome once the thread is over; before that
  the body can make a step, and every step brings it closer to its end. So \<open>join\<close> returns if
  the body is scheduled.
\<close>

theorem thread_join_progress:
  assumes boot: "spawn_raw os self v i w = Some s" and free: "mutex_state (fresh w) w = Some False"
    and run: "reach P (thread_monitor f (fresh w)) s t" and joins: "(User h u, Some JoinK) \<in># thread_tags t" and ok: "os_ok os'"
  shows "if exited (wrld t) then \<exists>w'. thread_resume f os' JoinK (User h u) (wrld t) = Some (Return (Joined (Some (f v)) 0), w')
    else \<exists>k out w'. (Body (fresh w), Some k) \<in># thread_tags t \<and>
      thread_resume f os' k (Body (fresh w)) (wrld t) = Some (out, w') \<and> stage_left out < body_stage k"
proof -
  obtain fails R D where i: "thread_inv fails v f R D (fresh w) (\<lambda>r. balance r (calls w)) (wrld t) (thread_tags t) (past t)"
    using thread_reach [OF boot free run] by blast
  obtain A where A: "thread_tags t = add_mset (User h u, Some JoinK) A" using joins by (metis multi_member_split)
  obtain c where c: "mem (wrld t) (fresh w) = Some c" "thread_shape fails v f (exited (wrld t)) c (add_mset (User h u, Some JoinK) A)"
    "core h = Some (fresh w)"
    by (rule thread_invD [OF i [unfolded A]]) (rule that; simp)
  have st: "state c = 2" "\<not> fails" using c(2) by (auto simp: thread_shape_def split: if_splits)
  show ?thesis
  proof (cases "exited (wrld t)")
    case True
    then have "result c = Some (f v)" using c(2) st by (simp add: thread_shape_def)
    then show ?thesis using True c(1,3) ok
      by (auto simp: thread_resume_def sync_thread_join_wait_def os_join_def sync_thread_take_task_def thread_defs)
  next
    case False
    then have "bodies (thread_tags t) = 1" using c(2) st A by (simp add: thread_shape_def)
    then obtain x where x: "x \<in># thread_tags t" "\<not> is_user x" using body_exists [of "thread_tags t"] by auto
    have "tag_fits (fresh w) x" using i x(1) by (simp add: thread_inv_def)
    then obtain k where k: "x = (Body (fresh w), Some k)" using x(2) by (cases x; cases "fst x") (auto split: option.splits)
    obtain C where C: "thread_tags t = add_mset (Body (fresh w), Some k) C" using x(1) k by (metis multi_member_split)
    show ?thesis using False x(1) k body_steps [OF i [unfolded C] ok] by auto
  qed
qed

theorem thread_join_progress_witness:
  "\<exists>t. thread_demo [Resume 0, Call HandleJoin 1] = Some t \<and>
     (\<exists>k out w'. (Body 0, Some k) \<in># thread_tags (config_of t) \<and>
        thread_resume Suc quiet_os k (Body 0) (wrld (config_of t)) = Some (out, w') \<and> stage_left out < body_stage k)"
proof -
  obtain t where t: "thread_demo [Resume 0, Call HandleJoin 1] = Some t" "\<not> exited (wrld (config_of t))"
      "(User (sync_thread_wrap 0) 1, Some JoinK) \<in># thread_tags (config_of t)"
    by (simp add: thread_demo_def thread_eval thread_tags_def)
  obtain s where s: "spawn_raw quiet_os 1 7 2 thread_empty_world = Some s"
    "reach os_ok (thread_monitor Suc (fresh thread_empty_world)) s (config_of t)" by (rule thread_demo_reach [OF t(1)])
  show ?thesis using t thread_join_progress [OF s(1) thread_world_clean(1) s(2) t(3) quiet_os_ok] by (simp add: thread_world_clean(2))
qed

text \<open>
  C28. Whatever the interleaving of users and body, the state only moves along the edges of
  the intended state machine, and never leaves a terminal state.
\<close>

theorem thread_state_machine:
  assumes boot: "spawn_raw os self v i w = Some s" and free: "mutex_state (fresh w) w = Some False"
    and run: "reach P (thread_monitor f (fresh w)) s t" and st: "step P (thread_monitor f (fresh w)) t t'"
    and m: "mem (wrld t) (fresh w) = Some c" "mem (wrld t') (fresh w) = Some c'"
  shows "state c' = state c \<or> \<not> terminal (state c) \<and> (state c, state c') \<in> thread_edges"
proof -
  obtain fails R D B where i: "thread_inv fails v f R D (fresh w) B (wrld t) (thread_tags t) (past t)"
    using thread_reach [OF boot free run] by blast
  have "state c' = state c \<or> (state c, state c') \<in> thread_edges"
    using st
  proof cases
    case (step_call os op h u out w' A A' ps)
    then show ?thesis using enter_edge [of os op h u out w' "fresh w" c c'] i m by (simp add: thread_tags_def)
  next
    case (step_resume os k h u out w' A A' ps)
    then show ?thesis using resume_edge [of f os k h u out w' "fresh w" c c'] i m by (simp add: thread_tags_def)
  next
    case (step_spurious u h cv k A ps)
    then show ?thesis using m by simp
  qed
  then show ?thesis by (auto simp: thread_edges_def terminal_def thread_states)
qed

theorem thread_state_machine_witness:
  "\<exists>t t' c c'. thread_demo [Resume 0] = Some t \<and> thread_demo [Resume 0, Call HandleJoin 1] = Some t' \<and>
     mem (wrld (config_of t)) 0 = Some c \<and> mem (wrld (config_of t')) 0 = Some c' \<and> state c = 1 \<and> state c' = 2 \<and>
     (state c, state c') \<in> thread_edges"
proof -
  obtain t t' c c' where t: "thread_demo [Resume 0] = Some t" "thread_demo [Resume 0, Call HandleJoin 1] = Some t'"
      "mem (wrld (config_of t)) 0 = Some c" "mem (wrld (config_of t')) 0 = Some c'" "state c = 1" "state c' = 2"
    by (simp add: thread_demo_def thread_eval)
  obtain s where s: "spawn_raw quiet_os 1 7 2 thread_empty_world = Some s"
    "reach os_ok (thread_monitor Suc (fresh thread_empty_world)) s (config_of t)" by (rule thread_demo_reach [OF t(1)])
  obtain u A ps where tu: "t = (u, A, ps)" by (cases t)
  have "step os_ok (thread_monitor Suc (fresh thread_empty_world)) (config_of t) (config_of t')"
    using exec_step_step [of os_ok, OF quiet_os_ok thread_demo_snoc [OF t(1), of "Call HandleJoin 1" t', unfolded tu]] t(2) by (simp add: tu thread_world_clean(2))
  from thread_state_machine [OF s(1) thread_world_clean(1) s(2) this, of c c'] show ?thesis
    using t(1-6) by (simp add: thread_world_clean(2))
qed

text \<open>
  C26. The core is referenced once by the handle as long as it has users and once by the
  running body; the mutex is free between pieces of code. When both are gone the core is
  freed, and the task and a result that no \<open>join\<close> delivered have been released exactly once.
\<close>

theorem thread_lifetime:
  assumes boot: "spawn_raw os self v i w = Some s" and free: "mutex_state (fresh w) w = Some False"
    and log: "task_runs (calls w) = []" "decrefs (calls w) = []" and run: "reach P (thread_monitor f (fresh w)) s t"
  shows "mutex_state (fresh w) (wrld t) = Some False \<and> (case mem (wrld t) (fresh w) of
      Some c \<Rightarrow> agents t \<noteq> {#} \<and> bodies (thread_tags t) \<le> 1 \<and>
        refs c = of_nat ((if users (thread_tags t) = 0 then 0 else 1) + bodies (thread_tags t)) \<and>
        (\<forall>r. balance r (calls (wrld t)) = balance r (calls w) + owning (thread_resources (fresh w)) r)
    | None \<Rightarrow> agents t = {#} \<and> (\<forall>r. balance r (calls (wrld t)) = balance r (calls w)) \<and>
        mset (decrefs (calls (wrld t))) + mset (delivered (past t)) = {#v#} + image_mset f (mset (task_runs (calls (wrld t)))))"
proof -
  obtain fails where i: "thread_inv fails v f {#} {#} (fresh w) (\<lambda>r. balance r (calls w)) (wrld t) (thread_tags t) (past t)"
    using thread_reach [OF boot free run] log by auto
  show ?thesis
  proof (cases "agents t = {#}")
    case True
    then show ?thesis using i by (simp add: thread_inv_def thread_books_def thread_tags_def)
  next
    case False
    then obtain c where "mem (wrld t) (fresh w) = Some c" "thread_shape fails v f (exited (wrld t)) c (thread_tags t)"
      using i by (auto simp: thread_inv_def thread_tags_def)
    then show ?thesis using i False by (simp add: thread_inv_def thread_shape_def thread_tags_def)
  qed
qed

theorem thread_lifetime_witness:
  "\<exists>t. thread_demo (thread_join_run @ [Call HandleDrop 0]) = Some t \<and> mem (wrld (config_of t)) 0 = None \<and>
     agents (config_of t) = {#} \<and> balance (MutexRes 0) (calls (wrld (config_of t))) = 0"
proof -
  obtain t where t: "thread_demo (thread_join_run @ [Call HandleDrop 0]) = Some t" "mem (wrld (config_of t)) 0 = None"
    by (simp add: thread_demo_def thread_join_run_def thread_eval)
  obtain s where s: "spawn_raw quiet_os 1 7 2 thread_empty_world = Some s"
    "reach os_ok (thread_monitor Suc (fresh thread_empty_world)) s (config_of t)" by (rule thread_demo_reach [OF t(1)])
  show ?thesis using t thread_lifetime [OF s(1) thread_world_clean(1,3,4) s(2)]
    by (simp add: thread_world_clean(2)) (simp add: thread_empty_world_def)
qed

text \<open>
  C35. In every reachable state, dropping the last reference to a handle completes when the
  thread is in one of the states joined, detached or failed, and aborts in every other; the
  self test \<open>abort_if_unjoined\<close> aborts. The calls of the system that the drop makes succeed.
\<close>

theorem thread_drop_aborts:
  assumes boot: "spawn_raw os self v i w = Some s" and free: "mutex_state (fresh w) w = Some False"
    and run: "reach P (thread_monitor f (fresh w)) s t" and user: "(User h u, Ready) \<in># agents t" and last: "uses (wrld t) = 1"
    and c: "mem (wrld t) (fresh w) = Some c" and ok: "os_ok os'"
  shows "(if state c \<in> {SYNC_THREAD_JOINED, SYNC_THREAD_DETACHED, SYNC_THREAD_FAILED}
      then \<exists>w'. handle_drop os' h (wrld t) = Some w' else handle_drop os' h (wrld t) = None) \<and>
    sync_thread_test_abort_if_unjoined os'' w = None"
proof -
  obtain fails R D B where i: "thread_inv fails v f R D (fresh w) B (wrld t) (thread_tags t) (past t)"
    using thread_reach [OF boot free run] by blast
  obtain A where A: "agents t = add_mset (User h u, Ready) A" using user by (metis multi_member_split)
  have h: "core h = Some (fresh w)"
    using i by (simp add: thread_inv_def thread_tags_def A)
  have "\<exists>w'. sync_thread_core_release os' (fresh w) (wrld t\<lparr>uses := 0, calls := ks\<rparr>) = Some w'" for ks
    using c ok by (auto simp: sync_thread_core_release_def decref_opt_def thread_defs split: option.splits)
  then have "if state c \<in> {SYNC_THREAD_JOINED, SYNC_THREAD_DETACHED, SYNC_THREAD_FAILED}
      then \<exists>w'. handle_drop os' h (wrld t) = Some w' else handle_drop os' h (wrld t) = None"
    using c h ok last by (auto simp: handle_drop_def sync_thread_finalize_def terminal_def thread_defs)
  moreover have "sync_thread_test_abort_if_unjoined os'' w = None"
    by (auto simp: sync_thread_test_abort_if_unjoined_def sync_thread_new_def sync_thread_finalize_def sync_thread_wrap_def
        terminal_def thread_defs bind_eq_None_conv abort_if_failed_def split: Option.bind_split)
  ultimately show ?thesis ..
qed

theorem thread_drop_aborts_witness:
  "\<exists>t. thread_demo [Resume 0] = Some t \<and> handle_drop quiet_os (sync_thread_wrap 0) (wrld (config_of t)) = None \<and>
     sync_thread_test_abort_if_unjoined quiet_os thread_empty_world = None"
proof -
  obtain t c where t: "thread_demo [Resume 0] = Some t" "mem (wrld (config_of t)) 0 = Some c" "state c = 1"
      "uses (wrld (config_of t)) = 1" "(User (sync_thread_wrap 0) 1, Ready) \<in># agents (config_of t)"
    by (simp add: thread_demo_def thread_eval)
  obtain s where s: "spawn_raw quiet_os 1 7 2 thread_empty_world = Some s"
    "reach os_ok (thread_monitor Suc (fresh thread_empty_world)) s (config_of t)" by (rule thread_demo_reach [OF t(1)])
  show ?thesis
    using t thread_drop_aborts [OF s(1) thread_world_clean(1) s(2) t(5,4) _ quiet_os_ok, of c quiet_os]
    by (simp add: thread_world_clean(2) thread_states)
qed

end
