(* ===== verification/Sync_Mutex.thy ===== *)
theory Sync_Mutex
  imports Sync_Monitor
begin

text \<open>
  The mutex that protects a MoonBit value and the condition variable that goes with it,
  \<^verbatim>\<open>src/src/unsafe/mutex/native.c\<close>. Here the operating system's mutex is held across calls of
  the library: from \<open>lock_get\<close> to \<open>release_unlock\<close> of the same thread, except during a \<open>wait\<close>.

  The fields \<open>refs\<close> and \<open>core\<close> of the condition variable's structures are called \<open>crefs\<close> and
  \<open>ccore\<close>. Identifiers of threads are 64-bit words.
\<close>

section \<open>State\<close>

record 'v sync_mutex_core_t =
  refs :: sync_arc_t
  boxed :: "'v option"
  owner :: "64 word"
  locked :: int

record sync_mutex_handle_t =
  core :: "addr option"

record sync_cond_core_t =
  crefs :: sync_arc_t

record sync_cond_handle_t =
  ccore :: "addr option"

text \<open>\<open>names\<close>: the identifiers of the threads that have taken part so far.\<close>

record 'v mutex_world = "('v, 'v sync_mutex_core_t) world" +
  conds :: "addr \<rightharpoonup> sync_cond_core_t"
  next_mutex_error :: int
  next_cond_error :: int
  next_notify_error :: int
  names :: "64 word set"

section \<open>The mutex\<close>

definition sync_mutex_finalize ::
  "'v os \<Rightarrow> sync_mutex_handle_t \<Rightarrow> 'v mutex_world \<Rightarrow> 'v mutex_world option" where
  "sync_mutex_finalize os handle w = (case core handle of None \<Rightarrow> Some w | Some a \<Rightarrow> do {
     c \<leftarrow> mem w a;
     let r = sync_arc_dec (refs c);
     let w = store a (c\<lparr>refs := r\<rparr>) w;
     if r \<noteq> 0 then Some w else do {
       let w = (case boxed c of None \<Rightarrow> w | Some v \<Rightarrow> moonbit_decref v w);
       w \<leftarrow> abort_if_failed (sync_os_mutex_destroy os a w);
       Some (free_core a w)
     }
   })"

definition sync_mutex_wrap :: "addr \<Rightarrow> sync_mutex_handle_t" where
  "sync_mutex_wrap a = \<lparr>core = Some a\<rparr>"

definition sync_mutex_new ::
  "'v os \<Rightarrow> 'v \<Rightarrow> 'v mutex_world \<Rightarrow> ((sync_mutex_handle_t option \<times> int) \<times> 'v mutex_world) option" where
  "sync_mutex_new os v w = do {
     w \<leftarrow> sync_alloc os CoreBlock w;
     let a = fresh w;
     let w = store a \<lparr>refs = 1, boxed = Some v, owner = 0, locked = 0\<rparr> (w\<lparr>fresh := Suc a\<rparr>);
     let (status, next) = sync_test_atomic_take (next_mutex_error w);
     let w = w\<lparr>next_mutex_error := next\<rparr>;
     let (status, w) = (if status = 0 then sync_os_mutex_init os a w else (status, w));
     if status \<noteq> 0 then Some ((None, status), free_core a (moonbit_decref v w))
     else Some ((Some (sync_mutex_wrap a), status), w)
   }"

definition sync_mutex_share ::
  "sync_mutex_handle_t \<Rightarrow> 'v mutex_world \<Rightarrow> (sync_mutex_handle_t \<times> 'v mutex_world) option" where
  "sync_mutex_share value w = do {
     a \<leftarrow> core value;
     c \<leftarrow> mem w a;
     Some (sync_mutex_wrap a, store a (c\<lparr>refs := sync_arc_inc (refs c)\<rparr>) w)
   }"

definition sync_mutex_lock_get ::
  "'v os \<Rightarrow> 64 word \<Rightarrow> sync_mutex_handle_t \<Rightarrow> 'v mutex_world \<Rightarrow> (('v option \<times> int) \<times> 'v mutex_world) option" where
  "sync_mutex_lock_get os self value w = do {
     a \<leftarrow> core value;
     let (status, w) = sync_os_mutex_lock os a w;
     if status \<noteq> 0 then Some ((None, status), w) else do {
       c \<leftarrow> mem w a;
       v \<leftarrow> boxed c;
       let w = store a (c\<lparr>owner := sync_os_current_thread_id self, locked := 1\<rparr>) w;
       Some ((Some v, status), moonbit_incref v w)
     }
   }"

definition sync_mutex_release_unlock ::
  "'v os \<Rightarrow> sync_mutex_handle_t \<Rightarrow> 'v \<Rightarrow> 'v mutex_world \<Rightarrow> (int \<times> 'v mutex_world) option" where
  "sync_mutex_release_unlock os value box w = do {
     a \<leftarrow> core value;
     let w = moonbit_decref box w;
     c \<leftarrow> mem w a;
     let w = store a (c\<lparr>locked := 0, owner := 0\<rparr>) w;
     Some (sync_os_mutex_unlock os a w)
   }"

section \<open>The condition variable\<close>

definition free_cond :: "addr \<Rightarrow> 'v mutex_world \<Rightarrow> 'v mutex_world" where
  "free_cond b w = (c_free CoreBlock w)\<lparr>conds := (conds w)(b := None)\<rparr>"

definition sync_cond_finalize ::
  "'v os \<Rightarrow> sync_cond_handle_t \<Rightarrow> 'v mutex_world \<Rightarrow> 'v mutex_world option" where
  "sync_cond_finalize os handle w = (case ccore handle of None \<Rightarrow> Some w | Some b \<Rightarrow> do {
     d \<leftarrow> conds w b;
     let r = sync_arc_dec (crefs d);
     let w = w\<lparr>conds := (conds w)(b \<mapsto> d\<lparr>crefs := r\<rparr>)\<rparr>;
     if r \<noteq> 0 then Some w else do {
       w \<leftarrow> abort_if_failed (sync_os_cond_destroy os b Cond w);
       Some (free_cond b w)
     }
   })"

definition sync_cond_wrap :: "addr \<Rightarrow> sync_cond_handle_t" where
  "sync_cond_wrap b = \<lparr>ccore = Some b\<rparr>"

definition sync_condvar_new ::
  "'v os \<Rightarrow> 'v mutex_world \<Rightarrow> ((sync_cond_handle_t option \<times> int) \<times> 'v mutex_world) option" where
  "sync_condvar_new os w = do {
     w \<leftarrow> sync_alloc os CoreBlock w;
     let b = fresh w;
     let w = w\<lparr>fresh := Suc b, conds := (conds w)(b \<mapsto> \<lparr>crefs = 1\<rparr>)\<rparr>;
     let (status, next) = sync_test_atomic_take (next_cond_error w);
     let w = w\<lparr>next_cond_error := next\<rparr>;
     let (status, w) = (if status = 0 then sync_os_cond_init os b Cond w else (status, w));
     if status \<noteq> 0 then Some ((None, status), free_cond b w)
     else Some ((Some (sync_cond_wrap b), status), w)
   }"

definition sync_condvar_share ::
  "sync_cond_handle_t \<Rightarrow> 'v mutex_world \<Rightarrow> (sync_cond_handle_t \<times> 'v mutex_world) option" where
  "sync_condvar_share value w = do {
     b \<leftarrow> ccore value;
     d \<leftarrow> conds w b;
     Some (sync_cond_wrap b, w\<lparr>conds := (conds w)(b \<mapsto> d\<lparr>crefs := sync_arc_inc (crefs d)\<rparr>)\<rparr>)
   }"

text \<open>
  Waiting, in two parts: up to the point where the thread gives the mutex up, and from the
  point where it has it back. In the log the two ends name the mutex, which is what they
  change; the sleeper waits for the condition variable, which signals name.
\<close>

definition sync_condvar_wait_start ::
  "64 word \<Rightarrow> sync_cond_handle_t \<Rightarrow> sync_mutex_handle_t \<Rightarrow> 'v mutex_world \<Rightarrow>
   ((int, unit) outcome \<times> 'v mutex_world) option" where
  "sync_condvar_wait_start self value mutex w = do {
     a \<leftarrow> core mutex;
     c \<leftarrow> mem w a;
     if locked c = 0 \<or> owner c \<noteq> sync_os_current_thread_id self then Some (Return (- 1), w) else do {
       b \<leftarrow> ccore value;
       d \<leftarrow> conds w b;
       Some (Wait Cond (), cond_sleep a Cond w)
     }
   }"

definition sync_condvar_wait_wake ::
  "'v os \<Rightarrow> 64 word \<Rightarrow> sync_mutex_handle_t \<Rightarrow> 'v mutex_world \<Rightarrow> ((int, unit) outcome \<times> 'v mutex_world) option" where
  "sync_condvar_wait_wake os self mutex w = do {
     a \<leftarrow> core mutex;
     let (status, w) = sync_os_cond_wait os a Cond w;
     if status = 0 then do {
       c \<leftarrow> mem w a;
       Some (Return status, store a (c\<lparr>owner := sync_os_current_thread_id self, locked := 1\<rparr>) w)
     } else Some (Return status, w)
   }"

definition sync_condvar_notify_one ::
  "'v os \<Rightarrow> sync_cond_handle_t \<Rightarrow> 'v mutex_world \<Rightarrow> (int \<times> 'v mutex_world) option" where
  "sync_condvar_notify_one os value w = do {
     let (status, next) = sync_test_atomic_take (next_notify_error w);
     let w = w\<lparr>next_notify_error := next\<rparr>;
     if status \<noteq> 0 then Some (status, w) else do {
       b \<leftarrow> ccore value;
       d \<leftarrow> conds w b;
       Some (sync_os_cond_signal os b Cond w)
     }
   }"

definition sync_condvar_notify_all ::
  "'v os \<Rightarrow> sync_cond_handle_t \<Rightarrow> 'v mutex_world \<Rightarrow> (int \<times> 'v mutex_world) option" where
  "sync_condvar_notify_all os value w = do {
     let (status, next) = sync_test_atomic_take (next_notify_error w);
     let w = w\<lparr>next_notify_error := next\<rparr>;
     if status \<noteq> 0 then Some (status, w) else do {
       b \<leftarrow> ccore value;
       d \<leftarrow> conds w b;
       Some (sync_os_cond_broadcast os b Cond w)
     }
   }"

definition sync_mutex_test_fail_next_init :: "int \<Rightarrow> 'v mutex_world \<Rightarrow> 'v mutex_world" where
  "sync_mutex_test_fail_next_init status w =
     w\<lparr>next_mutex_error := sync_test_atomic_store (next_mutex_error w) status\<rparr>"

definition sync_condvar_test_fail_next_init :: "int \<Rightarrow> 'v mutex_world \<Rightarrow> 'v mutex_world" where
  "sync_condvar_test_fail_next_init status w =
     w\<lparr>next_cond_error := sync_test_atomic_store (next_cond_error w) status\<rparr>"

definition sync_condvar_test_fail_next_notify :: "int \<Rightarrow> 'v mutex_world \<Rightarrow> 'v mutex_world" where
  "sync_condvar_test_fail_next_notify status w =
     w\<lparr>next_notify_error := sync_test_atomic_store (next_notify_error w) status\<rparr>"

section \<open>Threads that use them\<close>

text \<open>
  An agent is a thread with a handle of the mutex and one of the condition variable; \<open>guard\<close> is
  the box it got from \<open>lock_get\<close> while it is inside \<open>with_lock\<close>
  (\<^verbatim>\<open>src/src/unsafe/mutex/mutex.mbt\<close>), which brackets \<open>lock_get\<close> and \<open>release_unlock\<close> and so fixes who
  may call them. \<open>wait\<close> can be called by anybody (\<open>condvar_wait_unchecked\<close>). \<open>MutexShare t\<close> hands
  a pair of new handles to thread \<open>t\<close>.
\<close>

record 'v mutex_agent =
  self :: "64 word"
  mutex :: sync_mutex_handle_t
  condvar :: sync_cond_handle_t
  guard :: "'v option"

datatype mutex_op = MutexShare "64 word" | MutexEnter | MutexLeave | CondvarWait | NotifyOne | NotifyAll | MutexDrop

datatype 'v mutex_ret = MutexAgent "'v mutex_agent" int | MutexStatus int | MutexDropped

fun mutex_may :: "mutex_op \<Rightarrow> 'v mutex_agent \<Rightarrow> bool" where
  "mutex_may MutexEnter x = (guard x = None)"
| "mutex_may MutexLeave x = (guard x \<noteq> None)"
| "mutex_may MutexDrop x = (guard x = None)"
| "mutex_may _ x = True"

text \<open>
  A lock that succeeds does so when the mutex is free: until then the call does not return, and
  the agent has no step. A failure may be reported at any time.
\<close>

definition mutex_blocked :: "addr \<Rightarrow> 'v mutex_world \<Rightarrow> bool" where
  "mutex_blocked a w \<longleftrightarrow> mutex_state a w = Some True"

fun mutex_enter ::
  "addr \<Rightarrow> 'v os \<Rightarrow> mutex_op \<Rightarrow> 'v mutex_agent \<Rightarrow> 'v mutex_world \<Rightarrow>
   (('v mutex_ret, unit) outcome \<times> 'v mutex_world) option" where
  "mutex_enter a os (MutexShare t) x w =
     (if t \<in> names w then None else do {
        (m, w) \<leftarrow> sync_mutex_share (mutex x) w;
        (g, w) \<leftarrow> sync_condvar_share (condvar x) w;
        Some (Return (MutexAgent \<lparr>self = t, mutex = m, condvar = g, guard = None\<rparr> 0), w\<lparr>names := insert t (names w)\<rparr>)
      })"
| "mutex_enter a os MutexEnter x w = do {
     ((v, status), w') \<leftarrow> sync_mutex_lock_get os (self x) (mutex x) w;
     if status = 0 \<and> mutex_blocked a w then None
     else Some (Return (MutexAgent (x\<lparr>guard := v\<rparr>) status), w')
   }"
| "mutex_enter a os MutexLeave x w = do {
     v \<leftarrow> guard x;
     (status, w) \<leftarrow> sync_mutex_release_unlock os (mutex x) v w;
     Some (Return (MutexAgent (x\<lparr>guard := None\<rparr>) status), w)
   }"
| "mutex_enter a os CondvarWait x w =
     map_option (\<lambda>(out, w). (map_outcome MutexStatus id out, w)) (sync_condvar_wait_start (self x) (condvar x) (mutex x) w)"
| "mutex_enter a os NotifyOne x w =
     map_option (\<lambda>(st, w). (Return (MutexStatus st), w)) (sync_condvar_notify_one os (condvar x) w)"
| "mutex_enter a os NotifyAll x w =
     map_option (\<lambda>(st, w). (Return (MutexStatus st), w)) (sync_condvar_notify_all os (condvar x) w)"
| "mutex_enter a os MutexDrop x w = do {
     w \<leftarrow> sync_mutex_finalize os (mutex x) w;
     w \<leftarrow> sync_cond_finalize os (condvar x) w;
     Some (Return MutexDropped, w)
   }"

definition mutex_resume ::
  "addr \<Rightarrow> 'v os \<Rightarrow> unit \<Rightarrow> 'v mutex_agent \<Rightarrow> 'v mutex_world \<Rightarrow> (('v mutex_ret, unit) outcome \<times> 'v mutex_world) option" where
  "mutex_resume a os k x w =
     (if mutex_blocked a w then None
      else map_option (\<lambda>(out, w). (map_outcome MutexStatus id out, w)) (sync_condvar_wait_wake os (self x) (mutex x) w))"

fun mutex_drops :: "mutex_op \<Rightarrow> bool" where
  "mutex_drops MutexEnter = True"
| "mutex_drops MutexLeave = True"
| "mutex_drops MutexDrop = True"
| "mutex_drops _ = False"

fun mutex_born :: "'v mutex_ret \<Rightarrow> 'v mutex_agent option" where
  "mutex_born (MutexAgent x st) = Some x"
| "mutex_born _ = None"

text \<open>The mutex is at address \<open>a\<close>, the condition variable at \<open>b\<close>.\<close>

definition mutex_monitor where
  "mutex_monitor a b = \<lparr>site = b, may = mutex_may, enter = mutex_enter a, resume = mutex_resume a,
     pending = (\<lambda>_. CondvarWait), drops = mutex_drops, born = mutex_born\<rparr>"

end
