(* ===== verification/Sync_Mutex_Correct.thy ===== *)
theory Sync_Mutex_Correct
  imports Sync_Mutex
begin

text \<open>
  Correctness of the mutex and its condition variable: the invariant \<open>mutex_inv\<close> relates the
  flags \<open>locked\<close> and \<open>owner\<close> to the thread that really holds the operating system's mutex. The
  handles are counted without a check, so the statements are about runs with fewer than
  \<open>2 ^ 32 - 1\<close> completed operations.
\<close>

section \<open>Specification\<close>

type_synonym 'v mutex_tag = "'v mutex_agent \<times> unit option"

text \<open>Who is inside the mutex, and who of them is not waiting.\<close>

definition holds_lock :: "'v mutex_tag \<Rightarrow> bool" where
  "holds_lock x \<longleftrightarrow> guard (fst x) \<noteq> None \<and> snd x = None"

definition holders :: "'v mutex_tag multiset \<Rightarrow> nat" where
  "holders A = size (filter_mset holds_lock A)"

definition guards :: "'v mutex_tag multiset \<Rightarrow> nat" where
  "guards A = size (filter_mset (\<lambda>x. guard (fst x) \<noteq> None) A)"

definition tids :: "'v mutex_tag multiset \<Rightarrow> 64 word multiset" where
  "tids A = image_mset (\<lambda>x. self (fst x)) A"

text \<open>What the log says.\<close>

definition increfs :: "'v history \<Rightarrow> 'v list" where
  "increfs ks = concat (map (\<lambda>(k, st). case k of Incref v \<Rightarrow> [v] | _ \<Rightarrow> []) ks)"

definition wait_failed :: "addr \<Rightarrow> 'v history \<Rightarrow> bool" where
  "wait_failed a ks \<longleftrightarrow> (\<exists>st. (CondWait a Cond, st) \<in> set ks \<and> st \<noteq> 0)"

definition mutex_fits :: "addr \<Rightarrow> addr \<Rightarrow> 'v mutex_tag \<Rightarrow> bool" where
  "mutex_fits a b x \<longleftrightarrow> core (mutex (fst x)) = Some a \<and> ccore (condvar (fst x)) = Some b"

definition mutex_resources :: "addr \<Rightarrow> addr \<Rightarrow> resource list" where
  "mutex_resources a b = [MutexRes a, CondRes b Cond, BlockRes CoreBlock, BlockRes CoreBlock]"

text \<open>The cores, given the agents.\<close>

definition mutex_live ::
  "'v \<Rightarrow> addr \<Rightarrow> addr \<Rightarrow> 'v sync_mutex_core_t \<Rightarrow> sync_cond_core_t \<Rightarrow> 'v history \<Rightarrow> 'v mutex_tag multiset \<Rightarrow> bool" where
  "mutex_live v a b c d ks A \<longleftrightarrow>
     refs c = of_nat (size A) \<and> crefs d = of_nat (size A) \<and> boxed c = Some v \<and>
     (\<forall>x \<in># A. (guard (fst x) \<noteq> None \<longrightarrow> guard (fst x) = Some v) \<and> (snd x \<noteq> None \<longrightarrow> guard (fst x) \<noteq> None)) \<and>
     (locked c \<noteq> 0 \<longrightarrow> (\<exists>x \<in># A. self (fst x) = owner c \<and> guard (fst x) \<noteq> None)) \<and>
     (\<forall>x \<in># A. holds_lock x \<longrightarrow> wait_failed a ks \<or> locked c \<noteq> 0 \<and> owner c = self (fst x))"

text \<open>The state of the operating system's mutex, the references to the value and the
  resources; \<open>B\<close> and \<open>D\<close> are those of the log at the start.\<close>

definition mutex_books ::
  "'v \<Rightarrow> addr \<Rightarrow> addr \<Rightarrow> (resource \<Rightarrow> int) \<Rightarrow> 'v multiset \<Rightarrow> 'v history \<Rightarrow> 'v mutex_tag multiset \<Rightarrow> bool" where
  "mutex_books v a b B D ks A \<longleftrightarrow>
     mutex_run a False ks = Some (holders A \<noteq> 0) \<and> holders A \<le> 1 \<and>
     mset (decrefs ks) + replicate_mset (guards A + (if A = {#} then 0 else 1)) v = D + {#v#} + mset (increfs ks) \<and>
     (\<forall>r. balance r ks = B r + (if A = {#} then 0 else owning (mutex_resources a b) r))"

definition mutex_inv ::
  "'v \<Rightarrow> addr \<Rightarrow> addr \<Rightarrow> (resource \<Rightarrow> int) \<Rightarrow> 'v multiset \<Rightarrow> 'v mutex_world \<Rightarrow> 'v mutex_tag multiset \<Rightarrow>
   (mutex_op \<times> 'v mutex_ret) list \<Rightarrow> bool" where
  "mutex_inv v a b B D w A ps \<longleftrightarrow>
     (\<forall>x \<in># A. mutex_fits a b x) \<and> (\<forall>t. count (tids A) t \<le> 1) \<and> set_mset (tids A) \<subseteq> names w \<and>
     (short_run ps \<longrightarrow> size A \<le> Suc (length ps) \<and> mutex_books v a b B D (calls w) A \<and>
       (if A = {#} then mem w a = None \<and> conds w b = None
        else \<exists>c d. mem w a = Some c \<and> conds w b = Some d \<and> mutex_live v a b c d (calls w) A))"

definition mutex_tags :: "('v, 'z, mutex_op, 'v mutex_agent, unit, 'v mutex_ret) config \<Rightarrow> 'v mutex_tag multiset" where
  "mutex_tags t = image_mset tag (agents t)"

text \<open>A new mutex and condition variable, with handles of both for thread \<open>t\<close>.\<close>

definition mutex_boot ::
  "'v os \<Rightarrow> 'v \<Rightarrow> 64 word \<Rightarrow> 'v mutex_world \<Rightarrow> ('v, _, mutex_op, 'v mutex_agent, unit, 'v mutex_ret) config option" where
  "mutex_boot os v t w = do {
     ((m, status), w) \<leftarrow> sync_mutex_new os v w;
     m \<leftarrow> m;
     ((g, status), w) \<leftarrow> sync_condvar_new os w;
     g \<leftarrow> g;
     Some \<lparr>wrld = w\<lparr>names := {t}\<rparr>, agents = {#(\<lparr>self = t, mutex = m, condvar = g, guard = None\<rparr>, Ready)#}, past = []\<rparr>
   }"

text \<open>Concrete runs.\<close>

definition mutex_empty_world :: "nat mutex_world" where
  "mutex_empty_world = \<lparr>calls = [], mem = Map.empty, fresh = 0, conds = Map.empty, next_mutex_error = 0, next_cond_error = 0,
     next_notify_error = 0, names = {}\<rparr>"

definition mutex_first :: "nat mutex_agent" where
  "mutex_first = \<lparr>self = 1, mutex = sync_mutex_wrap 0, condvar = sync_cond_wrap 1, guard = None\<rparr>"

definition mutex_demo ::
  "mutex_op choice list \<Rightarrow> (nat mutex_world \<times> (nat mutex_agent \<times> unit mode) list \<times> (mutex_op \<times> nat mutex_ret) list) option" where
  "mutex_demo xs = do {
     s \<leftarrow> mutex_boot quiet_os 7 1 mutex_empty_world;
     exec (mutex_monitor 0 1) quiet_os xs (wrld s, [(mutex_first, Ready)], []) }"

section \<open>Lemmas\<close>

subsection \<open>Counting threads\<close>

lemma mutex_counts [simp]:
  "holders {#} = 0" "guards {#} = 0" "tids {#} = {#}"
  "holders (add_mset x A) = (if holds_lock x then 1 else 0) + holders A"
  "guards (add_mset x A) = (if guard (fst x) = None then 0 else 1) + guards A"
  "tids (add_mset x A) = add_mset (self (fst x)) (tids A)"
  by (simp_all add: holders_def guards_def tids_def)

lemma holds_lock_pair [simp]: "holds_lock (x, None) \<longleftrightarrow> guard x \<noteq> None" "\<not> holds_lock (x, Some k)"
  by (simp_all add: holds_lock_def)

lemma increfs_simps [simp]:
  "increfs [] = []" "increfs (xs @ ys) = increfs xs @ increfs ys"
  "increfs ((k, st) # ks) = (case k of Incref v \<Rightarrow> v # increfs ks | _ \<Rightarrow> increfs ks)"
  by (auto simp: increfs_def split: call.splits)

lemma wait_failed_simps [simp]:
  "\<not> wait_failed a []" "wait_failed a (xs @ ys) \<longleftrightarrow> wait_failed a xs \<or> wait_failed a ys"
  "wait_failed a ((k, st) # ks) \<longleftrightarrow> k = CondWait a Cond \<and> st \<noteq> 0 \<or> wait_failed a ks"
  by (auto simp: wait_failed_def)

lemma holders_none: "holders A = 0 \<Longrightarrow> x \<in># A \<Longrightarrow> \<not> holds_lock x"
  unfolding holders_def by (cases x) auto

lemma holders_two: "holds_lock x \<Longrightarrow> holders (add_mset x A) \<le> 1 \<Longrightarrow> y \<in># A \<Longrightarrow> \<not> holds_lock y"
  using holders_none [of A y] by simp

subsection \<open>What keeps the invariant\<close>

lemma mutex_invD:
  assumes "mutex_inv v a b B D w (add_mset x A) ps"
  shows "mutex_fits a b x" "\<forall>y \<in># A. mutex_fits a b y" "\<forall>t. count (tids (add_mset x A)) t \<le> 1"
    "set_mset (tids (add_mset x A)) \<subseteq> names w"
    "short_run ps \<Longrightarrow> size A \<le> length ps \<and> mutex_books v a b B D (calls w) (add_mset x A) \<and>
       (\<exists>c d. mem w a = Some c \<and> conds w b = Some d \<and> mutex_live v a b c d (calls w) (add_mset x A))"
  using assms by (auto simp: mutex_inv_def)

text \<open>An agent that stays, with its thread, after an operation that leaves both cores allocated.\<close>

lemma mutex_keep:
  assumes inv: "mutex_inv v a b B D w (add_mset x A) ps" and y: "mutex_fits a b y" "self (fst y) = self (fst x)"
    and n: "names w' = names w" and ps: "ps' = ps \<or> (\<exists>r. ps' = ps @ [r])"
    and live: "\<And>c d. short_run ps \<Longrightarrow> mem w a = Some c \<Longrightarrow> conds w b = Some d \<Longrightarrow> mutex_live v a b c d (calls w) (add_mset x A) \<Longrightarrow>
      mutex_books v a b B D (calls w) (add_mset x A) \<Longrightarrow>
      mutex_books v a b B D (calls w') (add_mset y A) \<and>
      (\<exists>c'. mem w' a = Some c' \<and> conds w' b = Some d \<and> mutex_live v a b c' d (calls w') (add_mset y A))"
  shows "mutex_inv v a b B D w' (add_mset y A) ps'"
proof -
  note i = mutex_invD [OF inv]
  have "size A \<le> length ps' \<and> mutex_books v a b B D (calls w') (add_mset y A) \<and>
      (\<exists>c d. mem w' a = Some c \<and> conds w' b = Some d \<and> mutex_live v a b c d (calls w') (add_mset y A))" if "short_run ps'"
  proof -
    have sh: "short_run ps" using ps that by auto
    obtain c d where "mem w a = Some c" "conds w b = Some d" "mutex_live v a b c d (calls w) (add_mset x A)"
      "mutex_books v a b B D (calls w) (add_mset x A)" "size A \<le> length ps" using i(5) [OF sh] by blast
    then show ?thesis using live [OF sh, of c d] ps by auto
  qed
  then show ?thesis using i(2-4) y n by (auto simp: mutex_inv_def)
qed

subsection \<open>Locking, waiting and waking\<close>

lemma mutex_lock_inv:
  assumes inv: "mutex_inv v a b B D w (add_mset (x, None) A) ps" and g: "guard x = None"
    and run: "sync_mutex_lock_get os (self x) (mutex x) w = Some ((u, st), w')" and nb: "\<not> (st = 0 \<and> mutex_blocked a w)"
  shows "mutex_inv v a b B D w' (add_mset (x\<lparr>guard := u\<rparr>, None) A) (ps @ [r])"
proof -
  have f: "mutex_fits a b (x, None)" by (rule mutex_invD(1) [OF inv])
  then have a: "core (mutex x) = Some a" by (simp add: mutex_fits_def)
  show ?thesis
  proof (cases "st = 0")
    case False
    then have w': "u = None" "w' = w\<lparr>calls := calls w @ [(MutexLock a, st)]\<rparr>"
      using run a by (auto simp: sync_mutex_lock_get_def os_defs bind_eq_Some_conv split: if_splits)
    have y: "x\<lparr>guard := u\<rparr> = x" using w'(1) g by (cases x) simp
    show ?thesis unfolding y
      by (rule mutex_keep [OF inv f]) (use w' False in \<open>auto simp: mutex_books_def mutex_live_def mutex_run_append\<close>)
  next
    case True
    then obtain c where c: "mem w a = Some c" "boxed c = u" "u \<noteq> None"
        "calls w' = calls w @ [(MutexLock a, 0), (Incref (the u), 0)]" "mem w' a = Some (c\<lparr>owner := self x, locked := 1\<rparr>)"
        "conds w' = conds w" "names w' = names w"
      using run a by (auto simp: sync_mutex_lock_get_def sync_os_current_thread_id_def os_defs bind_eq_Some_conv split: if_splits)
    have y: "mutex_fits a b (x\<lparr>guard := u\<rparr>, None)" using f by (simp add: mutex_fits_def)
    show ?thesis
    proof (rule mutex_keep [OF inv y], goal_cases)
      case (4 c' d)
      have u: "u = Some v" and free: "holders A = 0"
        using 4 c nb True by (auto simp: mutex_live_def mutex_books_def mutex_blocked_def mutex_state_def)
      have "\<forall>y \<in># A. \<not> holds_lock y" using holders_none [OF free] by blast
      then show ?case using 4 c g u free
        by (auto simp: mutex_books_def mutex_live_def mutex_run_append)
    qed (use c in auto)
  qed
qed

lemma mutex_unlock_inv:
  assumes inv: "mutex_inv v a b B D w (add_mset (x, None) A) ps" and g: "guard x = Some u"
    and run: "sync_mutex_release_unlock os (mutex x) u w = Some (st, w')"
  shows "mutex_inv v a b B D w' (add_mset (x\<lparr>guard := None\<rparr>, None) A) (ps @ [r])"
proof -
  have f: "mutex_fits a b (x, None)" by (rule mutex_invD(1) [OF inv])
  then have a: "core (mutex x) = Some a" by (simp add: mutex_fits_def)
  obtain c where c: "mem w a = Some c" "calls w' = calls w @ [(Decref u, 0), (MutexUnlock a, st)]"
      "mem w' a = Some (c\<lparr>locked := 0, owner := 0\<rparr>)" "conds w' = conds w" "names w' = names w"
    using run a by (auto simp: sync_mutex_release_unlock_def os_defs bind_eq_Some_conv)
  have y: "mutex_fits a b (x\<lparr>guard := None\<rparr>, None)" using f by (simp add: mutex_fits_def)
  have h: "holds_lock (x, None)" using g by simp
  show ?thesis
  proof (rule mutex_keep [OF inv y], goal_cases)
    case (4 c' d)
    have u: "u = v" using 4(4) g by (simp add: mutex_live_def)
    have free: "holders A = 0" using 4(5) h by (simp add: mutex_books_def)
    then have no: "\<forall>y \<in># A. \<not> holds_lock y" using holders_none by blast
    have "mutex_books v a b B D (calls w') (add_mset (x\<lparr>guard := None\<rparr>, None) A)"
      using 4(5) c(2) g u free by (simp add: mutex_books_def mutex_run_append)
    moreover have "mutex_live v a b (c\<lparr>locked := 0, owner := 0\<rparr>) d (calls w') (add_mset (x\<lparr>guard := None\<rparr>, None) A)"
      using 4(2,4) c(1) no by (auto simp: mutex_live_def)
    ultimately show ?case using c(3,4) 4(3) by simp
  qed (use c in auto)
qed

text \<open>Calls that concern neither the mutex nor the accounts.\<close>

lemma mutex_quiet:
  assumes inv: "mutex_inv v a b B D w (add_mset (x, None) A) ps" and log: "calls w' = calls w @ ks" "mem w' = mem w" "conds w' = conds w"
      "names w' = names w"
    and ks: "\<And>h. mutex_run a h ks = Some h" "\<And>r. balance r ks = 0" "decrefs ks = []" "increfs ks = []" "\<not> wait_failed a ks"
  shows "mutex_inv v a b B D w' (add_mset (x, None) A) (ps @ [r])"
  by (rule mutex_keep [OF inv mutex_invD(1) [OF inv]]) (use log ks in \<open>auto simp: mutex_books_def mutex_live_def mutex_run_append\<close>)

lemma mutex_notify_inv:
  assumes inv: "mutex_inv v a b B D w (add_mset (x, None) A) ps"
    and run: "sync_condvar_notify_one os (condvar x) w = Some (st, w') \<or> sync_condvar_notify_all os (condvar x) w = Some (st, w')"
  shows "mutex_inv v a b B D w' (add_mset (x, None) A) (ps @ [r])"
proof -
  have b: "ccore (condvar x) = Some b" using mutex_invD(1) [OF inv] by (simp add: mutex_fits_def)
  consider "calls w' = calls w @ []" | "calls w' = calls w @ [(CondSignal b Cond, st)]" | "calls w' = calls w @ [(CondBroadcast b Cond, st)]"
    using run b by (cases "next_notify_error w = 0")
      (auto simp: sync_condvar_notify_one_def sync_condvar_notify_all_def os_defs bind_eq_Some_conv)
  moreover have "mem w' = mem w" "conds w' = conds w" "names w' = names w"
    using run b by (cases "next_notify_error w = 0";
      auto simp: sync_condvar_notify_one_def sync_condvar_notify_all_def os_defs bind_eq_Some_conv)+
  ultimately show ?thesis
    by cases (erule mutex_quiet [OF inv], simp_all)+
qed

lemma condvar_wait_inv:
  assumes inv: "mutex_inv v a b B D w (add_mset (x, None) A) ps"
    and run: "sync_condvar_wait_start (self x) (condvar x) (mutex x) w = Some (out, w')"
  shows "out = Return (- 1) \<and> mutex_inv v a b B D w' (add_mset (x, None) A) (ps @ [(CondvarWait, MutexStatus (- 1))]) \<or>
    out = Wait Cond () \<and> mutex_inv v a b B D w' (add_mset (x, Some ()) A) ps"
proof -
  have f: "mutex_fits a b (x, None)" by (rule mutex_invD(1) [OF inv])
  then have ab: "core (mutex x) = Some a" "ccore (condvar x) = Some b" by (simp_all add: mutex_fits_def)
  obtain c where c: "mem w a = Some c" using run ab by (auto simp: sync_condvar_wait_start_def bind_eq_Some_conv)
  show ?thesis
  proof (cases "locked c = 0 \<or> owner c \<noteq> self x")
    case True
    then have "out = Return (- 1)" "w' = w"
      using run ab c by (auto simp: sync_condvar_wait_start_def sync_os_current_thread_id_def)
    then show ?thesis using mutex_quiet [OF inv, of w "[]"] by simp
  next
    case False
    then have w': "out = Wait Cond ()" "w' = w\<lparr>calls := calls w @ [(CondSleep a Cond, 0)]\<rparr>"
      using run ab c by (auto simp: sync_condvar_wait_start_def sync_os_current_thread_id_def os_defs bind_eq_Some_conv)
    have "mutex_inv v a b B D w' (add_mset (x, Some ()) A) ps"
    proof (rule mutex_keep [OF inv], goal_cases)
      case (5 c' d)
      have t: "self (fst y) \<noteq> self x" if "y \<in># A" for y
        using mutex_invD(3) [OF inv, THEN spec, of "self x"] that by (auto simp: tids_def dest!: multi_member_split)
      have g: "guard x = Some v"
      proof -
        have "\<exists>y \<in># add_mset (x, None) A. self (fst y) = owner c \<and> guard (fst y) \<noteq> None"
          using False c 5(2,4) unfolding mutex_live_def by simp
        then obtain y where "y \<in># add_mset (x, None) A" "self (fst y) = self x" "guard (fst y) \<noteq> None" using False by metis
        moreover from this have "y = (x, None)" using t [of y] by auto
        ultimately show ?thesis using 5(4) unfolding mutex_live_def by simp
      qed
      then have h: "holders A = 0" using 5(5) by (simp add: mutex_books_def)
      then have no: "\<forall>y \<in># A. \<not> holds_lock y" using holders_none by blast
      have "mutex_books v a b B D (calls w') (add_mset (x, Some ()) A)"
        using 5(5) w'(2) g h by (simp add: mutex_books_def mutex_run_append)
      moreover have "mutex_live v a b c d (calls w') (add_mset (x, Some ()) A)"
        using 5(2,4) c no g False by (auto simp: mutex_live_def)
      ultimately show ?case using 5(3) c w'(2) by simp
    qed (use w' f in \<open>simp_all add: mutex_fits_def\<close>)
    then show ?thesis using w'(1) by simp
  qed
qed

lemma condvar_wake_inv:
  assumes inv: "mutex_inv v a b B D w (add_mset (x, Some ()) A) ps" and nb: "\<not> mutex_blocked a w"
    and run: "sync_condvar_wait_wake os (self x) (mutex x) w = Some (out, w')"
  shows "\<exists>st. out = Return st \<and> mutex_inv v a b B D w' (add_mset (x, None) A) (ps @ [(CondvarWait, MutexStatus st)])"
proof -
  have f: "mutex_fits a b (x, Some ())" by (rule mutex_invD(1) [OF inv])
  then have a: "core (mutex x) = Some a" by (simp add: mutex_fits_def)
  let ?st = "ret os (calls w) (CondWait a Cond)"
  have w': "out = Return ?st" "calls w' = calls w @ [(CondWait a Cond, ?st)]" "conds w' = conds w" "names w' = names w"
    "\<And>c. mem w a = Some c \<Longrightarrow> mem w' a = Some (if ?st = 0 then c\<lparr>owner := self x, locked := 1\<rparr> else c)"
    using run a by (auto simp: sync_condvar_wait_wake_def sync_os_current_thread_id_def os_defs bind_eq_Some_conv split: if_splits)
  have "mutex_inv v a b B D w' (add_mset (x, None) A) (ps @ [(CondvarWait, MutexStatus ?st)])"
  proof (rule mutex_keep [OF inv], goal_cases)
    case (5 c d)
    have g: "guard x = Some v" using 5(4) by (auto simp: mutex_live_def)
    have h: "holders A = 0" using 5(5) nb by (simp add: mutex_books_def mutex_blocked_def mutex_state_def split: if_splits)
    then have no: "\<forall>y \<in># A. \<not> holds_lock y" using holders_none by blast
    let ?c = "if ?st = 0 then c\<lparr>owner := self x, locked := 1\<rparr> else c"
    have "mutex_books v a b B D (calls w') (add_mset (x, None) A)"
      using 5(5) w'(2) g h by (simp add: mutex_books_def mutex_run_append)
    moreover have "mutex_live v a b ?c d (calls w') (add_mset (x, None) A)"
    proof (cases "?st = 0")
      case True
      then show ?thesis using 5(4) no g by (simp add: mutex_live_def)
    next
      case False
      then show ?thesis using 5(4) g w'(2) by (simp add: mutex_live_def)
    qed
    moreover have "conds w' b = Some d" using 5(3) w'(3) by simp
    moreover note w'(5) [OF 5(2)]
    ultimately show ?case by (intro conjI exI [of _ ?c])
  qed (use w' f in \<open>simp_all add: mutex_fits_def\<close>)
  then show ?thesis using w'(1) by blast
qed

subsection \<open>Handles\<close>

lemma mutex_share_inv:
  assumes inv: "mutex_inv v a b B D w (add_mset (x, None) A) ps" and t: "t \<notin> names w"
    and run: "sync_mutex_share (mutex x) w = Some (m, w1)" "sync_condvar_share (condvar x) w1 = Some (g, w2)"
  shows "mutex_inv v a b B D (w2\<lparr>names := insert t (names w2)\<rparr>)
    (add_mset (\<lparr>self = t, mutex = m, condvar = g, guard = None\<rparr>, None) (add_mset (x, None) A)) (ps @ [r])"
proof -
  note i = mutex_invD [OF inv]
  have ab: "core (mutex x) = Some a" "ccore (condvar x) = Some b" using i(1) by (simp_all add: mutex_fits_def)
  obtain c d where w2: "mem w a = Some c" "conds w b = Some d" "m = sync_mutex_wrap a" "g = sync_cond_wrap b"
      "mem w2 a = Some (c\<lparr>refs := refs c + 1\<rparr>)" "conds w2 b = Some (d\<lparr>crefs := crefs d + 1\<rparr>)" "calls w2 = calls w" "names w2 = names w"
    using run ab by (auto simp: sync_mutex_share_def sync_condvar_share_def os_defs bind_eq_Some_conv)
  let ?y = "(\<lparr>self = t, mutex = m, condvar = g, guard = None\<rparr>, None)"
  have tn: "count (tids (add_mset (x, None) A)) t = 0" using i(4) t by (auto simp: not_in_iff [symmetric])
  have ct: "count (tids (add_mset ?y (add_mset (x, None) A))) u \<le> 1" for u
    using i(3) [THEN spec, of u] tn by (auto split: if_splits)
  have live: "mutex_live v a b (c\<lparr>refs := refs c + 1\<rparr>) (d\<lparr>crefs := crefs d + 1\<rparr>) (calls w) (add_mset ?y (add_mset (x, None) A))"
    if "mutex_live v a b c d (calls w) (add_mset (x, None) A)"
    using that by (auto simp: mutex_live_def)
  have bk: "mutex_books v a b B D (calls w) (add_mset ?y (add_mset (x, None) A))"
    if "mutex_books v a b B D (calls w) (add_mset (x, None) A)"
    using that by (simp add: mutex_books_def)
  have nm: "set_mset (tids (add_mset ?y (add_mset (x, None) A))) \<subseteq> insert t (names w)" using i(4) by auto
  show ?thesis
    using i(1,2) nm ct w2 i(5) live bk
    by (auto simp: mutex_inv_def mutex_fits_def sync_mutex_wrap_def sync_cond_wrap_def simp del: mutex_counts(6))
qed

lemma mutex_drop_inv:
  assumes inv: "mutex_inv v a b B D w (add_mset (x, None) A) ps" and g: "guard x = None"
    and run: "sync_mutex_finalize os (mutex x) w = Some w1" "sync_cond_finalize os (condvar x) w1 = Some w2"
  shows "mutex_inv v a b B D w2 A (ps @ [r])"
proof -
  note i = mutex_invD [OF inv]
  have ab: "core (mutex x) = Some a" "ccore (condvar x) = Some b" using i(1) by (simp_all add: mutex_fits_def)
  obtain c d where c: "mem w a = Some c" "conds w1 b = Some d" "conds w1 = conds w" "names w2 = names w"
    using run ab by (auto simp: sync_mutex_finalize_def sync_cond_finalize_def free_cond_def os_defs bind_eq_Some_conv
        split: if_splits option.splits)
  have "size A \<le> length ps \<and> mutex_books v a b B D (calls w2) A \<and>
      (if A = {#} then mem w2 a = None \<and> conds w2 b = None
       else \<exists>c d. mem w2 a = Some c \<and> conds w2 b = Some d \<and> mutex_live v a b c d (calls w2) A)" if sh: "short_run ps"
  proof -
    have l: "mutex_live v a b c d (calls w) (add_mset (x, None) A)" "mutex_books v a b B D (calls w) (add_mset (x, None) A)"
        "size A \<le> length ps" using i(5) [OF sh] c by auto
    have z: "of_nat (size A) = (0 :: 32 word) \<longleftrightarrow> A = {#}" using l(3) short_run_refs [OF sh, of "size A"] by simp
    have r: "refs c - 1 = of_nat (size A)" "crefs d - 1 = of_nat (size A)" "boxed c = Some v" using l(1) by (simp_all add: mutex_live_def)
    show ?thesis
    proof (cases "A = {#}")
      case True
      then have "calls w2 = calls w @ [(Decref v, 0), (MutexDestroy a, 0), (Free CoreBlock, 0), (CondDestroy b Cond, 0), (Free CoreBlock, 0)]"
        "mem w2 a = None" "conds w2 b = None"
        using run ab c r z by (auto simp: sync_mutex_finalize_def sync_cond_finalize_def free_cond_def os_defs)
      then show ?thesis using l(2) g True by (simp add: mutex_books_def mutex_run_append mutex_resources_def)
    next
      case False
      then have w2: "calls w2 = calls w" "mem w2 a = Some (c\<lparr>refs := refs c - 1\<rparr>)" "conds w2 b = Some (d\<lparr>crefs := crefs d - 1\<rparr>)"
        using run ab c r z by (auto simp: sync_mutex_finalize_def sync_cond_finalize_def free_cond_def os_defs split: if_splits)
      have "mutex_live v a b (c\<lparr>refs := refs c - 1\<rparr>) (d\<lparr>crefs := crefs d - 1\<rparr>) (calls w) A"
        using l(1) g r by (auto simp: mutex_live_def)
      moreover have "mutex_books v a b B D (calls w) A" using l(2) g False by (simp add: mutex_books_def)
      ultimately show ?thesis using w2 l(3) False by simp
    qed
  qed
  moreover have "count (tids A) u \<le> 1" for u using i(3) [THEN spec, of u] by (simp split: if_splits)
  ultimately show ?thesis using i(2,4) c(4) by (auto simp: mutex_inv_def)
qed

subsection \<open>Mutex and condition variable are a monitor\<close>

lemma mutex_monitor_simps [simp]:
  "site (mutex_monitor a b) = b" "may (mutex_monitor a b) = mutex_may" "enter (mutex_monitor a b) = mutex_enter a"
  "resume (mutex_monitor a b) = mutex_resume a" "pending (mutex_monitor a b) k = CondvarWait"
  by (simp_all add: mutex_monitor_def)

lemma mutex_settle [simp]:
  "image_mset tag (settle (mutex_monitor a b) op x (Wait cv k)) = {#(x, Some k)#}"
  "image_mset tag (settle (mutex_monitor a b) op x (Return r)) =
     (if mutex_drops op then {#} else {#(x, None)#}) + (case mutex_born r of None \<Rightarrow> {#} | Some y \<Rightarrow> {#(y, None)#})"
  by (auto simp: settle_def mutex_monitor_def split: option.splits)

lemma mutex_enter_inv:
  assumes inv: "mutex_inv v a b B D w (add_mset (x, None) A) ps" and may: "mutex_may op x"
    and run: "mutex_enter a os op x w = Some (out, w')"
  shows "mutex_inv v a b B D w' (A + image_mset tag (settle (mutex_monitor a b) op x out)) (record_past op out ps)"
proof (cases op)
  case (MutexShare t)
  then show ?thesis using run mutex_share_inv [OF inv, of t]
    by (auto simp: bind_eq_Some_conv record_past_def add_mset_commute split: if_splits)
next
  case MutexEnter
  then show ?thesis using run may mutex_lock_inv [OF inv]
    by (auto simp: bind_eq_Some_conv record_past_def split: if_splits)
next
  case MutexLeave
  then show ?thesis using run mutex_unlock_inv [OF inv]
    by (auto simp: bind_eq_Some_conv record_past_def)
next
  case CondvarWait
  then show ?thesis using run condvar_wait_inv [OF inv] by (fastforce simp: record_past_def)
next
  case NotifyOne
  then show ?thesis using run mutex_notify_inv [OF inv disjI1] by (auto simp: record_past_def)
next
  case NotifyAll
  then show ?thesis using run mutex_notify_inv [OF inv disjI2] by (auto simp: record_past_def)
next
  case MutexDrop
  then show ?thesis using run may mutex_drop_inv [OF inv] by (auto simp: bind_eq_Some_conv record_past_def)
qed

lemma mutex_resume_inv:
  assumes inv: "mutex_inv v a b B D w (add_mset (x, Some k) A) ps"
    and run: "mutex_resume a os k x w = Some (out, w')"
  shows "mutex_inv v a b B D w' (A + image_mset tag (settle (mutex_monitor a b) CondvarWait x out)) (record_past CondvarWait out ps)"
  using run condvar_wake_inv [of v a b B D w x A ps os] inv
  by (fastforce simp: mutex_resume_def record_past_def split: if_splits)

interpretation mutex: monitor_keeps P "mutex_monitor a b" "mutex_inv v a b B D" for P a b v B D
  by unfold_locales (auto intro: mutex_enter_inv mutex_resume_inv)

subsection \<open>Reachable states\<close>

lemma mutex_boot_cases:
  assumes "mutex_boot os v t w = Some s"
  shows "agents s = {#(\<lparr>self = t, mutex = sync_mutex_wrap (fresh w), condvar = sync_cond_wrap (Suc (fresh w)), guard = None\<rparr>, Ready)#}"
    "past s = []" "names (wrld s) = {t}" "mem (wrld s) (fresh w) = Some \<lparr>refs = 1, boxed = Some v, owner = 0, locked = 0\<rparr>"
    "conds (wrld s) (Suc (fresh w)) = Some \<lparr>crefs = 1\<rparr>"
    "calls (wrld s) = calls w @ [(Calloc CoreBlock, 0), (MutexInit (fresh w), 0), (Calloc CoreBlock, 0), (CondInit (Suc (fresh w)) Cond, 0)]"
  using assms
  by (auto simp: mutex_boot_def sync_mutex_new_def sync_condvar_new_def sync_mutex_wrap_def sync_cond_wrap_def os_defs bind_eq_Some_conv split: if_splits)

lemma mutex_reach:
  assumes boot: "mutex_boot os v t w = Some s" and free: "mutex_state (fresh w) w = Some False"
    and log: "decrefs (calls w) = []" "increfs (calls w) = []" and run: "reach P (mutex_monitor (fresh w) (Suc (fresh w))) s u"
  shows "mutex_inv v (fresh w) (Suc (fresh w)) (\<lambda>r. balance r (calls w)) {#} (wrld u) (mutex_tags u) (past u)"
proof -
  have "mutex.good v (fresh w) (Suc (fresh w)) (\<lambda>r. balance r (calls w)) {#} s"
    using mutex_boot_cases [OF boot] free log
    by (auto simp: mutex.good_def mutex_inv_def mutex_fits_def mutex_books_def mutex_live_def mutex_run_append mutex_state_def
        sync_mutex_wrap_def sync_cond_wrap_def mutex_resources_def short_run_def)
  from mutex.reach_good [OF run this] show ?thesis by (simp add: mutex.good_def mutex_tags_def)
qed

lemma mutex_tagged: "(x, Ready) \<in># agents u \<Longrightarrow> (x, None) \<in># mutex_tags u"
  by (force simp: mutex_tags_def)

subsection \<open>Concrete runs\<close>

lemmas mutex_eval = mutex_boot_def mutex_empty_world_def mutex_first_def sync_mutex_new_def sync_condvar_new_def sync_mutex_wrap_def
  sync_cond_wrap_def quiet_os_def posix_status_def exec_step_def mutex_monitor_def settle_list_def record_past_def new_calls_def
  others_def wake_one_def asleep_on_def rouse_def mutex_resume_def mutex_blocked_def mutex_state_def sync_mutex_lock_get_def
  sync_os_current_thread_id_def sync_mutex_release_unlock_def sync_condvar_wait_start_def sync_condvar_wait_wake_def
  sync_mutex_share_def sync_condvar_share_def sync_mutex_finalize_def sync_cond_finalize_def free_cond_def os_defs

lemma mutex_demo_reach:
  assumes d: "mutex_demo xs = Some u"
  obtains s where "mutex_boot quiet_os 7 1 mutex_empty_world = Some s"
    "reach os_ok (mutex_monitor (fresh mutex_empty_world) (Suc (fresh mutex_empty_world))) s (config_of u)"
proof -
  obtain s where s: "mutex_boot quiet_os 7 1 mutex_empty_world = Some s"
      "exec (mutex_monitor 0 1) quiet_os xs (wrld s, [(mutex_first, Ready)], []) = Some u"
    using d by (auto simp: mutex_demo_def bind_eq_Some_conv)
  from exec_reach [OF s(2), of os_ok]
  have "reach os_ok (mutex_monitor 0 1) (config_of (wrld s, [(mutex_first, Ready)], [])) (config_of u)" by simp
  moreover have "config_of (wrld s, [(mutex_first, Ready)], []) = s"
    using mutex_boot_cases(1,2) [OF s(1)] by (simp add: mutex_first_def mutex_empty_world_def)
  ultimately show thesis using that s(1) by (simp add: mutex_empty_world_def)
qed

lemma mutex_world_clean:
  "mutex_state (fresh mutex_empty_world) mutex_empty_world = Some False" "fresh mutex_empty_world = 0"
  "decrefs (calls mutex_empty_world) = []" "increfs (calls mutex_empty_world) = []"
  by (simp_all add: mutex_empty_world_def mutex_state_def)

section \<open>Properties\<close>

text \<open>
  C5. At most one thread is inside the mutex and not waiting, and exactly then the operating
  system's mutex is held. The flags name that thread, unless the operating system has reported
  a failure of a \<open>wait\<close>.
\<close>

theorem mutex_exclusion:
  assumes boot: "mutex_boot os v t w = Some s" and free: "mutex_state (fresh w) w = Some False"
    and log: "decrefs (calls w) = []" "increfs (calls w) = []" and run: "reach P (mutex_monitor (fresh w) (Suc (fresh w))) s u"
    and short: "short_run (past u)"
  shows "holders (mutex_tags u) \<le> 1 \<and> mutex_state (fresh w) (wrld u) = Some (holders (mutex_tags u) \<noteq> 0) \<and>
    (\<forall>x. (x, Ready) \<in># agents u \<longrightarrow> guard x \<noteq> None \<longrightarrow> wait_failed (fresh w) (calls (wrld u)) \<or>
      (\<exists>c. mem (wrld u) (fresh w) = Some c \<and> locked c \<noteq> 0 \<and> owner c = self x))"
proof -
  note i = mutex_reach [OF boot free log run]
  have b: "mutex_books v (fresh w) (Suc (fresh w)) (\<lambda>r. balance r (calls w)) {#} (calls (wrld u)) (mutex_tags u)"
    using i short by (simp add: mutex_inv_def)
  have "wait_failed (fresh w) (calls (wrld u)) \<or> (\<exists>c. mem (wrld u) (fresh w) = Some c \<and> locked c \<noteq> 0 \<and> owner c = self x)"
    if "(x, Ready) \<in># agents u" "guard x \<noteq> None" for x
  proof -
    have x: "(x, None) \<in># mutex_tags u" by (rule mutex_tagged [OF that(1)])
    then obtain c d where "mem (wrld u) (fresh w) = Some c" "mutex_live v (fresh w) (Suc (fresh w)) c d (calls (wrld u)) (mutex_tags u)"
      using i short by (auto simp: mutex_inv_def split: if_splits)
    then show ?thesis using x that(2) by (fastforce simp: mutex_live_def)
  qed
  then show ?thesis using b by (simp add: mutex_books_def mutex_state_def)
qed

theorem mutex_exclusion_witness:
  "\<exists>u. mutex_demo [Call MutexEnter 0] = Some u \<and> holders (mutex_tags (config_of u)) = 1 \<and>
     mutex_state 0 (wrld (config_of u)) = Some True"
proof -
  obtain u where u: "mutex_demo [Call MutexEnter 0] = Some u" "holders (mutex_tags (config_of u)) = 1" "short_run (past (config_of u))"
    by (simp add: mutex_demo_def mutex_eval mutex_tags_def short_run_def)
  obtain s where s: "mutex_boot quiet_os 7 1 mutex_empty_world = Some s"
      "reach os_ok (mutex_monitor (fresh mutex_empty_world) (Suc (fresh mutex_empty_world))) s (config_of u)"
    by (rule mutex_demo_reach [OF u(1)])
  show ?thesis using u mutex_exclusion [OF s(1) mutex_world_clean(1,3,4) s(2) u(3)] by (simp add: mutex_world_clean(2))
qed



text \<open>
  C27. The reference count is the number of handles. The protected value is released once
  for every \<open>lock_get\<close> that has ended and once more by the last finalizer, which gives back
  the mutex, the condition variable and their memory.
\<close>

theorem mutex_lifetime:
  assumes boot: "mutex_boot os v t w = Some s" and free: "mutex_state (fresh w) w = Some False"
    and log: "decrefs (calls w) = []" "increfs (calls w) = []" and run: "reach P (mutex_monitor (fresh w) (Suc (fresh w))) s u"
    and short: "short_run (past u)"
  shows "case mem (wrld u) (fresh w) of
      Some c \<Rightarrow> agents u \<noteq> {#} \<and> refs c = of_nat (size (agents u)) \<and> boxed c = Some v \<and>
        mset (decrefs (calls (wrld u))) + replicate_mset (guards (mutex_tags u)) v = mset (increfs (calls (wrld u))) \<and>
        (\<forall>r. balance r (calls (wrld u)) = balance r (calls w) + owning (mutex_resources (fresh w) (Suc (fresh w))) r)
    | None \<Rightarrow> agents u = {#} \<and> mset (decrefs (calls (wrld u))) = {#v#} + mset (increfs (calls (wrld u))) \<and>
        (\<forall>r. balance r (calls (wrld u)) = balance r (calls w))"
proof (cases "agents u = {#}")
  case True
  then show ?thesis using mutex_reach [OF boot free log run] short
    by (auto simp: mutex_inv_def mutex_tags_def mutex_books_def)
next
  case False
  then obtain c d where "mem (wrld u) (fresh w) = Some c" "mutex_live v (fresh w) (Suc (fresh w)) c d (calls (wrld u)) (mutex_tags u)"
      "mutex_books v (fresh w) (Suc (fresh w)) (\<lambda>r. balance r (calls w)) {#} (calls (wrld u)) (mutex_tags u)"
    using mutex_reach [OF boot free log run] short by (auto simp: mutex_inv_def mutex_tags_def)
  then show ?thesis using False by (simp add: mutex_live_def mutex_books_def mutex_tags_def)
qed

theorem mutex_lifetime_witness:
  "\<exists>u. mutex_demo [Call MutexEnter 0, Call MutexLeave 0, Call MutexDrop 0] = Some u \<and> agents (config_of u) = {#} \<and>
     mset (decrefs (calls (wrld (config_of u)))) = {#7, 7#}"
proof -
  obtain u where u: "mutex_demo [Call MutexEnter 0, Call MutexLeave 0, Call MutexDrop 0] = Some u" "short_run (past (config_of u))"
      "mem (wrld (config_of u)) 0 = None" "increfs (calls (wrld (config_of u))) = [7]"
    by (simp add: mutex_demo_def mutex_eval short_run_def)
  obtain s where s: "mutex_boot quiet_os 7 1 mutex_empty_world = Some s"
      "reach os_ok (mutex_monitor (fresh mutex_empty_world) (Suc (fresh mutex_empty_world))) s (config_of u)"
    by (rule mutex_demo_reach [OF u(1)])
  show ?thesis using u mutex_lifetime [OF s(1) mutex_world_clean(1,3,4) s(2) u(2)] by (simp add: mutex_world_clean(2))
qed

end
