(* ===== verification/Sync_RwLock.thy ===== *)
theory Sync_RwLock
  imports Sync_Monitor
begin

text \<open>
  The reader-writer lock, \<^verbatim>\<open>src/src/unsafe/rwlock/native.c\<close>: a counted handle around the
  operating system's lock, with injected failures of the constructor, of locking and of
  unlocking. The lock is held across calls of the library, between a lock and the matching
  unlock of \<open>with_read\<close> or \<open>with_write\<close> (\<^verbatim>\<open>src/src/unsafe/rwlock/rwlock.mbt\<close>).
\<close>

section \<open>State\<close>

record sync_rwlock_core_t =
  refs :: sync_arc_t
  initialized :: int

record sync_rwlock_handle_t =
  core :: "addr option"

record rw_world = "(unit, sync_rwlock_core_t) world" +
  next_init_error :: int
  next_lock_error :: int
  next_unlock_error :: int

section \<open>Operations\<close>

definition sync_rwlock_take_test_error :: "int \<Rightarrow> int \<times> int" where
  "sync_rwlock_take_test_error next_error = sync_test_atomic_take next_error"

definition sync_rwlock_finalize :: "unit os \<Rightarrow> sync_rwlock_handle_t \<Rightarrow> rw_world \<Rightarrow> rw_world option" where
  "sync_rwlock_finalize os handle w = (case core handle of None \<Rightarrow> Some w | Some a \<Rightarrow> do {
     c \<leftarrow> mem w a;
     let r = sync_arc_dec (refs c);
     let w = store a (c\<lparr>refs := r\<rparr>) w;
     if r \<noteq> 0 then Some w else do {
       w \<leftarrow> (if initialized c \<noteq> 0 then abort_if_failed (sync_os_rwlock_destroy os a w) else Some w);
       Some (free_core a w)
     }
   })"

definition sync_rwlock_wrap :: "addr \<Rightarrow> sync_rwlock_handle_t" where
  "sync_rwlock_wrap a = \<lparr>core = Some a\<rparr>"

definition sync_rwlock_new ::
  "unit os \<Rightarrow> rw_world \<Rightarrow> ((sync_rwlock_handle_t option \<times> int) \<times> rw_world) option" where
  "sync_rwlock_new os w = do {
     w \<leftarrow> sync_alloc os CoreBlock w;
     let a = fresh w;
     let c = \<lparr>refs = 1, initialized = 0\<rparr>;
     let w = store a c (w\<lparr>fresh := Suc a\<rparr>);
     let (status, w) = sync_os_rwlock_init os a w;
     if status \<noteq> 0 then Some ((None, status), free_core a w) else do {
     let (injected, next) = sync_rwlock_take_test_error (next_init_error w);
     let w = w\<lparr>next_init_error := next\<rparr>;
     if injected \<noteq> 0 then do {
       w \<leftarrow> abort_if_failed (sync_os_rwlock_destroy os a w);
       Some ((None, injected), free_core a w)
     } else Some ((Some (sync_rwlock_wrap a), status), store a (c\<lparr>initialized := 1\<rparr>) w)
     }
   }"

definition sync_rwlock_share ::
  "sync_rwlock_handle_t \<Rightarrow> rw_world \<Rightarrow> (sync_rwlock_handle_t \<times> rw_world) option" where
  "sync_rwlock_share value w = do {
     a \<leftarrow> core value;
     c \<leftarrow> mem w a;
     Some (sync_rwlock_wrap a, store a (c\<lparr>refs := sync_arc_inc (refs c)\<rparr>) w)
   }"

definition sync_rwlock_read_lock ::
  "unit os \<Rightarrow> sync_rwlock_handle_t \<Rightarrow> rw_world \<Rightarrow> (int \<times> rw_world) option" where
  "sync_rwlock_read_lock os value w = do {
     let (injected, next) = sync_rwlock_take_test_error (next_lock_error w);
     let w = w\<lparr>next_lock_error := next\<rparr>;
     if injected \<noteq> 0 then Some (injected, w) else do {
       a \<leftarrow> core value;
       c \<leftarrow> mem w a;
       Some (sync_os_rwlock_read_lock os a w)
     }
   }"

definition sync_rwlock_read_unlock ::
  "unit os \<Rightarrow> sync_rwlock_handle_t \<Rightarrow> rw_world \<Rightarrow> (int \<times> rw_world) option" where
  "sync_rwlock_read_unlock os value w = do {
     a \<leftarrow> core value;
     c \<leftarrow> mem w a;
     let (status, w) = sync_os_rwlock_read_unlock os a w;
     if status \<noteq> 0 then Some (status, w) else do {
       let (injected, next) = sync_rwlock_take_test_error (next_unlock_error w);
       Some (injected, w\<lparr>next_unlock_error := next\<rparr>)
     }
   }"

definition sync_rwlock_write_lock ::
  "unit os \<Rightarrow> sync_rwlock_handle_t \<Rightarrow> rw_world \<Rightarrow> (int \<times> rw_world) option" where
  "sync_rwlock_write_lock os value w = do {
     let (injected, next) = sync_rwlock_take_test_error (next_lock_error w);
     let w = w\<lparr>next_lock_error := next\<rparr>;
     if injected \<noteq> 0 then Some (injected, w) else do {
       a \<leftarrow> core value;
       c \<leftarrow> mem w a;
       Some (sync_os_rwlock_write_lock os a w)
     }
   }"

definition sync_rwlock_write_unlock ::
  "unit os \<Rightarrow> sync_rwlock_handle_t \<Rightarrow> rw_world \<Rightarrow> (int \<times> rw_world) option" where
  "sync_rwlock_write_unlock os value w = do {
     a \<leftarrow> core value;
     c \<leftarrow> mem w a;
     let (status, w) = sync_os_rwlock_write_unlock os a w;
     if status \<noteq> 0 then Some (status, w) else do {
       let (injected, next) = sync_rwlock_take_test_error (next_unlock_error w);
       Some (injected, w\<lparr>next_unlock_error := next\<rparr>)
     }
   }"

definition sync_rwlock_test_fail_next_init :: "int \<Rightarrow> rw_world \<Rightarrow> rw_world" where
  "sync_rwlock_test_fail_next_init status w =
     w\<lparr>next_init_error := sync_test_atomic_store (next_init_error w) status\<rparr>"

definition sync_rwlock_test_fail_next_lock :: "int \<Rightarrow> rw_world \<Rightarrow> rw_world" where
  "sync_rwlock_test_fail_next_lock status w =
     w\<lparr>next_lock_error := sync_test_atomic_store (next_lock_error w) status\<rparr>"

definition sync_rwlock_test_fail_next_unlock :: "int \<Rightarrow> rw_world \<Rightarrow> rw_world" where
  "sync_rwlock_test_fail_next_unlock status w =
     w\<lparr>next_unlock_error := sync_test_atomic_store (next_unlock_error w) status\<rparr>"

section \<open>The operating system's lock\<close>

text \<open>
  The lock of core \<open>a\<close> as the log tells: the number of readers and whether there is a writer, or
  \<open>None\<close> once a call broke the rules (a lock granted against the other holders, an unlock
  without a lock, destroying a lock that is held). As for mutexes, an unlock counts whatever
  its status.
\<close>

fun rw_step :: "addr \<Rightarrow> 'v call \<times> int \<Rightarrow> nat \<times> bool \<Rightarrow> (nat \<times> bool) option" where
  "rw_step a (ReadLock b, st) (r, wr) =
     (if b \<noteq> a \<or> st \<noteq> 0 then Some (r, wr) else if wr then None else Some (Suc r, wr))"
| "rw_step a (ReadUnlock b, st) (r, wr) =
     (if b \<noteq> a then Some (r, wr) else if r = 0 then None else Some (r - 1, wr))"
| "rw_step a (WriteLock b, st) (r, wr) =
     (if b \<noteq> a \<or> st \<noteq> 0 then Some (r, wr) else if wr \<or> r \<noteq> 0 then None else Some (r, True))"
| "rw_step a (WriteUnlock b, st) (r, wr) =
     (if b \<noteq> a then Some (r, wr) else if wr then Some (r, False) else None)"
| "rw_step a (RwDestroy b, st) (r, wr) =
     (if b \<noteq> a then Some (r, wr) else if wr \<or> r \<noteq> 0 then None else Some (r, wr))"
| "rw_step a (k, st) s = Some s"

fun rw_run :: "addr \<Rightarrow> nat \<times> bool \<Rightarrow> 'v history \<Rightarrow> (nat \<times> bool) option" where
  "rw_run a s [] = Some s"
| "rw_run a s (x # xs) = Option.bind (rw_step a x s) (\<lambda>s. rw_run a s xs)"

definition rw_state :: "addr \<Rightarrow> ('v, 'z) base_scheme \<Rightarrow> (nat \<times> bool) option" where
  "rw_state a w = rw_run a (0, False) (calls w)"

section \<open>Threads that use it\<close>

datatype rw_mode = Unlocked | Reading | Writing

datatype rw_agent = RwAgent (rw_handle: sync_rwlock_handle_t) (rw_mode: rw_mode)

datatype rw_op = RwShare | RwRead | RwReadEnd | RwWrite | RwWriteEnd | RwDrop

datatype rw_ret = RwHandle rw_agent int | RwDropped

fun rw_may :: "rw_op \<Rightarrow> rw_agent \<Rightarrow> bool" where
  "rw_may RwShare x = True"
| "rw_may RwReadEnd x = (rw_mode x = Reading)"
| "rw_may RwWriteEnd x = (rw_mode x = Writing)"
| "rw_may _ x = (rw_mode x = Unlocked)"

text \<open>
  A lock that succeeds does so when the other holders permit it; until then the call does not
  return. When unlocking reports an error, \<open>with_read\<close> and \<open>with_write\<close> raise it and the thread
  goes on without the lock.
\<close>

definition read_blocked :: "addr \<Rightarrow> rw_world \<Rightarrow> bool" where
  "read_blocked a w \<longleftrightarrow> (\<exists>s. rw_state a w = Some s \<and> snd s)"

definition write_blocked :: "addr \<Rightarrow> rw_world \<Rightarrow> bool" where
  "write_blocked a w \<longleftrightarrow> (\<exists>s. rw_state a w = Some s \<and> s \<noteq> (0, False))"

fun rw_enter ::
  "addr \<Rightarrow> unit os \<Rightarrow> rw_op \<Rightarrow> rw_agent \<Rightarrow> rw_world \<Rightarrow> ((rw_ret, unit) outcome \<times> rw_world) option" where
  "rw_enter a os RwShare (RwAgent h m) w =
     map_option (\<lambda>(g, w). (Return (RwHandle (RwAgent g Unlocked) 0), w)) (sync_rwlock_share h w)"
| "rw_enter a os RwRead (RwAgent h m) w = do {
     (status, w') \<leftarrow> sync_rwlock_read_lock os h w;
     if status = 0 \<and> read_blocked a w then None
     else Some (Return (RwHandle (RwAgent h (if status = 0 then Reading else Unlocked)) status), w')
   }"
| "rw_enter a os RwReadEnd (RwAgent h m) w =
     map_option (\<lambda>(st, w). (Return (RwHandle (RwAgent h Unlocked) st), w)) (sync_rwlock_read_unlock os h w)"
| "rw_enter a os RwWrite (RwAgent h m) w = do {
     (status, w') \<leftarrow> sync_rwlock_write_lock os h w;
     if status = 0 \<and> write_blocked a w then None
     else Some (Return (RwHandle (RwAgent h (if status = 0 then Writing else Unlocked)) status), w')
   }"
| "rw_enter a os RwWriteEnd (RwAgent h m) w =
     map_option (\<lambda>(st, w). (Return (RwHandle (RwAgent h Unlocked) st), w)) (sync_rwlock_write_unlock os h w)"
| "rw_enter a os RwDrop (RwAgent h m) w = map_option (Pair (Return RwDropped)) (sync_rwlock_finalize os h w)"

fun rw_born :: "rw_ret \<Rightarrow> rw_agent option" where
  "rw_born (RwHandle x st) = Some x"
| "rw_born RwDropped = None"

text \<open>No operation of the lock waits half-way, so there is nothing to resume.\<close>

definition rw_monitor where
  "rw_monitor a = \<lparr>site = a, may = rw_may, enter = rw_enter a, resume = (\<lambda>os k x w. None),
     pending = (\<lambda>k :: unit. RwDrop), drops = (\<lambda>op. op \<noteq> RwShare), born = rw_born\<rparr>"

end
