(* ===== verification/Sync_RwLock_Correct.thy ===== *)
theory Sync_RwLock_Correct
  imports Sync_RwLock
begin

text \<open>
  Correctness of the reader-writer lock: what the threads believe to hold is what the
  operating system's lock has granted, injected failures included. The statements are about
  runs with fewer than \<open>2 ^ 32 - 1\<close> completed operations.
\<close>

section \<open>Specification\<close>

text \<open>Who holds the lock.\<close>

definition readers :: "rw_agent multiset \<Rightarrow> nat" where
  "readers H = size (filter_mset (\<lambda>x. rw_mode x = Reading) H)"

definition writers :: "rw_agent multiset \<Rightarrow> nat" where
  "writers H = size (filter_mset (\<lambda>x. rw_mode x = Writing) H)"

text \<open>The invariant.\<close>

definition rw_inv ::
  "addr \<Rightarrow> (resource \<Rightarrow> int) \<Rightarrow> rw_world \<Rightarrow> rw_agent multiset \<Rightarrow> (rw_op \<times> rw_ret) list \<Rightarrow> bool" where
  "rw_inv a B w H ps \<longleftrightarrow> (\<forall>x \<in># H. core (rw_handle x) = Some a) \<and> (short_run ps \<longrightarrow>
     size H \<le> Suc (length ps) \<and> rw_state a w = Some (readers H, writers H = 1) \<and> writers H \<le> 1 \<and>
     (writers H = 1 \<longrightarrow> readers H = 0) \<and>
     (if H = {#} then mem w a = None \<and> (\<forall>r. balance r (calls w) = B r)
      else mem w a = Some \<lparr>refs = of_nat (size H), initialized = 1\<rparr> \<and>
        (\<forall>r. balance r (calls w) = B r + owning [RwRes a, BlockRes CoreBlock] r)))"

text \<open>A new lock with its first handle.\<close>

definition rw_boot :: "unit os \<Rightarrow> rw_world \<Rightarrow> (unit, _, rw_op, rw_agent, unit, rw_ret) config option" where
  "rw_boot os w = do {
     ((h, status), w) \<leftarrow> sync_rwlock_new os w;
     h \<leftarrow> h;
     Some \<lparr>wrld = w, agents = {#(RwAgent h Unlocked, Ready)#}, past = []\<rparr>
   }"

text \<open>Concrete runs; the first unlock will report the injected error 5.\<close>

definition rw_empty_world :: rw_world where
  "rw_empty_world = \<lparr>calls = [], mem = Map.empty, fresh = 0, next_init_error = 0, next_lock_error = 0, next_unlock_error = 5\<rparr>"

definition rw_demo :: "rw_op choice list \<Rightarrow> (rw_world \<times> (rw_agent \<times> unit mode) list \<times> (rw_op \<times> rw_ret) list) option" where
  "rw_demo xs = do {
     s \<leftarrow> rw_boot quiet_os rw_empty_world;
     exec (rw_monitor 0) quiet_os xs (wrld s, [(RwAgent (sync_rwlock_wrap 0) Unlocked, Ready)], []) }"

section \<open>Lemmas\<close>

subsection \<open>Counting threads\<close>

lemma rw_counts [simp]:
  "readers {#} = 0" "writers {#} = 0"
  "readers (add_mset x H) = (if rw_mode x = Reading then 1 else 0) + readers H"
  "writers (add_mset x H) = (if rw_mode x = Writing then 1 else 0) + writers H"
  by (simp_all add: readers_def writers_def)

lemma rw_run_append: "rw_run a s (xs @ ys) = Option.bind (rw_run a s xs) (\<lambda>s. rw_run a s ys)"
  by (induction xs arbitrary: s) (auto split: Option.bind_splits)

lemmas rw_defs = os_defs sync_rwlock_take_test_error_def rw_state_def rw_run_append

subsection \<open>The operations keep the invariant\<close>

lemma rw_invD:
  assumes "rw_inv a B w (add_mset (RwAgent h m) H) ps"
  shows "core h = Some a" "\<forall>x \<in># H. core (rw_handle x) = Some a"
    "short_run ps \<Longrightarrow> size H \<le> length ps \<and> rw_state a w = Some (readers (add_mset (RwAgent h m) H), writers (add_mset (RwAgent h m) H) = 1) \<and>
       writers (add_mset (RwAgent h m) H) \<le> 1 \<and> (writers (add_mset (RwAgent h m) H) = 1 \<longrightarrow> readers (add_mset (RwAgent h m) H) = 0) \<and>
       mem w a = Some \<lparr>refs = of_nat (Suc (size H)), initialized = 1\<rparr> \<and>
       (\<forall>r. balance r (calls w) = B r + owning [RwRes a, BlockRes CoreBlock] r)"
  using assms by (auto simp: rw_inv_def)

text \<open>A call on the lock that keeps the core and may change what the caller holds.\<close>

lemma rw_change:
  assumes inv: "rw_inv a B w (add_mset (RwAgent h m) H) ps" and w': "calls w' = calls w @ ks" "mem w' = mem w"
    and ks: "\<And>r. balance r ks = 0"
    and rw: "\<And>r wr. short_run ps \<Longrightarrow> rw_state a w = Some (r, wr) \<Longrightarrow> r = readers (add_mset (RwAgent h m) H) \<Longrightarrow>
      wr = (writers (add_mset (RwAgent h m) H) = 1) \<Longrightarrow> writers (add_mset (RwAgent h m) H) \<le> 1 \<Longrightarrow> (wr \<longrightarrow> r = 0) \<Longrightarrow>
      rw_run a (r, wr) ks = Some (readers (add_mset (RwAgent h m') H), writers (add_mset (RwAgent h m') H) = 1) \<and>
      writers (add_mset (RwAgent h m') H) \<le> 1 \<and> (writers (add_mset (RwAgent h m') H) = 1 \<longrightarrow> readers (add_mset (RwAgent h m') H) = 0)"
  shows "rw_inv a B w' (add_mset (RwAgent h m') H) (ps @ [x])"
proof -
  note i = rw_invD [OF inv]
  have "size H \<le> length ps \<and> rw_state a w' = Some (readers (add_mset (RwAgent h m') H), writers (add_mset (RwAgent h m') H) = 1) \<and>
      writers (add_mset (RwAgent h m') H) \<le> 1 \<and> (writers (add_mset (RwAgent h m') H) = 1 \<longrightarrow> readers (add_mset (RwAgent h m') H) = 0)" if "short_run ps"
    using i(3) [OF that] rw [OF that] w'(1) by (simp add: rw_state_def rw_run_append)
  then show ?thesis using i w' ks by (auto simp: rw_inv_def)
qed

lemma rw_read_inv:
  assumes inv: "rw_inv a B w (add_mset (RwAgent h Unlocked) H) ps" and run: "sync_rwlock_read_lock os h w = Some (st, w')"
    and nb: "\<not> (st = 0 \<and> read_blocked a w)"
  shows "rw_inv a B w' (add_mset (RwAgent h (if st = 0 then Reading else Unlocked)) H) (ps @ [x])"
proof -
  obtain ks where w': "calls w' = calls w @ ks" "mem w' = mem w" "ks = [] \<and> st \<noteq> 0 \<or> ks = [(ReadLock a, st)]"
    using run rw_invD(1) [OF inv] by (cases "next_lock_error w = 0") (auto simp: sync_rwlock_read_lock_def rw_defs bind_eq_Some_conv)
  show ?thesis
    by (rule rw_change [OF inv w'(1,2)]) (use w'(3) nb in \<open>auto simp: read_blocked_def\<close>)
qed

lemma rw_write_inv:
  assumes inv: "rw_inv a B w (add_mset (RwAgent h Unlocked) H) ps" and run: "sync_rwlock_write_lock os h w = Some (st, w')"
    and nb: "\<not> (st = 0 \<and> write_blocked a w)"
  shows "rw_inv a B w' (add_mset (RwAgent h (if st = 0 then Writing else Unlocked)) H) (ps @ [x])"
proof -
  obtain ks where w': "calls w' = calls w @ ks" "mem w' = mem w" "ks = [] \<and> st \<noteq> 0 \<or> ks = [(WriteLock a, st)]"
    using run rw_invD(1) [OF inv] by (cases "next_lock_error w = 0") (auto simp: sync_rwlock_write_lock_def rw_defs bind_eq_Some_conv)
  show ?thesis
    by (rule rw_change [OF inv w'(1,2)]) (use w'(3) nb in \<open>auto simp: write_blocked_def\<close>)
qed

lemma rw_read_end_inv:
  assumes inv: "rw_inv a B w (add_mset (RwAgent h Reading) H) ps" and run: "sync_rwlock_read_unlock os h w = Some (st, w')"
  shows "rw_inv a B w' (add_mset (RwAgent h Unlocked) H) (ps @ [x])"
proof -
  obtain st' where w': "calls w' = calls w @ [(ReadUnlock a, st')]" "mem w' = mem w"
    using run rw_invD(1) [OF inv] by (auto simp: sync_rwlock_read_unlock_def rw_defs bind_eq_Some_conv split: if_splits)
  show ?thesis by (rule rw_change [OF inv w']) auto
qed

lemma rw_write_end_inv:
  assumes inv: "rw_inv a B w (add_mset (RwAgent h Writing) H) ps" and run: "sync_rwlock_write_unlock os h w = Some (st, w')"
  shows "rw_inv a B w' (add_mset (RwAgent h Unlocked) H) (ps @ [x])"
proof -
  obtain st' where w': "calls w' = calls w @ [(WriteUnlock a, st')]" "mem w' = mem w"
    using run rw_invD(1) [OF inv] by (auto simp: sync_rwlock_write_unlock_def rw_defs bind_eq_Some_conv split: if_splits)
  show ?thesis by (rule rw_change [OF inv w']) auto
qed

lemma rw_share_inv:
  assumes inv: "rw_inv a B w (add_mset (RwAgent h m) H) ps" and run: "sync_rwlock_share h w = Some (g, w')"
  shows "rw_inv a B w' (add_mset (RwAgent g Unlocked) (add_mset (RwAgent h m) H)) (ps @ [x])"
  using rw_invD [OF inv] run
  by (auto simp: rw_inv_def sync_rwlock_share_def sync_rwlock_wrap_def rw_defs bind_eq_Some_conv)

lemma rw_drop_inv:
  assumes inv: "rw_inv a B w (add_mset (RwAgent h Unlocked) H) ps" and run: "sync_rwlock_finalize os h w = Some w'"
  shows "rw_inv a B w' H (ps @ [x])"
proof (cases "short_run ps")
  case True
  note i = rw_invD [OF inv]
  have z: "of_nat (size H) = (0 :: 32 word) \<longleftrightarrow> H = {#}" using i(3) [OF True] short_run_refs [OF True, of "size H"] by simp
  show ?thesis
  proof (cases "H = {#}")
    case True
    then show ?thesis using i run \<open>short_run ps\<close>
      by (auto simp: rw_inv_def sync_rwlock_finalize_def rw_defs)
  next
    case False
    then show ?thesis using i run z \<open>short_run ps\<close>
      by (auto simp: rw_inv_def sync_rwlock_finalize_def rw_defs)
  qed
qed (use inv in \<open>auto simp: rw_inv_def\<close>)

subsection \<open>The lock is a monitor\<close>

lemma rw_monitor_simps [simp]:
  "site (rw_monitor a) = a" "may (rw_monitor a) = rw_may" "enter (rw_monitor a) = rw_enter a"
  "resume (rw_monitor a) os k x w = None"
  by (simp_all add: rw_monitor_def)

lemma rw_settle:
  "settle (rw_monitor a) op x (Return r) =
     (if op = RwShare then {#(x, Ready)#} else {#}) + (case rw_born r of None \<Rightarrow> {#} | Some y \<Rightarrow> {#(y, Ready)#})"
  by (auto simp: settle_def rw_monitor_def)

lemma rw_enter_returns: "rw_enter a os op x w = Some (out, w') \<Longrightarrow> \<exists>r. out = Return r"
  by (cases op; cases x) (auto simp: bind_eq_Some_conv split: if_splits)

lemma rw_enter_inv:
  assumes inv: "rw_inv a B w (add_mset x H) ps" and may: "rw_may op x" and run: "rw_enter a os op x w = Some (out, w')"
  shows "rw_inv a B w' (H + image_mset fst (settle (rw_monitor a) op x out)) (record_past op out ps)"
proof -
  obtain h m where x: "x = RwAgent h m" by (cases x)
  show ?thesis
  proof (cases op)
    case RwShare
    then show ?thesis using run x rw_share_inv [OF inv [unfolded x]]
      by (auto simp: record_past_def rw_settle add_mset_commute)
  next
    case RwRead
    then obtain st where r: "sync_rwlock_read_lock os h w = Some (st, w')" "\<not> (st = 0 \<and> read_blocked a w)"
        "out = Return (RwHandle (RwAgent h (if st = 0 then Reading else Unlocked)) st)" and m: "m = Unlocked"
      using run may x by (auto simp: bind_eq_Some_conv split: if_splits)
    show ?thesis using rw_read_inv [OF inv [unfolded x m] r(1,2)] r(3) \<open>op = RwRead\<close>
      by (simp add: record_past_def rw_settle)
  next
    case RwReadEnd
    then show ?thesis using run may x rw_read_end_inv [of a B w h H ps] inv by (auto simp: record_past_def rw_settle)
  next
    case RwWrite
    then obtain st where r: "sync_rwlock_write_lock os h w = Some (st, w')" "\<not> (st = 0 \<and> write_blocked a w)"
        "out = Return (RwHandle (RwAgent h (if st = 0 then Writing else Unlocked)) st)" and m: "m = Unlocked"
      using run may x by (auto simp: bind_eq_Some_conv split: if_splits)
    show ?thesis using rw_write_inv [OF inv [unfolded x m] r(1,2)] r(3) \<open>op = RwWrite\<close>
      by (simp add: record_past_def rw_settle)
  next
    case RwWriteEnd
    then show ?thesis using run may x rw_write_end_inv [of a B w h H ps] inv by (auto simp: record_past_def rw_settle)
  next
    case RwDrop
    then show ?thesis using run may x rw_drop_inv [of a B w h H ps] inv by (auto simp: record_past_def rw_settle)
  qed
qed

interpretation rw: monitor_inv P "rw_monitor a" "rw_inv a B" "\<lambda>_ _. False" for P a B
proof (unfold_locales, goal_cases)
  case (2 os op h w H ps out w')
  then show ?case using rw_enter_returns [of a os op h w out w'] by (auto simp: rw_settle split: option.splits)
qed (auto intro: rw_enter_inv)

subsection \<open>Reachable states\<close>

lemma rw_boot_inv:
  assumes boot: "rw_boot os w = Some s" and free: "rw_state (fresh w) w = Some (0, False)"
  shows "rw.good (fresh w) (\<lambda>r. balance r (calls w)) s" "agents s = {#(RwAgent (sync_rwlock_wrap (fresh w)) Unlocked, Ready)#}" "past s = []"
  using boot free
  by (auto simp: rw_boot_def sync_rwlock_new_def sync_rwlock_wrap_def rw_defs rw.good_iff rw_inv_def bind_eq_Some_conv split: if_splits)

lemma rw_reach:
  assumes boot: "rw_boot os w = Some s" and free: "rw_state (fresh w) w = Some (0, False)" and run: "reach P (rw_monitor (fresh w)) s t"
  shows "rw_inv (fresh w) (\<lambda>r. balance r (calls w)) (wrld t) (image_mset fst (agents t)) (past t)"
  by (rule rw.reach_inv [OF run rw_boot_inv(1) [OF boot free]])

subsection \<open>Concrete runs\<close>

lemmas rw_eval = rw_demo_def rw_boot_def rw_empty_world_def sync_rwlock_new_def sync_rwlock_wrap_def sync_rwlock_share_def
  sync_rwlock_read_lock_def sync_rwlock_write_lock_def sync_rwlock_read_unlock_def sync_rwlock_write_unlock_def sync_rwlock_finalize_def
  read_blocked_def write_blocked_def quiet_os_def posix_status_def exec_step_def rw_monitor_def settle_list_def record_past_def
  new_calls_def others_def wake_one_def rw_defs

lemma rw_demo_reach:
  assumes d: "rw_demo xs = Some t"
  obtains s where "rw_boot quiet_os rw_empty_world = Some s" "reach os_ok (rw_monitor (fresh rw_empty_world)) s (config_of t)"
proof -
  obtain s where s: "rw_boot quiet_os rw_empty_world = Some s"
      "exec (rw_monitor 0) quiet_os xs (wrld s, [(RwAgent (sync_rwlock_wrap 0) Unlocked, Ready)], []) = Some t"
    using d by (auto simp: rw_demo_def bind_eq_Some_conv)
  have f: "rw_state (fresh rw_empty_world) rw_empty_world = Some (0, False)" by (simp add: rw_empty_world_def rw_state_def)
  from exec_reach [OF s(2), of os_ok]
  have "reach os_ok (rw_monitor 0) (config_of (wrld s, [(RwAgent (sync_rwlock_wrap 0) Unlocked, Ready)], [])) (config_of t)" by simp
  moreover have "config_of (wrld s, [(RwAgent (sync_rwlock_wrap 0) Unlocked, Ready)], []) = s"
    using rw_boot_inv(2,3) [OF s(1) f] by (simp add: rw_empty_world_def)
  ultimately show thesis using that s(1) by (simp add: rw_empty_world_def)
qed

lemma rw_world_clean: "rw_state (fresh rw_empty_world) rw_empty_world = Some (0, False)" "fresh rw_empty_world = 0"
  by (simp_all add: rw_empty_world_def rw_state_def)

section \<open>Properties\<close>

text \<open>
  C11. There is at most one writer and never a writer with readers; the operating system's
  lock is held by exactly the threads that are inside \<open>with_read\<close> or \<open>with_write\<close>. So a lock that
  reports an injected failure has not taken the lock, and an unlock that reports one has
  released it.
\<close>

theorem rwlock_exclusion:
  assumes boot: "rw_boot os w = Some s" and free: "rw_state (fresh w) w = Some (0, False)" and run: "reach P (rw_monitor (fresh w)) s t"
    and short: "short_run (past t)"
  shows "writers (image_mset fst (agents t)) \<le> 1 \<and>
    (writers (image_mset fst (agents t)) = 1 \<longrightarrow> readers (image_mset fst (agents t)) = 0) \<and>
    rw_state (fresh w) (wrld t) = Some (readers (image_mset fst (agents t)), writers (image_mset fst (agents t)) = 1)"
  using rw_reach [OF boot free run] short by (simp add: rw_inv_def)

theorem rwlock_exclusion_witness:
  "\<exists>t. rw_demo [Call RwShare 0, Call RwRead 0, Call RwRead 0, Call RwReadEnd 0] = Some t \<and>
     (RwReadEnd, RwHandle (RwAgent (sync_rwlock_wrap 0) Unlocked) 5) \<in> set (past (config_of t)) \<and>
     readers (image_mset fst (agents (config_of t))) = 1 \<and> rw_state 0 (wrld (config_of t)) = Some (1, False)"
proof -
  obtain t where t: "rw_demo [Call RwShare 0, Call RwRead 0, Call RwRead 0, Call RwReadEnd 0] = Some t" "short_run (past (config_of t))"
      "(RwReadEnd, RwHandle (RwAgent (sync_rwlock_wrap 0) Unlocked) 5) \<in> set (past (config_of t))"
      "readers (image_mset fst (agents (config_of t))) = 1"
    by (simp add: rw_eval short_run_def)
  obtain s where s: "rw_boot quiet_os rw_empty_world = Some s" "reach os_ok (rw_monitor (fresh rw_empty_world)) s (config_of t)"
    by (rule rw_demo_reach [OF t(1)])
  show ?thesis using t rwlock_exclusion [OF s(1) rw_world_clean(1) s(2) t(2)] by (auto simp: rw_world_clean(2))
qed

text \<open>
  The reference count is the number of handles and the last finalizer gives back the
  lock and its memory.
\<close>

theorem rwlock_lifetime:
  assumes boot: "rw_boot os w = Some s" and free: "rw_state (fresh w) w = Some (0, False)" and run: "reach P (rw_monitor (fresh w)) s t"
    and short: "short_run (past t)"
  shows "case mem (wrld t) (fresh w) of
      Some c \<Rightarrow> agents t \<noteq> {#} \<and> refs c = of_nat (size (agents t)) \<and>
        (\<forall>r. balance r (calls (wrld t)) = balance r (calls w) + owning [RwRes (fresh w), BlockRes CoreBlock] r)
    | None \<Rightarrow> agents t = {#} \<and> (\<forall>r. balance r (calls (wrld t)) = balance r (calls w))"
  using rw_reach [OF boot free run] short by (cases "agents t = {#}") (simp_all add: rw_inv_def)

theorem rwlock_lifetime_witness:
  "\<exists>t. rw_demo [Call RwWrite 0, Call RwWriteEnd 0, Call RwDrop 0] = Some t \<and> agents (config_of t) = {#} \<and>
     balance (RwRes 0) (calls (wrld (config_of t))) = 0"
proof -
  obtain t where t: "rw_demo [Call RwWrite 0, Call RwWriteEnd 0, Call RwDrop 0] = Some t" "short_run (past (config_of t))"
      "mem (wrld (config_of t)) 0 = None"
    by (simp add: rw_eval short_run_def)
  obtain s where s: "rw_boot quiet_os rw_empty_world = Some s" "reach os_ok (rw_monitor (fresh rw_empty_world)) s (config_of t)"
    by (rule rw_demo_reach [OF t(1)])
  show ?thesis using t rwlock_lifetime [OF s(1) rw_world_clean(1) s(2) t(2)] by (simp add: rw_world_clean(2)) (simp add: rw_empty_world_def)
qed

end
