(* ===== verification/Sync_OwnedBytes_Refine.thy ===== *)
theory Sync_OwnedBytes_Refine
  imports Sync_OwnedBytes_Correct
begin

text \<open>
  The owned-bytes channel implements a queue of byte strings with three limits, two flags and
  the number of its producers.
  A send gives the mutex up to make its copy, so one call is several pieces of code; every
  piece either leaves the abstract queue alone and goes on, or is the one step of the
  specification.
\<close>

section \<open>The specification\<close>

record byte_queue =
  items :: "bytes list"
  bound :: int
  message_limit :: int
  byte_limit :: int
  is_open :: bool
  listening :: bool
  producers :: nat

text \<open>\<open>None\<close>: the call blocks. A call that must not block gets the code of the reason instead.\<close>

definition spec_submit :: "bytes \<Rightarrow> bool \<Rightarrow> byte_queue \<Rightarrow> owned_ret option \<times> byte_queue" where
  "spec_submit b blocks q =
     (let code = (\<lambda>n. Some (Submitted (n, 0))); n = int (length b); total = int (sum_list (map length (items q)))
      in if n > message_limit q then (code 3, q)
         else if \<not> is_open q \<or> \<not> listening q then (code 2, q)
         else if int (length (items q)) = bound q then (if blocks then None else code 1, q)
         else if total + n > byte_limit q then (if blocks then None else code 4, q)
         else (code 0, q\<lparr>items := items q @ [b]\<rparr>))"

definition spec_take :: "bool \<Rightarrow> byte_queue \<Rightarrow> owned_ret option \<times> byte_queue" where
  "spec_take blocks q = (case items q of
      [] \<Rightarrow> (if \<not> is_open q then Some (Received (None, 2, 0))
             else if blocks then None else Some (Received (None, 1, 0)), q)
    | b # bs \<Rightarrow> (Some (Received (Some b, 0, 0)), q\<lparr>items := bs\<rparr>))"

definition spec_owned_drop :: "sync_owned_bytes_channel_handle_t \<Rightarrow> byte_queue \<Rightarrow> byte_queue" where
  "spec_owned_drop h q =
     (if role h = 1 then q\<lparr>producers := producers q - 1, is_open := is_open q \<and> producers q \<noteq> 1\<rparr>
      else if listening q then q\<lparr>is_open := False, listening := False\<rparr> else q)"

text \<open>
  An operation called on the handle \<open>h\<close>; \<open>e\<close> is the error that the test hook has injected,
  which the sends report without looking at the queue.
\<close>

fun spec_owned ::
  "int \<Rightarrow> sync_owned_bytes_channel_handle_t \<Rightarrow> owned_op \<Rightarrow> byte_queue \<Rightarrow> owned_ret option \<times> byte_queue" where
  "spec_owned e h (TrySend b) q = (if e \<noteq> 0 then (Some (Submitted (2, e)), q) else spec_submit b False q)"
| "spec_owned e h (Send b) q = (if e \<noteq> 0 then (Some (Submitted (2, e)), q) else spec_submit b True q)"
| "spec_owned e h TryRecv q = spec_take False q"
| "spec_owned e h Recv q = spec_take True q"
| "spec_owned e h SenderClose q = (Some (Status 0), q\<lparr>is_open := False\<rparr>)"
| "spec_owned e h ReceiverClose q = (Some (Status 0), q\<lparr>is_open := False, listening := False\<rparr>)"
| "spec_owned e h Len q = (Some (Number (int (length (items q))) 0), q)"
| "spec_owned e h Share q = (Some (Handle (Some h) 0), q\<lparr>producers := Suc (producers q)\<rparr>)"
| "spec_owned e h Finalize q = (Some Dropped, spec_owned_drop h q)"

section \<open>The abstraction\<close>

definition payload :: "sync_owned_bytes_message_t \<Rightarrow> bytes" where
  "payload m = (case data m of None \<Rightarrow> [] | Some bs \<Rightarrow> bs)"

definition abs_owned :: "sync_owned_bytes_channel_core_t \<Rightarrow> byte_queue" where
  "abs_owned c = \<lparr>items = map payload (ring_list (slots c) (head c) (count c)), bound = capacity c,
     message_limit = max_message_bytes c, byte_limit = max_queued_bytes c, is_open = (closed c = 0),
     listening = (receiver_alive c \<noteq> 0), producers = nat (senders c)\<rparr>"

text \<open>A piece of code refines the specification of its operation.\<close>

definition refines ::
  "int \<Rightarrow> sync_owned_bytes_channel_handle_t \<Rightarrow> owned_op \<Rightarrow> byte_queue \<Rightarrow> (owned_ret, owned_k) outcome \<Rightarrow> byte_queue \<Rightarrow> bool" where
  "refines e h op q out q' \<longleftrightarrow>
     (case out of Again k \<Rightarrow> owned_pending k = op \<and> q' = q | _ \<Rightarrow> spec_owned e h op q = (returned out, q'))"

lemma payload_copy [simp]: "payload (copy_message b) = b"
  by (simp add: payload_def copy_message_def)

lemma abs_owned_items:
  assumes "queue_ok cap mm mq c bs"
  shows "abs_owned c = \<lparr>items = bs, bound = cap, message_limit = mm, byte_limit = mq, is_open = (closed c = 0),
    listening = (receiver_alive c \<noteq> 0), producers = nat (senders c)\<rparr>"
  using assms by (simp add: abs_owned_def queue_ok_def comp_def)

section \<open>Every piece refines its operation\<close>

lemma mem_message_release [simp]: "mem (sync_owned_bytes_message_release m w) = mem w"
  by (auto simp: sync_owned_bytes_message_release_def free_data_def os_defs split: option.splits)

lemma submit_loop_refines:
  assumes ok: "os_ok os" and m: "mem w a = Some c" and q: "queue_ok cap mm mq c bs" and len: "int (length b) \<le> mm"
    and k: "\<And>m. message = Some m \<Longrightarrow> m = copy_message b"
    and run: "sync_owned_bytes_submit_loop os a b block message 0 w = Some (out, w')"
  shows "\<exists>c'. mem w' a = Some c' \<and>
    refines 0 h (if block \<noteq> 0 then Send b else TrySend b) (abs_owned c) (map_outcome Submitted id out) (abs_owned c')"
proof -
  note eq = submit_loop_eq [OF m q, of os b block message 0] and D = queue_okD [OF q]
  let ?fits = "int (length b) \<le> mq - queued_bytes c" and ?open = "closed c = 0 \<and> receiver_alive c \<noteq> 0"
  have lim: "int (length bs) = cap \<longleftrightarrow> count c = capacity c"
      "int (sum_list (map length bs)) + int (length b) > mq \<longleftrightarrow> \<not> ?fits"
    using D by auto
  have abs: "abs_owned c = \<lparr>items = bs, bound = cap, message_limit = mm, byte_limit = mq, is_open = (closed c = 0),
      listening = (receiver_alive c \<noteq> 0), producers = nat (senders c)\<rparr>"
    by (rule abs_owned_items [OF q])
  consider (wait) "block \<noteq> 0" "?open" "count c = capacity c \<or> \<not> ?fits"
    | (shut) "\<not> ?open" | (full) "?open" "block = 0" "count c = capacity c"
    | (big) "?open" "block = 0" "count c \<noteq> capacity c" "\<not> ?fits"
    | (copy) "?open" "count c \<noteq> capacity c" "?fits" "message = None"
    | (commit) "?open" "count c \<noteq> capacity c" "?fits" "message = Some (copy_message b)"
    using k by (cases message) blast+
  then show ?thesis
  proof cases
    case wait
    then have "out = Wait Writable (SubmitWaitK b message 0)" "mem w' = mem w"
      using run eq by (auto simp: os_defs)
    then show ?thesis using wait m len lim by (auto simp: refines_def spec_submit_def abs)
  next
    case shut
    then have "out = Return (2, 0)" "mem w' = mem w" using run eq ok by (auto simp: submit_fail_def os_defs)
    then show ?thesis using shut m len by (auto simp: refines_def spec_submit_def abs)
  next
    case full
    then have "out = Return (1, 0)" "mem w' = mem w" using run eq ok by (auto simp: submit_fail_def os_defs)
    then show ?thesis using full m len lim by (auto simp: refines_def spec_submit_def abs)
  next
    case big
    then have "out = Return (4, 0)" "mem w' = mem w" using run eq ok by (auto simp: submit_fail_def os_defs)
    then show ?thesis using big m len lim by (auto simp: refines_def spec_submit_def abs)
  next
    case copy
    then have "submit_copy os a b block 0 w = Some (out, w')" using run eq by simp
    then have "\<exists>m. out = Again (SubmitLockK b block m)" "mem w' = mem w"
      using ok by (cases "b = []"; auto simp: submit_copy_def sync_owned_bytes_message_copy_def os_defs)+
    then show ?thesis using m by (auto simp: refines_def)
  next
    case commit
    then have "submit_commit os a (copy_message b) (int (length b)) 0 w = Some (out, w')" using run eq by simp
    then have "out = Return (0, 0)" "mem w' a = Some (enqueued b c)"
      using ok submit_commit_eq [OF m q commit(2,3), of os 0] by auto
    then show ?thesis
      using commit len lim abs_owned_items [OF enqueued_ok [OF q commit(2) len commit(3)]] by (auto simp: refines_def spec_submit_def abs)
  qed
qed

lemma submit_lock_refines:
  assumes ok: "os_ok os" and m: "mem w a = Some c" and q: "queue_ok cap mm mq c bs"
    and k: "\<And>m. message = Some m \<Longrightarrow> m = copy_message b"
    and run: "sync_owned_bytes_submit_lock os a b block message w = Some (out, w')"
  shows "\<exists>c'. mem w' a = Some c' \<and>
    refines 0 h (if block \<noteq> 0 then Send b else TrySend b) (abs_owned c) (map_outcome Submitted id out) (abs_owned c')"
proof (cases "int (length b) \<le> mm")
  case True
  let ?w = "w\<lparr>calls := calls w @ [(MutexLock a, 0)]\<rparr>"
  have "sync_owned_bytes_submit_loop os a b block message 0 ?w = Some (out, w')" "mem ?w a = Some c"
    using run ok m True queue_okD(7) [OF q] by (simp_all add: sync_owned_bytes_submit_lock_def os_defs)
  then show ?thesis using submit_loop_refines [OF ok _ q True k] by blast
next
  case False
  have "out = Return (3, 0)" "mem w' = mem w"
    using run ok m False queue_okD(7) [OF q] by (auto simp: sync_owned_bytes_submit_lock_def submit_fail_def os_defs)
  then show ?thesis using m False abs_owned_items [OF q] by (auto simp: refines_def spec_submit_def)
qed

lemma take_refines:
  assumes ok: "os_ok os" and m: "mem w a = Some c" and q: "queue_ok cap mm mq c bs"
    and run: "sync_owned_bytes_receive_loop os a block 0 w = Some (out, w')"
  shows "\<exists>c'. mem w' a = Some c' \<and>
    refines e h (if block \<noteq> 0 then Recv else TryRecv) (abs_owned c) (map_outcome Received id out) (abs_owned c')"
proof (cases bs)
  case Nil
  then show ?thesis
    using run owned_receive_ok [OF ok m q, of block 0] m abs_owned_items [OF q]
    by (auto simp: refines_def spec_take_def split: if_splits)
next
  case (Cons b bs')
  then show ?thesis
    using run owned_receive_ok [OF ok m q, of block 0] m abs_owned_items [OF q] dequeued_ok(2) [OF q [unfolded Cons]]
      abs_owned_items [OF dequeued_ok(2) [OF q [unfolded Cons]]]
    by (auto simp: refines_def spec_take_def)
qed

lemma owned_call_refines:
  assumes ok: "os_ok os" and h: "core h = Some a" and m: "mem w a = Some c" and q: "queue_ok cap mm mq c bs"
    and op: "op \<noteq> Share" "op \<noteq> Finalize"
    and run: "owned_enter os op h w = Some (out, w')"
  shows "\<exists>c'. mem w' a = Some c' \<and> refines (next_operation_error w) h op (abs_owned c) out (abs_owned c')"
proof -
  have submit: "\<exists>c'. mem w' a = Some c' \<and>
      refines (next_operation_error w) h (if block \<noteq> 0 then Send b else TrySend b) (abs_owned c) (map_outcome Submitted id out') (abs_owned c')"
    if "sync_owned_bytes_submit_start os h b block w = Some (out', w')" for b block out'
  proof (cases "next_operation_error w = 0")
    case True
    have e: "w\<lparr>next_operation_error := 0\<rparr> = w" using True by (cases w) simp
    have "sync_owned_bytes_submit_lock os a b block None (w\<lparr>next_operation_error := 0\<rparr>) = Some (out', w')"
      using that True h by (simp add: sync_owned_bytes_submit_start_def os_defs
          sync_owned_bytes_channel_test_take_next_operation_error_def)
    then show ?thesis using submit_lock_refines [OF ok m q] unfolding e True by blast
  next
    case False
    then have "out' = Return (2, next_operation_error w)" "mem w' = mem w"
      using that h by (auto simp: sync_owned_bytes_submit_start_def os_defs
          sync_owned_bytes_channel_test_take_next_operation_error_def)
    then show ?thesis using m False by (simp add: refines_def)
  qed
  have receive: "\<exists>c'. mem w' a = Some c' \<and>
      refines (next_operation_error w) h (if block \<noteq> 0 then Recv else TryRecv) (abs_owned c) (map_outcome Received id out') (abs_owned c')"
    if "sync_owned_bytes_receive_start os h block w = Some (out', w')" for block out'
  proof -
    let ?w = "w\<lparr>calls := calls w @ [(MutexLock a, 0)]\<rparr>"
    have l: "sync_owned_bytes_receive_loop os a block 0 ?w = Some (out', w')"
      using that ok h by (simp add: sync_owned_bytes_receive_start_def os_defs)
    have m': "mem ?w a = Some c" using m by simp
    show ?thesis by (rule take_refines [OF ok m' q l])
  qed
  have n: "count c = int (length bs)" by (rule queue_okD(2) [OF q])
  show ?thesis
  proof (cases op)
    case (TrySend b)
    then show ?thesis using run submit [of b 0] by auto
  next
    case (Send b)
    then show ?thesis using run submit [of b 1] by auto
  next
    case TryRecv
    then show ?thesis using run receive [of 0] by auto
  next
    case Recv
    then show ?thesis using run receive [of 1] by auto
  next
    case SenderClose
    then show ?thesis using run ok h m
      by (auto simp: sync_owned_bytes_sender_close_def close_owned_def os_defs refines_def abs_owned_def)
  next
    case ReceiverClose
    then show ?thesis using run ok h m
      by (auto simp: sync_owned_bytes_receiver_close_def close_owned_def os_defs refines_def abs_owned_def)
  next
    case Len
    then show ?thesis using run ok h m n abs_owned_items [OF q]
      by (auto simp: sync_owned_bytes_receiver_len_def os_defs refines_def)
  qed (use op in auto)
qed

lemma owned_share_refines:
  assumes ok: "os_ok os" and c: "core h = Some a" "mem w a = Some c" "0 \<le> senders c" "role h = 1"
    and run: "sync_owned_bytes_sender_share os h w = Some ((g, st), w')"
  shows "g = Some h" "st = 0" "map_option abs_owned (mem w' a) = Some ((abs_owned c)\<lparr>producers := Suc (nat (senders c))\<rparr>)"
  using run c ok
  by (auto simp: sync_owned_bytes_sender_share_def sync_owned_bytes_wrap_def os_defs i32_add_def abs_owned_def nat_add_distrib
      bind_eq_Some_conv split: if_splits)

lemma abs_owned_dropped:
  "0 \<le> senders c \<Longrightarrow> role h = 1 \<or> role h = 2 \<Longrightarrow> abs_owned ((owned_dropped h c)\<lparr>refs := r\<rparr>) = spec_owned_drop h (abs_owned c)"
  by (auto simp: owned_dropped_def owned_closes_def spec_owned_drop_def abs_owned_def nat_diff_distrib)

lemma owned_finalize_refines:
  assumes inv: "owned_inv cap mm mq a B w (add_mset h H) F ps" and c: "mem w a = Some c"
    and run: "sync_owned_bytes_finalize os h w = Some w'"
  shows "if H = {#} then mem w' a = None else map_option abs_owned (mem w' a) = Some (spec_owned_drop h (abs_owned c))"
proof (cases "H = {#}")
  case True
  then show ?thesis using owned_finalize_inv [OF inv run] by (simp add: owned_inv_def)
next
  case False
  have i: "handles_ok c (add_mset h H)" "core h = Some a" using inv c by (auto simp: owned_inv_def owned_live_def)
  have r: "refs c - 1 \<noteq> 0" using i(1) handles_ok_size [OF i(1)] refs_zero_iff [of "size H"] False by (auto simp: handles_ok_def)
  have "sync_owned_bytes_core_release os a
      (w\<lparr>calls := calls w @ owned_drop_calls a h c, mem := (mem w)(a \<mapsto> owned_dropped h c)\<rparr>) = Some w'"
    using owned_finalize_eq [OF i(2) c, of os] run i(1) by (auto simp: handles_ok_def)
  then have "mem w' a = Some ((owned_dropped h c)\<lparr>refs := refs c - 1\<rparr>)"
    using r owned_release_live [of _ a "owned_dropped h c" os] by fastforce
  then show ?thesis using i(1) False abs_owned_dropped [of c h] by (auto simp: handles_ok_def)
qed

lemma owned_enter_refines:
  assumes ok: "os_ok os" and inv: "owned_inv cap mm mq a B w (add_mset h H) F ps" and may: "owned_may op h"
    and c: "mem w a = Some c" and run: "owned_enter os op h w = Some (out, w')"
  shows "\<exists>q. refines (next_operation_error w) h op (abs_owned c) out q \<and>
    (if op = Finalize \<and> H = {#} then mem w' a = None else map_option abs_owned (mem w' a) = Some q)"
proof -
  obtain bs where i: "handles_ok c (add_mset h H)" "core h = Some a" "queue_ok cap mm mq c bs"
    using inv c by (auto simp: owned_inv_def owned_live_def)
  consider (share) "op = Share" | (drop) "op = Finalize" | (call) "op \<noteq> Share" "op \<noteq> Finalize" by blast
  then show ?thesis
  proof cases
    case share
    then obtain g st where g: "out = Return (Handle g st)" "sync_owned_bytes_sender_share os h w = Some ((g, st), w')" using run by auto
    have "0 \<le> senders c" "role h = 1" using i(1) may share by (auto simp: handles_ok_def)
    then show ?thesis using owned_share_refines [OF ok i(2) c _ _ g(2)] share g(1) by (simp add: refines_def abs_owned_def)
  next
    case drop
    then have "out = Return Dropped" "sync_owned_bytes_finalize os h w = Some w'" using run by auto
    then show ?thesis using owned_finalize_refines [OF inv c, of os w'] drop by (simp add: refines_def)
  next
    case call
    then show ?thesis using owned_call_refines [OF ok i(2) c i(3) call run] by auto
  qed
qed

lemma owned_resume_refines:
  assumes ok: "os_ok os" and h: "core h = Some a" and m: "mem w a = Some c" and q: "queue_ok cap mm mq c bs"
    and kok: "owned_kok mm h k" and run: "owned_resume os k h w = Some (out, w')"
  shows "\<exists>c'. mem w' a = Some c' \<and> refines 0 h (owned_pending k) (abs_owned c) out (abs_owned c')"
proof (cases k)
  case (SubmitWaitK b message e)
  let ?w = "w\<lparr>calls := calls w @ [(CondWait a Writable, 0)]\<rparr>"
  obtain out' where o: "out = map_outcome Submitted id out'" "sync_owned_bytes_submit_loop os a b 1 message 0 ?w = Some (out', w')"
    using run h ok kok SubmitWaitK by (auto simp: sync_owned_bytes_submit_wake_def os_defs)
  have m': "mem ?w a = Some c" using m by simp
  show ?thesis using submit_loop_refines [OF ok m' q _ _ o(2)] kok SubmitWaitK o(1) by auto
next
  case (SubmitLockK b block x)
  then obtain out' where "out = map_outcome Submitted id out'" "sync_owned_bytes_submit_lock os a b block (Some x) w = Some (out', w')"
    using run h by auto
  then show ?thesis using submit_lock_refines [OF ok m q, of "Some x" b block] kok SubmitLockK by auto
next
  case (RecvK e)
  let ?w = "w\<lparr>calls := calls w @ [(CondWait a Readable, 0)]\<rparr>"
  obtain out' where o: "out = map_outcome Received id out'" "sync_owned_bytes_receive_loop os a 1 0 ?w = Some (out', w')"
    using run h ok kok RecvK by (auto simp: sync_owned_bytes_receive_wake_def os_defs)
  have m': "mem ?w a = Some c" using m by simp
  show ?thesis using take_refines [OF ok m' q o(2)] RecvK o(1) by auto
qed

section \<open>Refinement\<close>

text \<open>
  C7. Refinement: take any reachable configuration, reached under any behaviour of the system,
  and the next piece of code of any operation: one that a handle starts, the making of a
  further sender and the dropping of a handle included, or the rest of a call. As long as the
  calls of the system made by this piece succeed, it is the step of the byte queue that
  specifies the operation, with the same result and the same blocking, or leaves the queue
  alone and goes on with the same operation. So a send, which looks at the queue, gives the
  mutex up to copy its message and looks again, takes effect at one point; a send that finds an
  injected error reports it and changes nothing. The core is gone exactly when the last handle
  has been dropped.
\<close>

theorem owned_refines_queue:
  assumes boot: "owned_boot os cap mm mq w = Some s" "limits_ok cap mm mq" "mutex_state (fresh w) w = Some False"
    and run: "reach P (owned_monitor (fresh w)) s t" and ok: "os_ok os'" and c: "mem (wrld t) (fresh w) = Some c"
  shows "((h, Ready) \<in># agents t \<longrightarrow> owned_may op h \<longrightarrow> owned_enter os' op h (wrld t) = Some (out, w') \<longrightarrow>
      (\<exists>q. refines (next_operation_error (wrld t)) h op (abs_owned c) out q \<and>
        (if op = Finalize \<and> size (agents t) = 1 then mem w' (fresh w) = None
         else map_option abs_owned (mem w' (fresh w)) = Some q))) \<and>
    ((h, Runnable k) \<in># agents t \<longrightarrow> owned_resume os' k h (wrld t) = Some (out, w') \<longrightarrow>
      (\<exists>c'. mem w' (fresh w) = Some c' \<and> refines 0 h (owned_pending k) (abs_owned c) out (abs_owned c')))"
proof (intro conjI impI)
  note inv = reach_owned [OF boot run]
  have live: "core h = Some (fresh w) \<and> (\<exists>bs. queue_ok cap mm mq c bs)" if "(h, x) \<in># agents t" for x
    using inv(1) c that by (force simp: owned_inv_def owned_live_def split: if_splits)
  show "\<exists>q. refines (next_operation_error (wrld t)) h op (abs_owned c) out q \<and>
      (if op = Finalize \<and> size (agents t) = 1 then mem w' (fresh w) = None
       else map_option abs_owned (mem w' (fresh w)) = Some q)"
    if *: "(h, Ready) \<in># agents t" "owned_may op h" "owned_enter os' op h (wrld t) = Some (out, w')"
  proof -
    obtain A where A: "agents t = add_mset (h, Ready) A" using *(1) by (meson multi_member_split)
    have "size (agents t) = 1 \<longleftrightarrow> image_mset fst A = {#}" by (simp add: A)
    then show ?thesis using owned_enter_refines [OF ok inv(1) [unfolded A image_mset_add_mset fst_conv] *(2) c *(3)] by (simp only:)
  qed
  show "\<exists>c'. mem w' (fresh w) = Some c' \<and> refines 0 h (owned_pending k) (abs_owned c) out (abs_owned c')"
    if r: "(h, Runnable k) \<in># agents t" "owned_resume os' k h (wrld t) = Some (out, w')"
    using live [OF r(1)] owned_resume_refines [OF ok _ c _ _ r(2)] inv(2) r(1) by (auto simp: all_pending_def dest!: bspec)
qed

theorem owned_refines_queue_witness:
  "\<exists>t c c' out w'. owned_demo [Call (TrySend [1, 2]) 0] = Some t \<and> mem (wrld (config_of t)) 0 = Some c \<and>
     owned_resume quiet_os (SubmitLockK [1, 2] 0 (copy_message [1, 2])) (sync_owned_bytes_wrap 0 1) (wrld (config_of t)) = Some (out, w') \<and>
     mem w' 0 = Some c' \<and> items (abs_owned c) = [] \<and> refines 0 (sync_owned_bytes_wrap 0 1) (TrySend [1, 2]) (abs_owned c) out (abs_owned c')"
proof -
  let ?k = "SubmitLockK [1, 2] 0 (copy_message [1, 2])"
  have "\<exists>t c out w'. owned_demo [Call (TrySend [1, 2]) 0] = Some t \<and> mem (wrld (config_of t)) 0 = Some c \<and>
      (sync_owned_bytes_wrap 0 1, Runnable ?k) \<in># agents (config_of t) \<and>
      owned_resume quiet_os ?k (sync_owned_bytes_wrap 0 1) (wrld (config_of t)) = Some (out, w') \<and> items (abs_owned c) = []"
    by (simp add: owned_demo_def owned_eval numeral_2_eq_2 copy_message_def abs_owned_def ring_list_empty)
  then obtain t c out w' where t: "owned_demo [Call (TrySend [1, 2]) 0] = Some t"
    and p: "mem (wrld (config_of t)) 0 = Some c" "(sync_owned_bytes_wrap 0 1, Runnable ?k) \<in># agents (config_of t)"
      "owned_resume quiet_os ?k (sync_owned_bytes_wrap 0 1) (wrld (config_of t)) = Some (out, w')"
      "items (abs_owned c) = []"
    by blast
  obtain s where s: "owned_boot quiet_os 2 2 2 owned_empty_world = Some s"
      "reach (\<lambda>_. True) (owned_monitor (fresh owned_empty_world)) s (config_of t)"
    using owned_demo_reach [OF t, of "\<lambda>_. True"] by blast
  have "\<exists>c'. mem w' 0 = Some c' \<and> refines 0 (sync_owned_bytes_wrap 0 1) (TrySend [1, 2]) (abs_owned c) out (abs_owned c')"
    using owned_refines_queue [OF s(1) owned_demo_ok s(2) quiet_os_ok, of c "sync_owned_bytes_wrap 0 1" TryRecv out w' ?k] p
    by (auto simp: owned_empty_world_def)
  with t p show ?thesis by blast
qed

end
