(* ===== verification/Sync_OwnedBytes_Values.thy ===== *)
theory Sync_OwnedBytes_Values
  imports Sync_OwnedBytes_Refine
begin

text \<open>
  The values the owned-bytes channel keeps and hands on: the fields of a core stay values of
  their C types, a stored message describes its own block, and copying a byte string into a
  message and back is the identity.
\<close>

section \<open>The flags of a core\<close>

definition flag :: "int \<Rightarrow> bool" where
  "flag x \<longleftrightarrow> x = 0 \<or> x = 1"

definition flags_at :: "addr \<Rightarrow> owned_world \<Rightarrow> bool" where
  "flags_at a w \<longleftrightarrow> (\<forall>c. mem w a = Some c \<longrightarrow> flag (receiver_alive c) \<and> flag (closed c))"

lemma flags_at_upd [simp]:
  "flags_at a (w\<lparr>calls := ks\<rparr>) = flags_at a w" "flags_at a (w\<lparr>next_operation_error := n\<rparr>) = flags_at a w"
  by (auto simp: flags_at_def)

lemma flags_atD: "flags_at a w \<Longrightarrow> mem w a = Some c \<Longrightarrow> flag (receiver_alive c) \<and> flag (closed c)"
  by (simp add: flags_at_def)

lemma flag_01 [simp]: "flag 0" "flag 1"
  by (simp_all add: flag_def)

lemma flags_at_message_release [simp]: "flags_at a (sync_owned_bytes_message_release m w) = flags_at a w"
  by (simp add: flags_at_def)

lemma mem_release_messages: "release_messages cs n i w = Some w' \<Longrightarrow> mem w' = mem w"
  by (induction n arbitrary: i w) (auto simp: bind_eq_Some_conv)

lemma mem_message_copy: "sync_owned_bytes_message_copy os b n w = Some (m, w') \<Longrightarrow> mem w' = mem w"
  by (auto simp: sync_owned_bytes_message_copy_def os_defs bind_eq_Some_conv split: if_splits)

lemma mem_into_moonbit: "sync_owned_bytes_into_moonbit m w = Some (b, w') \<Longrightarrow> mem w' = mem w"
  by (auto simp: sync_owned_bytes_into_moonbit_def bind_eq_Some_conv)

text \<open>The core an operation leaves at \<open>a\<close> is the one it found or differs from it in other fields.\<close>

lemma flags_at_map:
  assumes "flags_at a w" "\<And>c'. mem w' a = Some c' \<Longrightarrow> \<exists>c. mem w a = Some c \<and>
      (receiver_alive c' = receiver_alive c \<or> flag (receiver_alive c')) \<and> (closed c' = closed c \<or> flag (closed c'))"
  shows "flags_at a w'"
  using assms unfolding flags_at_def by metis

lemma submit_loop_flags:
  assumes "sync_owned_bytes_submit_loop os b bytes block message error w = Some (out, w')" "flags_at a w"
  shows "flags_at a w'"
proof (rule flags_at_map [OF assms(2)], goal_cases)
  case (1 c')
  then show ?case
    using assms(1)
    by (auto simp: sync_owned_bytes_submit_loop_def submit_fail_def submit_copy_def submit_commit_def os_defs bind_eq_Some_conv
      split: if_splits option.splits dest!: mem_message_copy)
qed

lemma submit_lock_flags:
  assumes "sync_owned_bytes_submit_lock os b bytes block message w = Some (out, w')" "flags_at a w"
  shows "flags_at a w'"
  using assms submit_loop_flags
  by (auto simp: sync_owned_bytes_submit_lock_def submit_fail_def os_defs bind_eq_Some_conv split: if_splits)

lemma receive_loop_flags:
  assumes "sync_owned_bytes_receive_loop os b block error w = Some (out, w')" "flags_at a w"
  shows "flags_at a w'"
proof (rule flags_at_map [OF assms(2)], goal_cases)
  case (1 c')
  then show ?case
    using assms(1)
    by (auto simp: sync_owned_bytes_receive_loop_def os_defs bind_eq_Some_conv split: if_splits dest!: mem_into_moonbit)
qed

lemma core_release_flags:
  assumes "sync_owned_bytes_core_release os b w = Some w'" "flags_at a w"
  shows "flags_at a w'"
proof (rule flags_at_map [OF assms(2)], goal_cases)
  case (1 c')
  then show ?case
    using assms(1)
    by (auto simp: sync_owned_bytes_core_release_def os_defs bind_eq_Some_conv split: if_splits dest!: mem_release_messages)
qed

lemma finalize_flags:
  assumes run: "sync_owned_bytes_finalize os h w = Some w'" and flags: "flags_at a w"
  shows "flags_at a w'"
proof (cases "core h")
  case None
  then show ?thesis using assms by (simp add: sync_owned_bytes_finalize_def)
next
  case (Some b)
  have store: "flags_at a (w\<lparr>calls := ks, mem := (mem w)(b \<mapsto> c')\<rparr>)"
    if "mem w b = Some c" "receiver_alive c' = receiver_alive c \<or> flag (receiver_alive c')" "closed c' = closed c \<or> flag (closed c')"
    for ks c c'
    by (rule flags_at_map [OF flags]) (use that in \<open>auto split: if_splits\<close>)
  obtain c where c: "mem w b = Some c"
    using run Some by (auto simp: sync_owned_bytes_finalize_def os_defs bind_eq_Some_conv)
  note defs = sync_owned_bytes_finalize_def broadcast_both_or_abort_def os_defs bind_eq_Some_conv
  consider "role h = 1" | "role h = 2" "receiver_alive c \<noteq> 0" | "role h \<noteq> 1" "\<not> (role h = 2 \<and> receiver_alive c \<noteq> 0)"
    by blast
  then show ?thesis
  proof cases
    case 1
    then show ?thesis using run Some c by (auto simp: defs split: if_splits elim!: core_release_flags intro!: store)
  next
    case 2
    then show ?thesis using run Some c by (auto simp: defs elim!: core_release_flags intro!: store)
  next
    case 3
    then show ?thesis using run Some c flags by (auto simp: defs elim!: core_release_flags)
  qed
qed

lemma submit_start_flags:
  assumes "sync_owned_bytes_submit_start os h bytes block w = Some (out, w')" "flags_at a w"
  shows "flags_at a w'"
  using assms submit_lock_flags
  by (auto simp: sync_owned_bytes_submit_start_def sync_owned_bytes_channel_test_take_next_operation_error_def os_defs
      bind_eq_Some_conv split: if_splits)

lemma receive_start_flags:
  assumes "sync_owned_bytes_receive_start os h block w = Some (out, w')" "flags_at a w"
  shows "flags_at a w'"
  using assms receive_loop_flags
  by (auto simp: sync_owned_bytes_receive_start_def os_defs bind_eq_Some_conv split: if_splits)

lemma owned_enter_flags:
  assumes enter: "owned_enter os op h w = Some (out, w')" and flags: "flags_at a w"
  shows "flags_at a w'"
proof (cases "op \<in> {Share, SenderClose, ReceiverClose, Len}")
  case True
  show ?thesis
  proof (rule flags_at_map [OF flags], goal_cases)
    case (1 c')
    then show ?case
      using True enter
      by (auto simp: sync_owned_bytes_sender_share_def sync_owned_bytes_sender_close_def sync_owned_bytes_receiver_close_def
        close_owned_def sync_owned_bytes_receiver_len_def os_defs bind_eq_Some_conv split: if_splits)
  qed
next
  case False
  then show ?thesis
    using enter flags by (cases op) (auto intro: finalize_flags submit_start_flags receive_start_flags)
qed

lemma owned_resume_flags:
  assumes "owned_resume os k h w = Some (out, w')" "flags_at a w"
  shows "flags_at a w'"
  using assms
  by (cases k) (auto simp: sync_owned_bytes_submit_wake_def sync_owned_bytes_receive_wake_def submit_fail_def os_defs
      bind_eq_Some_conv split: if_splits intro: submit_lock_flags submit_loop_flags receive_loop_flags)

interpretation owned_flags: monitor_keeps P "owned_monitor a" "\<lambda>w _ _. flags_at a w" for P a
  by unfold_locales (auto simp: owned_monitor_def intro: owned_enter_flags owned_resume_flags)

lemma owned_boot_flags:
  assumes "owned_boot os cap mm mq w = Some s"
  shows "flags_at (fresh w) (wrld s)"
  using assms
  by (auto simp: owned_boot_def sync_owned_bytes_channel_new_def sync_owned_bytes_channel_receiver_def os_defs bind_eq_Some_conv
      sync_owned_bytes_wrap_def flags_at_def split: if_splits)

section \<open>Well-typed cores\<close>

text \<open>
  A message's length is the length of its block, and only an empty message has no block. The
  fields of a core are 32-bit integers, its flags 0 or 1, its array as long as it says.
\<close>

definition message_typed :: "sync_owned_bytes_message_t \<Rightarrow> bool" where
  "message_typed m \<longleftrightarrow> i32 (mlength m) \<and>
     (case data m of None \<Rightarrow> mlength m = 0 | Some bs \<Rightarrow> bs \<noteq> [] \<and> mlength m = int (length bs))"

definition core_typed :: "sync_owned_bytes_channel_core_t \<Rightarrow> bool" where
  "core_typed c \<longleftrightarrow>
     list_all i32 [capacity c, max_message_bytes c, max_queued_bytes c, queued_bytes c, head c, tail c, count c, senders c] \<and>
     flag (receiver_alive c) \<and> flag (closed c) \<and>
     int (length (slots c)) = capacity c \<and> list_all message_typed (occupied (slots c))"

lemma copy_message_typed: "i32 (int (length b)) \<Longrightarrow> message_typed (copy_message b)"
  by (auto simp: message_typed_def copy_message_def)

lemma queue_ok_typed:
  assumes q: "queue_ok cap mm mq c bs" and mm: "0 < mm" and s: "i32 (senders c)" and f: "flag (receiver_alive c)" "flag (closed c)"
  shows "core_typed c"
proof -
  note D = queue_okD [OF q] and R = ring_okD [OF queue_okD(1) [OF q]]
  have b: "\<forall>b \<in> set bs. i32 (int (length b))" and m: "i32 mm"
    using q mm by (auto simp: queue_ok_def i32_def INT32_MIN_def)
  have "set (occupied (slots c)) = set (ring_list (slots c) (head c) (count c))"
    using mset_occupied [OF D(1)] by (metis set_mset_mset)
  then have "list_all message_typed (occupied (slots c))"
    using q b copy_message_typed by (auto simp: queue_ok_def list_all_iff)
  moreover have "i32 (queued_bytes c)" by (rule i32_between [OF D(5,3,4)])
  moreover have "i32 (head c)" "i32 (tail c)" "i32 (count c)"
    using i32_between [OF R(2)] R(4-9) by auto
  ultimately show ?thesis using D R m s f by (simp add: core_typed_def)
qed

text \<open>
  C32. Type safety of the state: in every reachable configuration the fields of the core are
  values of their C types, although the code counts with unchecked 32-bit additions and
  remainders, and every stored message describes its own block. A live handle is a sender's
  or a receiver's.
\<close>

theorem owned_core_typed:
  assumes boot: "owned_boot os cap mm mq w = Some s" "limits_ok cap mm mq" "mutex_state (fresh w) w = Some False"
    and run: "reach P (owned_monitor (fresh w)) s t" and c: "mem (wrld t) (fresh w) = Some c"
  shows "core_typed c \<and> (\<forall>h \<in># image_mset fst (agents t). role h = 1 \<or> role h = 2)"
proof -
  have "flags_at (fresh w) (wrld t)"
    using owned_flags.reach_good [OF run] owned_boot_flags [OF boot(1)] by (simp add: owned_flags.good_def)
  then have f: "flag (receiver_alive c)" "flag (closed c)" using flags_atD c by blast+
  obtain bs where "queue_ok cap mm mq c bs" "handles_ok c (image_mset fst (agents t))"
    using reach_owned(1) [OF boot run] c by (auto simp: owned_inv_def owned_live_def split: if_splits)
  then show ?thesis using queue_ok_typed [OF _ _ _ f] boot(2) by (auto simp: handles_ok_def limits_ok_def)
qed

theorem owned_core_typed_witness:
  "\<exists>t c. owned_demo [Call (TrySend [1, 2]) 0, Resume 1] = Some t \<and> mem (wrld (config_of t)) 0 = Some c \<and>
     core_typed c \<and> count c = 1 \<and> occupied (slots c) = [\<lparr>data = Some [1, 2], mlength = 2\<rparr>]"
proof -
  obtain t c where t: "owned_demo [Call (TrySend [1, 2]) 0, Resume 1] = Some t"
    and p: "mem (wrld (config_of t)) 0 = Some c" "count c = 1" "occupied (slots c) = [\<lparr>data = Some [1, 2], mlength = 2\<rparr>]"
    by (simp add: owned_demo_def owned_eval numeral_2_eq_2)
  obtain s where s: "owned_boot quiet_os 2 2 2 owned_empty_world = Some s"
      "reach (\<lambda>_. True) (owned_monitor (fresh owned_empty_world)) s (config_of t)"
    using owned_demo_reach [OF t, of "\<lambda>_. True"] by blast
  show ?thesis
    using owned_core_typed [OF s(1) owned_demo_ok s(2), of c] t p by (auto simp: owned_empty_world_def)
qed

section \<open>Copying a message there and back\<close>

text \<open>
  C33. Round trip: with memory available, copying a byte string into a message, the empty one
  included, and turning the message back into a MoonBit object gives the same bytes, and the
  blocks allocated on the way are given back.
\<close>

theorem owned_message_roundtrip:
  assumes "\<And>h b. \<not> calloc_null os h b"
  shows "\<exists>m w1 w2. sync_owned_bytes_message_copy os bytes (int (length bytes)) w = Some (m, w1) \<and>
     sync_owned_bytes_into_moonbit m w1 = Some (bytes, w2) \<and> mem w2 = mem w \<and>
     (\<forall>r. balance r (calls w2) = balance r (calls w)) \<and> (bytes = [] \<longleftrightarrow> balance (BlockRes DataBlock) (calls w1) = balance (BlockRes DataBlock) (calls w))"
  using assms
  by (cases "bytes = []") (auto simp: sync_owned_bytes_message_copy_def sync_owned_bytes_into_moonbit_def memcpy_def
      sync_owned_bytes_message_release_def free_data_def os_defs)

theorem owned_message_roundtrip_witness:
  "\<exists>m w1 w2. sync_owned_bytes_message_copy quiet_os [1, 2, 3] 3 owned_empty_world = Some (m, w1) \<and>
     sync_owned_bytes_into_moonbit m w1 = Some ([1, 2, 3], w2)"
proof -
  have "\<not> calloc_null quiet_os h b" for h b by (simp add: quiet_os_def)
  then show ?thesis using owned_message_roundtrip [of quiet_os "[1, 2, 3]" owned_empty_world] by auto
qed

end
