(* ===== verification/Sync_Platform.thy ===== *)
theory Sync_Platform
  imports Sync_Atomic_Correct
begin

text \<open>
  The \<open>_WIN32\<close> branches of \<^verbatim>\<open>src/src/internal/native_internal.h\<close> and
  \<^verbatim>\<open>src/src/internal/native_sync.h\<close>, function by function, and that they agree with the
  definitions of the native layer that the components use. The suffix \<open>_win32\<close> tells the branch
  from its POSIX counterpart of the same name.

  A \<open>LONG\<close> is a 32-bit word; the layer's fault-injection cells hold its signed value. The calls of
  the Windows interface for locks and condition variables return nothing and cannot fail; each
  function makes the same entry in the log as its POSIX counterpart, also a destruction, for
  which Windows has no call: the entry marks the end of the object's life.
\<close>

section \<open>native\_internal.h\<close>

definition InterlockedIncrement :: "32 word \<Rightarrow> 32 word" where
  "InterlockedIncrement v = v + 1"

definition InterlockedDecrement :: "32 word \<Rightarrow> 32 word" where
  "InterlockedDecrement v = v - 1"

definition sync_arc_inc_win32 :: "sync_arc_t \<Rightarrow> sync_arc_t" where
  "sync_arc_inc_win32 value = InterlockedIncrement value"

definition sync_arc_dec_win32 :: "sync_arc_t \<Rightarrow> sync_arc_t" where
  "sync_arc_dec_win32 value = InterlockedDecrement value"

text \<open>The value read, if any, and the new contents.\<close>

definition sync_test_atomic_load_win32 :: "32 word \<Rightarrow> 32 word \<times> 32 word" where
  "sync_test_atomic_load_win32 value = InterlockedCompareExchange value 0 0"

definition sync_test_atomic_store_win32 :: "32 word \<Rightarrow> 32 word \<Rightarrow> 32 word" where
  "sync_test_atomic_store_win32 value next = snd (InterlockedExchange value next)"

definition sync_test_atomic_take_win32 :: "32 word \<Rightarrow> 32 word \<times> 32 word" where
  "sync_test_atomic_take_win32 value = InterlockedExchange value 0"

text \<open>The result, the new contents and the new value of \<open>*expected\<close>.\<close>

definition sync_test_atomic_compare_exchange_win32 :: "32 word \<Rightarrow> 32 word \<Rightarrow> 32 word \<Rightarrow> int \<times> 32 word \<times> 32 word" where
  "sync_test_atomic_compare_exchange_win32 value expected desired =
     (let (previous, value) = InterlockedCompareExchange value desired expected
      in if previous = expected then (1, value, expected) else (0, value, previous))"

section \<open>native\_sync.h\<close>

definition sync_os_mutex_init_win32 :: "addr \<Rightarrow> ('v, 'z) base_scheme \<Rightarrow> int \<times> ('v, 'z) base_scheme" where
  "sync_os_mutex_init_win32 a w = (0, log_call (MutexInit a) 0 w)"

definition sync_os_mutex_destroy_win32 :: "addr \<Rightarrow> ('v, 'z) base_scheme \<Rightarrow> int \<times> ('v, 'z) base_scheme" where
  "sync_os_mutex_destroy_win32 a w = (0, log_call (MutexDestroy a) 0 w)"

definition sync_os_mutex_lock_win32 :: "addr \<Rightarrow> ('v, 'z) base_scheme \<Rightarrow> int \<times> ('v, 'z) base_scheme" where
  "sync_os_mutex_lock_win32 a w = (0, log_call (MutexLock a) 0 w)"

definition sync_os_mutex_unlock_win32 :: "addr \<Rightarrow> ('v, 'z) base_scheme \<Rightarrow> int \<times> ('v, 'z) base_scheme" where
  "sync_os_mutex_unlock_win32 a w = (0, log_call (MutexUnlock a) 0 w)"

text \<open>\<open>GetCurrentThreadId\<close> returns a \<open>DWORD\<close>, which is extended to 64 bits.\<close>

definition sync_os_current_thread_id_win32 :: "32 word \<Rightarrow> 64 word" where
  "sync_os_current_thread_id_win32 GetCurrentThreadId = ucast GetCurrentThreadId"

definition sync_os_rwlock_init_win32 :: "addr \<Rightarrow> ('v, 'z) base_scheme \<Rightarrow> int \<times> ('v, 'z) base_scheme" where
  "sync_os_rwlock_init_win32 a w = (0, log_call (RwInit a) 0 w)"

definition sync_os_rwlock_destroy_win32 :: "addr \<Rightarrow> ('v, 'z) base_scheme \<Rightarrow> int \<times> ('v, 'z) base_scheme" where
  "sync_os_rwlock_destroy_win32 a w = (0, log_call (RwDestroy a) 0 w)"

definition sync_os_rwlock_read_lock_win32 :: "addr \<Rightarrow> ('v, 'z) base_scheme \<Rightarrow> int \<times> ('v, 'z) base_scheme" where
  "sync_os_rwlock_read_lock_win32 a w = (0, log_call (ReadLock a) 0 w)"

definition sync_os_rwlock_read_unlock_win32 :: "addr \<Rightarrow> ('v, 'z) base_scheme \<Rightarrow> int \<times> ('v, 'z) base_scheme" where
  "sync_os_rwlock_read_unlock_win32 a w = (0, log_call (ReadUnlock a) 0 w)"

definition sync_os_rwlock_write_lock_win32 :: "addr \<Rightarrow> ('v, 'z) base_scheme \<Rightarrow> int \<times> ('v, 'z) base_scheme" where
  "sync_os_rwlock_write_lock_win32 a w = (0, log_call (WriteLock a) 0 w)"

definition sync_os_rwlock_write_unlock_win32 :: "addr \<Rightarrow> ('v, 'z) base_scheme \<Rightarrow> int \<times> ('v, 'z) base_scheme" where
  "sync_os_rwlock_write_unlock_win32 a w = (0, log_call (WriteUnlock a) 0 w)"

definition sync_os_cond_init_win32 :: "addr \<Rightarrow> cond \<Rightarrow> ('v, 'z) base_scheme \<Rightarrow> int \<times> ('v, 'z) base_scheme" where
  "sync_os_cond_init_win32 a cv w = (0, log_call (CondInit a cv) 0 w)"

definition sync_os_cond_destroy_win32 :: "addr \<Rightarrow> cond \<Rightarrow> ('v, 'z) base_scheme \<Rightarrow> int \<times> ('v, 'z) base_scheme" where
  "sync_os_cond_destroy_win32 a cv w = (0, log_call (CondDestroy a cv) 0 w)"

text \<open>
  The only call here that may fail: \<open>slept\<close> is the result of \<open>SleepConditionVariableSRW\<close>, \<open>code\<close>
  that of \<open>GetLastError\<close>, a \<open>DWORD\<close> that the code casts to \<open>int32_t\<close>.
\<close>

definition sync_os_cond_wait_win32 ::
  "bool \<Rightarrow> 32 word \<Rightarrow> addr \<Rightarrow> cond \<Rightarrow> ('v, 'z) base_scheme \<Rightarrow> int \<times> ('v, 'z) base_scheme" where
  "sync_os_cond_wait_win32 slept code a cv w =
     (let st = (if slept then 0 else sint code) in (st, log_call (CondWait a cv) st w))"

definition sync_os_cond_signal_win32 :: "addr \<Rightarrow> cond \<Rightarrow> ('v, 'z) base_scheme \<Rightarrow> int \<times> ('v, 'z) base_scheme" where
  "sync_os_cond_signal_win32 a cv w = (0, log_call (CondSignal a cv) 0 w)"

definition sync_os_cond_broadcast_win32 :: "addr \<Rightarrow> cond \<Rightarrow> ('v, 'z) base_scheme \<Rightarrow> int \<times> ('v, 'z) base_scheme" where
  "sync_os_cond_broadcast_win32 a cv w = (0, log_call (CondBroadcast a cv) 0 w)"

lemmas win32_defs = sync_os_mutex_init_win32_def sync_os_mutex_destroy_win32_def sync_os_mutex_lock_win32_def
  sync_os_mutex_unlock_win32_def sync_os_rwlock_init_win32_def sync_os_rwlock_destroy_win32_def
  sync_os_rwlock_read_lock_win32_def sync_os_rwlock_read_unlock_win32_def sync_os_rwlock_write_lock_win32_def
  sync_os_rwlock_write_unlock_win32_def sync_os_cond_init_win32_def sync_os_cond_destroy_win32_def
  sync_os_cond_wait_win32_def sync_os_cond_signal_win32_def sync_os_cond_broadcast_win32_def

section \<open>The branches agree\<close>

lemma sint_eq_iff [simp]: "sint v = sint e \<longleftrightarrow> v = (e :: 32 word)"
  using signed_word_eqI [of v e] by auto

text \<open>Distinct threads stay distinct, so the owner of a mutex is identified by its number.\<close>

lemma current_thread_id_win32_inj: "inj sync_os_current_thread_id_win32"
proof (rule injI)
  fix x y :: "32 word"
  assume "sync_os_current_thread_id_win32 x = sync_os_current_thread_id_win32 y"
  then have "uint (ucast x :: 64 word) = uint (ucast y :: 64 word)" by (simp add: sync_os_current_thread_id_win32_def)
  moreover have "uint (ucast v :: 64 word) = uint v" for v :: "32 word"
    using uint_lt2p [of v] by (simp add: unsigned_ucast_eq take_bit_eq_mod)
  ultimately have "uint x = uint y" by simp
  then show "x = y" by (rule unsigned_word_eqI)
qed

lemma native_atomics_agree:
  "sync_arc_inc_win32 v = sync_arc_inc v" "sync_arc_dec_win32 v = sync_arc_dec v"
  "map_prod sint sint (sync_test_atomic_load_win32 v) = sync_test_atomic_load (sint v)"
  "sint (sync_test_atomic_store_win32 v n) = sync_test_atomic_store (sint v) (sint n)"
  "map_prod sint sint (sync_test_atomic_take_win32 v) = sync_test_atomic_take (sint v)"
  "map_prod id (map_prod sint sint) (sync_test_atomic_compare_exchange_win32 v e n) =
     sync_test_atomic_compare_exchange (sint v) (sint e) (sint n)"
  by (simp_all add: sync_arc_inc_win32_def sync_arc_dec_win32_def sync_test_atomic_load_win32_def
      sync_test_atomic_store_win32_def sync_test_atomic_take_win32_def sync_test_atomic_compare_exchange_win32_def
      InterlockedIncrement_def InterlockedDecrement_def InterlockedCompareExchange_def InterlockedExchange_def sync_arc_inc_def
      sync_arc_dec_def sync_test_atomic_load_def sync_test_atomic_store_def sync_test_atomic_take_def
      sync_test_atomic_compare_exchange_def)

text \<open>On Windows the wrappers of the native layer are the functions of this theory.\<close>

lemma native_locks_agree:
  assumes "win32 os"
  shows "sync_os_mutex_init os a w = sync_os_mutex_init_win32 a w" "sync_os_mutex_destroy os a w = sync_os_mutex_destroy_win32 a w"
    "sync_os_mutex_lock os a w = sync_os_mutex_lock_win32 a w" "sync_os_mutex_unlock os a w = sync_os_mutex_unlock_win32 a w"
    "sync_os_rwlock_init os a w = sync_os_rwlock_init_win32 a w" "sync_os_rwlock_destroy os a w = sync_os_rwlock_destroy_win32 a w"
    "sync_os_rwlock_read_lock os a w = sync_os_rwlock_read_lock_win32 a w"
    "sync_os_rwlock_read_unlock os a w = sync_os_rwlock_read_unlock_win32 a w"
    "sync_os_rwlock_write_lock os a w = sync_os_rwlock_write_lock_win32 a w"
    "sync_os_rwlock_write_unlock os a w = sync_os_rwlock_write_unlock_win32 a w"
    "sync_os_cond_init os a cv w = sync_os_cond_init_win32 a cv w" "sync_os_cond_destroy os a cv w = sync_os_cond_destroy_win32 a cv w"
    "ret os (calls w) (CondWait a cv) = (if slept then 0 else sint code) \<Longrightarrow>
      sync_os_cond_wait os a cv w = sync_os_cond_wait_win32 slept code a cv w"
    "sync_os_cond_signal os a cv w = sync_os_cond_signal_win32 a cv w"
    "sync_os_cond_broadcast os a cv w = sync_os_cond_broadcast_win32 a cv w"
  using assms by (simp_all add: win32_defs os_defs posix_status_def)

text \<open>
  C40. The two platforms agree. Every operation on an atomic cell has the same result and the
  same effect in its Windows and in its POSIX branch, the packed compare-exchange included; so
  have the reference counts and, read as signed values, the fault-injection cells, whose
  Windows compare-exchange is built from \<open>InterlockedCompareExchange\<close>.
\<close>

theorem platforms_agree:
  "atomic_call (os\<lparr>win32 := True\<rparr>) kind op h w = atomic_call (os\<lparr>win32 := False\<rparr>) kind op h w \<and>
   sync_arc_inc_win32 v = sync_arc_inc v \<and> sync_arc_dec_win32 v = sync_arc_dec v \<and>
   map_prod sint sint (sync_test_atomic_load_win32 v) = sync_test_atomic_load (sint v) \<and>
   sint (sync_test_atomic_store_win32 v n) = sync_test_atomic_store (sint v) (sint n) \<and>
   map_prod sint sint (sync_test_atomic_take_win32 v) = sync_test_atomic_take (sint v) \<and>
   map_prod id (map_prod sint sint) (sync_test_atomic_compare_exchange_win32 v e n) =
     sync_test_atomic_compare_exchange (sint v) (sint e) (sint n)"
  by (intro conjI atomic_platforms_agree native_atomics_agree)

end
